(* ===== verification/Ut_Prelude.thy ===== *)
theory Ut_Prelude
  imports Main "HOL-Library.Word" "HOL-Library.Monad_Syntax" "HOL-Library.Multiset"
    "HOL-Library.Signed_Division"
begin

text \<open>
  Shared vocabulary of the development: machine pointers and the failure values of a C
  program, the result type of operations that can fail, the status bit masks of
  \<^verbatim>\<open>uthread_inner.h\<close>, and the generic lemmas on lists, maps and words on which
  the component theories rest.

  A pointer is a natural number with \<open>NULL = 0\<close>.  A heap (or one field of a heap)
  is a map from pointers: \<open>None\<close> means that nothing is allocated there, so that a
  read through a null or a dangling pointer is visible in the model as a failure and
  never as an unspecified value.
\<close>

unbundle bit_operations_syntax

subsection \<open>Pointers and failures\<close>

type_synonym ptr = nat

abbreviation (input) NULL :: ptr where
  "NULL \<equiv> 0"

text \<open>
  How a run of the C program can go wrong: an access through a null pointer, an access to
  memory that is not allocated (never allocated, or freed), a failed \<^verbatim>\<open>assert\<close>, an array
  index out of range, a signed overflow, a corrupted intrusive red-black tree, and a stack
  overflow.  \<open>OutOfFuel\<close> is the value of a loop of the model that has used up the number of turns it
  was given.
\<close>

datatype crash = NullDeref | BadAccess | AssertFail | IndexRange | SignedOverflow | TreeCorrupt
  | StackOverflow | OutOfFuel

type_synonym 'a res = "crash + 'a"

text \<open>Sequencing of operations that can fail: the first failure ends the run.\<close>

fun bnd :: "'a res \<Rightarrow> ('a \<Rightarrow> 'b res) \<Rightarrow> 'b res" where
  "bnd (Inl e) f = Inl e"
| "bnd (Inr x) f = f x"

text \<open>\<^verbatim>\<open>assert(b)\<close>: the process aborts unless \<open>b\<close> holds.\<close>

definition c_assert :: "bool \<Rightarrow> unit res" where
  "c_assert b = (if b then Inr () else Inl AssertFail)"

text \<open>Reading an object of a heap through a pointer.\<close>

definition deref :: "(ptr \<rightharpoonup> 'a) \<Rightarrow> ptr \<Rightarrow> 'a res" where
  "deref h a =
     (if a = NULL then Inl NullDeref
      else case h a of None \<Rightarrow> Inl BadAccess | Some x \<Rightarrow> Inr x)"

text \<open>Signed 32-bit arithmetic: a sum outside the range of \<^verbatim>\<open>int\<close> is undefined behaviour.\<close>

definition c_int :: "int \<Rightarrow> int res" where
  "c_int i = (if - (2 ^ 31) \<le> i \<and> i < 2 ^ 31 then Inr i else Inl SignedOverflow)"

lemma bnd_Inr_iff: "bnd m f = Inr y \<longleftrightarrow> (\<exists>x. m = Inr x \<and> f x = Inr y)"
  by (cases m) auto

lemma bnd_assoc: "bnd (bnd m f) g = bnd m (\<lambda>x. bnd (f x) g)"
  by (cases m) auto

lemma c_assert_simps [simp]:
  "c_assert True = Inr ()" "c_assert False = Inl AssertFail"
  by (simp_all add: c_assert_def)

lemma c_assert_Inr [simp]: "c_assert b = Inr u \<longleftrightarrow> b"
  by (simp add: c_assert_def)

lemma deref_Inr [simp]: "deref h a = Inr x \<longleftrightarrow> a \<noteq> NULL \<and> h a = Some x"
  by (auto simp: deref_def split: option.splits)

lemma deref_Some [simp]: "a \<noteq> NULL \<Longrightarrow> h a = Some x \<Longrightarrow> deref h a = Inr x"
  by simp

lemma deref_NULL [simp]: "deref h NULL = Inl NullDeref"
  by (simp add: deref_def)

lemma c_int_Inr: "- (2 ^ 31) \<le> i \<Longrightarrow> i < 2 ^ 31 \<Longrightarrow> c_int i = Inr i"
  by (simp add: c_int_def)

end
