(* ===== verification/Ut_Switch.thy ===== *)
theory Ut_Switch
  imports Ut_Prelude
begin

text \<open>
  The context switch of \<^verbatim>\<open>uthread.c\<close> at the level of registers: the two versions of \<^verbatim>\<open>_switch\<close>
  (x86-64 and i386) as instruction sequences, the contexts that \<^verbatim>\<open>_uthread_init\<close> and \<^verbatim>\<open>_runtime_init\<close>
  prepare, and the facts that justify the continuations of \<open>Ut_Co\<close>: a switch away and back restores
  the registers that a called function must preserve, and the first switch to a new uthread starts
  \<^verbatim>\<open>_uthread_exec\<close> with the uthread as its argument.

  Memory is a map from addresses to machine words; all accesses of the code are to aligned
  words, so two different addresses denote disjoint cells.
\<close>

subsection \<open>Machine\<close>

datatype reg = AX | BX | DX | SI | DI | BP | SP | R12 | R13 | R14 | R15

text \<open>\<open>Store r b i\<close> is \<^verbatim>\<open>mov r, i(b)\<close>, \<open>Load b i r\<close> is \<^verbatim>\<open>mov i(b), r\<close>.\<close>

datatype instr = Store reg reg nat | Load reg nat reg | Return

record 'v cpu =
  regs :: "reg \<Rightarrow> 'v"
  cells :: "'v \<Rightarrow> 'v"
  ip :: 'v

text \<open>One instruction; \<open>sz\<close> is the number of bytes of a word.\<close>

fun step :: "nat \<Rightarrow> instr \<Rightarrow> 'w::len word cpu \<Rightarrow> 'w word cpu" where
  "step sz (Store r b i) s = s\<lparr>cells := (cells s)(regs s b + of_nat i := regs s r)\<rparr>"
| "step sz (Load b i r) s = s\<lparr>regs := (regs s)(r := cells s (regs s b + of_nat i))\<rparr>"
| "step sz Return s = s\<lparr>ip := cells s (regs s SP), regs := (regs s)(SP := regs s SP + of_nat sz)\<rparr>"

definition run_code :: "nat \<Rightarrow> instr list \<Rightarrow> 'w::len word cpu \<Rightarrow> 'w word cpu" where
  "run_code sz is s = fold (step sz) is s"

definition switch_x86_64 :: "instr list" where
  "switch_x86_64 =
    [Store SP SI 0, Store BP SI 8, Load SP 0 AX, Store AX SI 16, Store BX SI 24,
     Store R12 SI 32, Store R13 SI 40, Store R14 SI 48, Store R15 SI 56,
     Load DI 56 R15, Load DI 48 R14, Load DI 40 R13, Load DI 32 R12, Load DI 24 BX,
     Load DI 8 BP, Load DI 0 SP, Load DI 16 AX, Store AX SP 0, Return]"

definition switch_i386 :: "instr list" where
  "switch_i386 =
    [Load SP 8 DX, Store SP DX 0, Store BP DX 4, Load SP 0 AX, Store AX DX 8,
     Store BX DX 12, Store SI DX 16, Store DI DX 20,
     Load SP 4 DX, Load DX 20 DI, Load DX 16 SI, Load DX 12 BX,
     Load DX 0 SP, Load DX 4 BP, Load DX 8 AX, Store AX SP 0, Return]"

subsection \<open>New contexts\<close>

text \<open>
  \<^verbatim>\<open>_uthread_init\<close> (the part that fills the stack and \<^verbatim>\<open>ctx\<close>), for words of \<open>sz\<close> bytes.  \<open>stk\<close> is
  \<^verbatim>\<open>ut->stack + ut->stack_size\<close>; \<open>ut\<close> is the address of the uthread and, as \<^verbatim>\<open>ctx\<close> is its first
  field, of its context, whose fields \<^verbatim>\<open>esp\<close>, \<^verbatim>\<open>ebp\<close>, \<^verbatim>\<open>eip\<close> come first.  \<^verbatim>\<open>_runtime_init\<close> does the same for
  the first scheduler, whose \<^verbatim>\<open>ctx\<close> is not at its address.
\<close>

definition init_ctx ::
  "nat \<Rightarrow> 'w::len word \<Rightarrow> 'w word \<Rightarrow> 'w word \<Rightarrow> 'w word \<Rightarrow> ('w word \<Rightarrow> 'w word) \<Rightarrow> 'w word \<Rightarrow> 'w word" where
  "init_ctx sz arg stk ctx entry m =
     m(stk - of_nat (2 * sz) := arg,
       stk - of_nat (3 * sz) := 0,
       ctx := stk - of_nat (4 * sz),
       ctx + of_nat sz := stk - of_nat (3 * sz),
       ctx + of_nat (2 * sz) := entry)"

subsection \<open>What a switch does\<close>

text \<open>The cells of a context that \<open>_switch\<close> uses.\<close>

definition ctx64 :: "64 word \<Rightarrow> 64 word set" where
  "ctx64 c = {c, c + 8, c + 16, c + 24, c + 32, c + 40, c + 48, c + 56}"

definition ctx32 :: "32 word \<Rightarrow> 32 word set" where
  "ctx32 c = {c, c + 4, c + 8, c + 12, c + 16, c + 20}"

text \<open>What \<open>cells\<close> hold of the registers of \<open>s\<close>, when these are saved in the context \<open>c\<close>.\<close>

definition saved64 :: "64 word cpu \<Rightarrow> 64 word \<Rightarrow> (64 word \<Rightarrow> 64 word) \<Rightarrow> bool" where
  "saved64 s c m \<longleftrightarrow> m c = regs s SP \<and> m (c + 8) = regs s BP \<and> m (c + 16) = cells s (regs s SP) \<and>
     m (c + 24) = regs s BX \<and> m (c + 32) = regs s R12 \<and> m (c + 40) = regs s R13 \<and>
     m (c + 48) = regs s R14 \<and> m (c + 56) = regs s R15"

definition saved32 :: "32 word cpu \<Rightarrow> 32 word \<Rightarrow> (32 word \<Rightarrow> 32 word) \<Rightarrow> bool" where
  "saved32 s c m \<longleftrightarrow> m c = regs s SP \<and> m (c + 4) = regs s BP \<and> m (c + 8) = cells s (regs s SP) \<and>
     m (c + 12) = regs s BX \<and> m (c + 16) = regs s SI \<and> m (c + 20) = regs s DI"

text \<open>The registers that a function must leave as it found them, and where it returns to.\<close>

definition resumed64 :: "64 word cpu \<Rightarrow> 64 word cpu \<Rightarrow> bool" where
  "resumed64 s s' \<longleftrightarrow> regs s' SP = regs s SP + 8 \<and> ip s' = cells s (regs s SP) \<and>
     (\<forall>r \<in> {BX, BP, R12, R13, R14, R15}. regs s' r = regs s r)"

definition resumed32 :: "32 word cpu \<Rightarrow> 32 word cpu \<Rightarrow> bool" where
  "resumed32 s s' \<longleftrightarrow> regs s' SP = regs s SP + 4 \<and> ip s' = cells s (regs s SP) \<and>
     (\<forall>r \<in> {BX, BP, SI, DI}. regs s' r = regs s r)"

text \<open>The memory after the stores of the x86-64 version, and the effect of its two halves.\<close>

definition saves64 :: "64 word cpu \<Rightarrow> 64 word \<Rightarrow> 64 word" where
  "saves64 s = (let c = regs s SI in
     (cells s)(c := regs s SP, c + 8 := regs s BP, c + 16 := cells s (regs s SP), c + 24 := regs s BX,
       c + 32 := regs s R12, c + 40 := regs s R13, c + 48 := regs s R14, c + 56 := regs s R15))"

lemma run_code_simps:
  "run_code sz [] s = s" "run_code sz (i # is) s = run_code sz is (step sz i s)"
  by (simp_all add: run_code_def)

lemma run_code_append: "run_code sz (is @ js) s = run_code sz js (run_code sz is s)"
  by (simp add: run_code_def)

lemma switch64_save:
  assumes "regs s SP \<notin> {regs s SI, regs s SI + 8}"
  shows "run_code 8 (take 9 switch_x86_64) s =
    s\<lparr>cells := saves64 s, regs := (regs s)(AX := cells s (regs s SP))\<rparr>"
  using assms by (simp add: switch_x86_64_def run_code_simps saves64_def Let_def)

lemma switch64_load:
  "run_code 8 (drop 9 switch_x86_64) s =
    (let c = regs s DI; m = cells s in
     s\<lparr>cells := m(m c := m (c + 16)), ip := m (c + 16),
       regs := (regs s)(R15 := m (c + 56), R14 := m (c + 48), R13 := m (c + 40), R12 := m (c + 32),
         BX := m (c + 24), BP := m (c + 8), AX := m (c + 16), SP := m c + 8)\<rparr>)"
  by (simp add: switch_x86_64_def run_code_simps Let_def fun_eq_iff)

lemma switch64_effect:
  assumes "regs s SP \<notin> ctx64 (regs s SI)"
  shows "run_code 8 switch_x86_64 s =
    (let c = regs s DI; m = saves64 s in
     s\<lparr>cells := m(m c := m (c + 16)), ip := m (c + 16),
       regs := (regs s)(R15 := m (c + 56), R14 := m (c + 48), R13 := m (c + 40), R12 := m (c + 32),
         BX := m (c + 24), BP := m (c + 8), AX := m (c + 16), SP := m c + 8)\<rparr>)"
proof -
  have "run_code 8 switch_x86_64 s = run_code 8 (drop 9 switch_x86_64) (run_code 8 (take 9 switch_x86_64) s)"
    by (simp only: run_code_append [symmetric] append_take_drop_id)
  moreover have "regs s SP \<notin> {regs s SI, regs s SI + 8}" using assms by (auto simp: ctx64_def)
  ultimately show ?thesis by (simp add: switch64_save switch64_load Let_def fun_eq_iff)
qed

lemma saves64_other: "x \<notin> ctx64 (regs s SI) \<Longrightarrow> saves64 s x = cells s x"
  by (simp add: saves64_def ctx64_def Let_def)

lemma saves64_saved: "saved64 s (regs s SI) (saves64 s)"
  by (simp add: saved64_def saves64_def Let_def)

lemma saved64_cong:
  "saved64 s c m \<Longrightarrow> (\<And>a. a \<in> ctx64 c \<Longrightarrow> m' a = m a) \<Longrightarrow> saved64 s c m'"
  by (simp add: saved64_def ctx64_def)

lemma switch64_saves:
  assumes "regs s SP \<notin> ctx64 (regs s SI)" "cells s (regs s DI) \<notin> ctx64 (regs s SI)"
    and "regs s DI \<notin> ctx64 (regs s SI)"
  shows "saved64 s (regs s SI) (cells (run_code 8 switch_x86_64 s))"
proof (rule saved64_cong [OF saves64_saved])
  fix a
  assume "a \<in> ctx64 (regs s SI)"
  then show "cells (run_code 8 switch_x86_64 s) a = saves64 s a"
    using assms(2,3) by (auto simp: switch64_effect [OF assms(1)] Let_def saves64_other)
qed

lemma switch64_restores:
  assumes "saved64 s0 (regs s DI) (cells s)" "ctx64 (regs s DI) \<inter> ctx64 (regs s SI) = {}"
    and "regs s SP \<notin> ctx64 (regs s SI)"
  shows "resumed64 s0 (run_code 8 switch_x86_64 s)"
proof -
  have "a \<in> ctx64 (regs s DI) \<Longrightarrow> saves64 s a = cells s a" for a
    using assms(2) by (intro saves64_other) auto
  then have "saved64 s0 (regs s DI) (saves64 s)" using saved64_cong [OF assms(1)] by blast
  then show ?thesis by (simp add: switch64_effect [OF assms(3)] Let_def resumed64_def saved64_def)
qed

text \<open>The i386 version takes its arguments from the stack.\<close>

definition saves32 :: "32 word cpu \<Rightarrow> 32 word \<Rightarrow> 32 word" where
  "saves32 s = (let c = cells s (regs s SP + 8) in
     (cells s)(c := regs s SP, c + 4 := regs s BP, c + 8 := cells s (regs s SP), c + 12 := regs s BX,
       c + 16 := regs s SI, c + 20 := regs s DI))"

lemma switch32_save:
  assumes "regs s SP \<notin> ctx32 (cells s (regs s SP + 8))"
  shows "run_code 4 (take 8 switch_i386) s =
    s\<lparr>cells := saves32 s, regs := (regs s)(DX := cells s (regs s SP + 8), AX := cells s (regs s SP))\<rparr>"
  using assms by (simp add: switch_i386_def run_code_simps saves32_def Let_def ctx32_def fun_upd_twist)

lemma switch32_load:
  "run_code 4 (drop 8 switch_i386) s =
    (let m = cells s; c = m (regs s SP + 4) in
     s\<lparr>cells := m(m c := m (c + 8)), ip := m (c + 8),
       regs := (regs s)(DX := c, DI := m (c + 20), SI := m (c + 16), BX := m (c + 12), BP := m (c + 4),
         AX := m (c + 8), SP := m c + 4)\<rparr>)"
  by (simp add: switch_i386_def run_code_simps Let_def fun_eq_iff)

lemma switch32_effect:
  assumes "regs s SP \<notin> ctx32 (cells s (regs s SP + 8))"
  shows "run_code 4 switch_i386 s =
    (let m = saves32 s; c = m (regs s SP + 4) in
     s\<lparr>cells := m(m c := m (c + 8)), ip := m (c + 8),
       regs := (regs s)(DX := c, DI := m (c + 20), SI := m (c + 16), BX := m (c + 12), BP := m (c + 4),
         AX := m (c + 8), SP := m c + 4)\<rparr>)"
proof -
  have "run_code 4 switch_i386 s = run_code 4 (drop 8 switch_i386) (run_code 4 (take 8 switch_i386) s)"
    by (simp only: run_code_append [symmetric] append_take_drop_id)
  then show ?thesis using assms by (simp add: switch32_save switch32_load Let_def fun_eq_iff)
qed

lemma saves32_other: "x \<notin> ctx32 (cells s (regs s SP + 8)) \<Longrightarrow> saves32 s x = cells s x"
  by (simp add: saves32_def ctx32_def Let_def)

lemma saves32_saved: "saved32 s (cells s (regs s SP + 8)) (saves32 s)"
  by (simp add: saved32_def saves32_def Let_def)

lemma saved32_cong:
  "saved32 s c m \<Longrightarrow> (\<And>a. a \<in> ctx32 c \<Longrightarrow> m' a = m a) \<Longrightarrow> saved32 s c m'"
  by (simp add: saved32_def ctx32_def)

lemma switch32_saves:
  assumes "regs s SP \<notin> ctx32 (cells s (regs s SP + 8))" "regs s SP + 4 \<notin> ctx32 (cells s (regs s SP + 8))"
    and "cells s (regs s SP + 4) \<notin> ctx32 (cells s (regs s SP + 8))"
    and "cells s (cells s (regs s SP + 4)) \<notin> ctx32 (cells s (regs s SP + 8))"
  shows "saved32 s (cells s (regs s SP + 8)) (cells (run_code 4 switch_i386 s))"
proof (rule saved32_cong [OF saves32_saved])
  fix a
  assume "a \<in> ctx32 (cells s (regs s SP + 8))"
  then show "cells (run_code 4 switch_i386 s) a = saves32 s a"
    using assms(2-4) by (auto simp: switch32_effect [OF assms(1)] Let_def saves32_other)
qed

lemma switch32_restores:
  assumes "saved32 s0 (cells s (regs s SP + 4)) (cells s)"
    and "ctx32 (cells s (regs s SP + 4)) \<inter> ctx32 (cells s (regs s SP + 8)) = {}"
    and "regs s SP \<notin> ctx32 (cells s (regs s SP + 8))" "regs s SP + 4 \<notin> ctx32 (cells s (regs s SP + 8))"
  shows "resumed32 s0 (run_code 4 switch_i386 s)"
proof -
  let ?c = "cells s (regs s SP + 4)"
  have "a \<in> ctx32 ?c \<Longrightarrow> saves32 s a = cells s a" for a
    using assms(2) by (intro saves32_other) auto
  then have "saved32 s0 ?c (saves32 s)" using saved32_cong [OF assms(1)] by blast
  moreover have "saves32 s (regs s SP + 4) = ?c" by (rule saves32_other [OF assms(4)])
  ultimately show ?thesis
    by (simp add: switch32_effect [OF assms(3)] Let_def resumed32_def saved32_def)
qed

subsection \<open>Properties\<close>

text \<open>
  C31: On x86-64, a uthread that calls \<^verbatim>\<open>_switch\<close> goes on later as if the call had returned: when its
  context is switched to, the stack pointer is that after the return, the return address is its own and
  the registers \<^verbatim>\<open>rbx\<close>, \<^verbatim>\<open>rbp\<close>, \<^verbatim>\<open>r12\<close> to \<^verbatim>\<open>r15\<close> are what they were.  In between the context must not be
  written and contexts and stacks must not overlap.
\<close>

theorem switch64_roundtrip:
  assumes "regs s SP \<notin> ctx64 (regs s SI)" "cells s (regs s DI) \<notin> ctx64 (regs s SI)"
    and "regs s DI \<notin> ctx64 (regs s SI)"
    and "\<forall>a \<in> ctx64 (regs s SI). cells s' a = cells (run_code 8 switch_x86_64 s) a"
    and "regs s' DI = regs s SI" "ctx64 (regs s' DI) \<inter> ctx64 (regs s' SI) = {}"
    and "regs s' SP \<notin> ctx64 (regs s' SI)"
  shows "resumed64 s (run_code 8 switch_x86_64 s')"
proof -
  have "saved64 s (regs s SI) (cells s')"
    using saved64_cong [OF switch64_saves [OF assms(1-3)]] assms(4) by blast
  then show ?thesis using assms(5-7) by (intro switch64_restores) simp_all
qed

text \<open>An example: two contexts at 4096 and 8192, two stacks.\<close>

definition demo_cpu :: "64 word \<Rightarrow> 64 word \<Rightarrow> 64 word \<Rightarrow> (64 word \<Rightarrow> 64 word) \<Rightarrow> 64 word cpu" where
  "demo_cpu sp di si m = \<lparr>regs = (\<lambda>_. 7)(SP := sp, DI := di, SI := si), cells = m, ip = 0\<rparr>"

theorem switch64_roundtrip_witness:
  "resumed64 (demo_cpu 1000 8192 4096 ((\<lambda>_. 0)(8192 := 2000, 1000 := 42)))
    (run_code 8 switch_x86_64 (demo_cpu 1960 4096 8192
      (cells (run_code 8 switch_x86_64 (demo_cpu 1000 8192 4096 ((\<lambda>_. 0)(8192 := 2000, 1000 := 42)))))))"
  by (rule switch64_roundtrip) (auto simp: demo_cpu_def ctx64_def)

text \<open>The same for i386, where \<^verbatim>\<open>ebx\<close>, \<^verbatim>\<open>ebp\<close>, \<^verbatim>\<open>esi\<close> and \<^verbatim>\<open>edi\<close> must be preserved.\<close>

theorem switch32_roundtrip:
  assumes "regs s SP \<notin> ctx32 (cells s (regs s SP + 8))" "regs s SP + 4 \<notin> ctx32 (cells s (regs s SP + 8))"
    and "cells s (regs s SP + 4) \<notin> ctx32 (cells s (regs s SP + 8))"
    and "cells s (cells s (regs s SP + 4)) \<notin> ctx32 (cells s (regs s SP + 8))"
    and "\<forall>a \<in> ctx32 (cells s (regs s SP + 8)). cells s' a = cells (run_code 4 switch_i386 s) a"
    and "cells s' (regs s' SP + 4) = cells s (regs s SP + 8)"
    and "ctx32 (cells s' (regs s' SP + 4)) \<inter> ctx32 (cells s' (regs s' SP + 8)) = {}"
    and "regs s' SP \<notin> ctx32 (cells s' (regs s' SP + 8))" "regs s' SP + 4 \<notin> ctx32 (cells s' (regs s' SP + 8))"
  shows "resumed32 s (run_code 4 switch_i386 s')"
proof -
  have "saved32 s (cells s (regs s SP + 8)) (cells s')"
    using saved32_cong [OF switch32_saves [OF assms(1-4)]] assms(5) by blast
  then show ?thesis using assms(6-9) by (intro switch32_restores) simp_all
qed

definition demo_cpu32 :: "32 word \<Rightarrow> 32 word \<Rightarrow> 32 word \<Rightarrow> (32 word \<Rightarrow> 32 word) \<Rightarrow> 32 word cpu" where
  "demo_cpu32 sp new cur m =
     \<lparr>regs = (\<lambda>_. 7)(SP := sp), cells = m(sp + 4 := new, sp + 8 := cur), ip = 0\<rparr>"

theorem switch32_roundtrip_witness:
  "resumed32 (demo_cpu32 1000 8192 4096 ((\<lambda>_. 0)(8192 := 2000, 1000 := 42)))
    (run_code 4 switch_i386 (demo_cpu32 1960 4096 8192
      (cells (run_code 4 switch_i386 (demo_cpu32 1000 8192 4096 ((\<lambda>_. 0)(8192 := 2000, 1000 := 42)))))))"
  by (rule switch32_roundtrip) (auto simp: demo_cpu32_def ctx32_def)

lemma aligned_below:
  fixes a :: "64 word"
  assumes "take_bit 4 a = 0"
  shows "take_bit 4 (a - 16) = 0"
proof -
  have "uint (take_bit 4 a) = 0" using assms by simp
  then have "uint a mod 2 ^ 4 = 0" by (simp only: unsigned_take_bit_eq) (simp only: take_bit_eq_mod)
  moreover have "uint (a - 16) = (uint a - 16) mod 2 ^ 64" by (simp add: uint_word_ariths)
  ultimately have "uint (a - 16) mod 2 ^ 4 = 0"
    by (simp add: mod_mod_cancel) presburger?
  then have "uint (take_bit 4 (a - 16)) = uint (0 :: 64 word)"
    by (simp only: unsigned_take_bit_eq) (simp add: take_bit_eq_mod)
  then show ?thesis by (simp only: word_uint_eq_iff)
qed

text \<open>
  C32: On x86-64 the first switch to a uthread that \<^verbatim>\<open>_uthread_init\<close> has prepared starts
  \<^verbatim>\<open>_uthread_exec\<close> with the uthread in the register of the first argument, with a null return address
  on the stack and with the stack aligned as the calling convention requires.
\<close>

theorem fresh_start64:
  assumes "cells s = init_ctx 8 ut stk ut entry m" "regs s DI = ut" "take_bit 4 stk = 0"
    and "{stk - 32, stk - 24} \<inter> ctx64 ut = {}"
    and "ctx64 (regs s SI) \<inter> ({stk - 24} \<union> ctx64 ut) = {}" "regs s SP \<notin> ctx64 (regs s SI)"
  shows "ip (run_code 8 switch_x86_64 s) = entry \<and> regs (run_code 8 switch_x86_64 s) DI = ut \<and>
    cells (run_code 8 switch_x86_64 s) (regs (run_code 8 switch_x86_64 s) SP) = 0 \<and>
    take_bit 4 (regs (run_code 8 switch_x86_64 s) SP + 8) = 0"
proof -
  have "ut \<notin> ctx64 (regs s SI)" "ut + 16 \<notin> ctx64 (regs s SI)" "stk - 24 \<notin> ctx64 (regs s SI)"
    using assms(5) by (auto simp: ctx64_def)
  then have m: "saves64 s ut = cells s ut" "saves64 s (ut + 16) = cells s (ut + 16)"
    "saves64 s (stk - 24) = cells s (stk - 24)"
    by (auto intro!: saves64_other)
  have c: "cells s ut = stk - 32" "cells s (ut + 16) = entry" "cells s (stk - 24) = 0"
    using assms(4) by (auto simp: assms(1) init_ctx_def ctx64_def)
  have al: "take_bit 4 (stk - 16) = 0"
    using assms(3) by (rule aligned_below)
  have sp: "stk - 32 + 8 = stk - 24" "stk - 24 + 8 = stk - 16" "stk - 24 \<noteq> stk - 32" by simp_all
  show ?thesis
    using m c al sp assms(2) by (simp add: switch64_effect [OF assms(6)] Let_def)
qed

theorem fresh_start64_witness:
  "ip (run_code 8 switch_x86_64 (demo_cpu 1000 4096 8192 (init_ctx 8 4096 65536 4096 777 (\<lambda>_. 5)))) = 777 \<and>
   regs (run_code 8 switch_x86_64 (demo_cpu 1000 4096 8192 (init_ctx 8 4096 65536 4096 777 (\<lambda>_. 5)))) DI = 4096"
  using fresh_start64 [of "demo_cpu 1000 4096 8192 (init_ctx 8 4096 65536 4096 777 (\<lambda>_. 5))" 4096 65536 777 "\<lambda>_. 5"]
  by (simp add: demo_cpu_def ctx64_def take_bit_eq_mod)

text \<open>
  On i386 the first switch starts \<^verbatim>\<open>_uthread_exec\<close> with a null return address on top of the stack
  and the uthread above it, where the function looks for its argument.
\<close>

theorem fresh_start32:
  assumes "cells s = init_ctx 4 ut stk ut entry m" "cells s (regs s SP + 4) = ut"
    and "{stk - 16, stk - 12, stk - 8} \<inter> ctx32 ut = {}"
    and "ctx32 (cells s (regs s SP + 8)) \<inter> ({stk - 12, stk - 8, regs s SP, regs s SP + 4} \<union> ctx32 ut) = {}"
  shows "ip (run_code 4 switch_i386 s) = entry \<and>
    cells (run_code 4 switch_i386 s) (regs (run_code 4 switch_i386 s) SP) = 0 \<and>
    cells (run_code 4 switch_i386 s) (regs (run_code 4 switch_i386 s) SP + 4) = ut"
proof -
  let ?c = "ctx32 (cells s (regs s SP + 8))"
  have out: "ut \<notin> ?c" "ut + 8 \<notin> ?c" "stk - 12 \<notin> ?c" "stk - 8 \<notin> ?c" "regs s SP \<notin> ?c" "regs s SP + 4 \<notin> ?c"
    using assms(4) by (auto simp: ctx32_def [of ut])
  have m: "saves32 s ut = cells s ut" "saves32 s (ut + 8) = cells s (ut + 8)"
    "saves32 s (stk - 12) = cells s (stk - 12)" "saves32 s (stk - 8) = cells s (stk - 8)"
    "saves32 s (regs s SP + 4) = cells s (regs s SP + 4)"
    using out by (auto intro!: saves32_other)
  have c: "cells s ut = stk - 16" "cells s (ut + 8) = entry" "cells s (stk - 12) = 0" "cells s (stk - 8) = ut"
    using assms(3) by (auto simp: assms(1) init_ctx_def ctx32_def)
  have sp: "stk - 16 + 4 = stk - 12" "stk - 12 + 4 = stk - 8" "stk - 12 \<noteq> stk - 16" "stk - 8 \<noteq> stk - 16"
    by simp_all
  show ?thesis
    using m c sp assms(2) by (simp add: switch32_effect [OF out(5)] Let_def)
qed

theorem fresh_start32_witness:
  "ip (run_code 4 switch_i386 (demo_cpu32 1000 4096 8192 (init_ctx 4 4096 65536 4096 777 (\<lambda>_. 5)))) = 777"
proof -
  let ?m = "(\<lambda>_. 5)(1004 := 4096, 1008 := (8192 :: 32 word))"
  let ?s = "demo_cpu32 1000 4096 8192 (init_ctx 4 4096 65536 4096 777 (\<lambda>_. 5))"
  have "(init_ctx 4 4096 65536 4096 777 (\<lambda>_. 5))(1004 := 4096, 1008 := 8192) =
    init_ctx 4 4096 65536 4096 777 ?m"
    by (auto simp: init_ctx_def fun_eq_iff)
  then have c: "cells ?s = init_ctx 4 4096 65536 4096 777 ?m" and sp: "regs ?s SP = 1000"
    by (simp_all add: demo_cpu32_def)
  have "cells ?s 1004 = 4096" "cells ?s 1008 = 8192" by (simp_all add: demo_cpu32_def)
  with sp have
    "ip (run_code 4 switch_i386 ?s) = 777 \<and>
      cells (run_code 4 switch_i386 ?s) (regs (run_code 4 switch_i386 ?s) SP) = 0 \<and>
      cells (run_code 4 switch_i386 ?s) (regs (run_code 4 switch_i386 ?s) SP + 4) = 4096"
    by (intro fresh_start32 [OF c]) (simp_all add: ctx32_def)
  then show ?thesis by (rule conjunct1)
qed

end
