(* ===== verification/Ut_Index.thy ===== *)
theory Ut_Index
  imports Ut_Prelude
begin

text \<open>
  What the two kinds of search trees of \<^verbatim>\<open>tree.h\<close> have in common: the comparison function that the
  macros take, the sequence of nodes in key order that a tree stands for, and the contract
  \<open>ordered_index\<close> of an intrusive index.  The contract is interpreted on the red-black tree in
  \<open>Ut_RB\<close> and on the splay tree in \<open>Ut_Splay\<close>.
\<close>

subsection \<open>Memories that agree outside a set\<close>

text \<open>Two memories that agree outside a set of addresses and have the same allocations.\<close>

definition same_outside :: "ptr set \<Rightarrow> (ptr \<rightharpoonup> 'e) \<Rightarrow> (ptr \<rightharpoonup> 'e) \<Rightarrow> bool" where
  "same_outside A m m' \<longleftrightarrow> (\<forall>x. x \<notin> A \<longrightarrow> m' x = m x) \<and> dom m' = dom m"

lemma same_outside_refl [simp, intro]: "same_outside A m m"
  by (simp add: same_outside_def)

lemma same_outside_trans:
  "same_outside A m m' \<Longrightarrow> same_outside A m' m'' \<Longrightarrow> same_outside A m m''"
  by (simp add: same_outside_def)

lemma same_outsideD: "same_outside A m m' \<Longrightarrow> x \<notin> A \<Longrightarrow> m' x = m x"
  by (simp add: same_outside_def)

lemma same_outside_mono: "same_outside A m m' \<Longrightarrow> A \<subseteq> B \<Longrightarrow> same_outside B m m'"
  by (auto simp: same_outside_def)

subsection \<open>Comparison and order\<close>

text \<open>
  \<open>cmp_by cmp key elm k A\<close>: on the nodes \<open>A\<close>, \<open>cmp elm\<close> compares the key \<open>k\<close> of \<open>elm\<close> with
  the key of the node, by the sign of its result.
\<close>

definition cmp_by ::
  "('e \<Rightarrow> ptr \<Rightarrow> int option) \<Rightarrow> (ptr \<Rightarrow> 'k::linorder) \<Rightarrow> 'e \<Rightarrow> 'k \<Rightarrow> ptr set \<Rightarrow> bool" where
  "cmp_by cmp key elm k A \<longleftrightarrow>
     (\<forall>a \<in> A. \<exists>v. cmp elm a = Some v \<and> (v < 0 \<longleftrightarrow> k < key a) \<and> (0 < v \<longleftrightarrow> key a < k))"

abbreviation sorted_by :: "(ptr \<Rightarrow> 'k::linorder) \<Rightarrow> ptr list \<Rightarrow> bool" where
  "sorted_by key xs \<equiv> sorted_wrt (\<lambda>a b. key a < key b) xs"

lemma cmp_by_subset: "cmp_by cmp key elm k B \<Longrightarrow> A \<subseteq> B \<Longrightarrow> cmp_by cmp key elm k A"
  by (auto simp: cmp_by_def)

lemma sorted_by_distinct: "sorted_by key xs \<Longrightarrow> distinct xs"
  by (induction xs) auto

lemma sorted_by_inj: "sorted_by key xs \<Longrightarrow> a \<in> set xs \<Longrightarrow> b \<in> set xs \<Longrightarrow> key a = key b \<Longrightarrow> a = b"
proof (induction xs)
  case (Cons x xs)
  then show ?case by (metis less_irrefl set_ConsD sorted_wrt.simps(2))
qed simp

lemma sorted_by_insort:
  "sorted_by key xs \<Longrightarrow> \<forall>x \<in> set xs. key x \<noteq> key a \<Longrightarrow> sorted_by key (insort_key key a xs)"
proof (induction xs)
  case (Cons x xs)
  then show ?case by (auto simp: set_insort_key not_le)
qed simp

lemma sorted_by_remove1: "sorted_by key xs \<Longrightarrow> sorted_by key (remove1 a xs)"
  using sorted_by_distinct [of key xs]
  by (simp add: distinct_remove1_removeAll sorted_wrt_filter removeAll_filter_not_eq)

text \<open>The first and the last address of a sequence, or \<^verbatim>\<open>NULL\<close>.\<close>

definition first_of :: "ptr list \<Rightarrow> ptr" where
  "first_of xs = (case xs of [] \<Rightarrow> NULL | x # _ \<Rightarrow> x)"

definition last_of :: "ptr list \<Rightarrow> ptr" where
  "last_of xs = (if xs = [] then NULL else last xs)"

lemma first_of_simps [simp]: "first_of [] = NULL" "first_of (x # xs) = x"
  by (simp_all add: first_of_def)

lemma last_of_simps [simp]: "last_of [] = NULL" "last_of [x] = x" "last_of (xs @ [x]) = x"
  by (simp_all add: last_of_def)

lemma first_of_append: "first_of (xs @ ys) = (if xs = [] then first_of ys else first_of xs)"
  by (cases xs) auto

lemma last_of_append: "last_of (xs @ ys) = (if ys = [] then last_of xs else last_of ys)"
  by (simp add: last_of_def)

lemma sorted_by_the_key:
  assumes "sorted_by key xs" "b \<in> set xs"
  shows "first_of (filter (\<lambda>x. key x = key b) xs) = b"
proof -
  have "filter (\<lambda>x. key x = key b) xs \<noteq> []" using assms(2) by (auto simp: filter_empty_conv)
  then obtain c cs where c: "filter (\<lambda>x. key x = key b) xs = c # cs" by (cases "filter (\<lambda>x. key x = key b) xs") auto
  then have "c \<in> set (filter (\<lambda>x. key x = key b) xs)" by simp
  then have "c = b" using sorted_by_inj [OF assms(1)] assms(2) by auto
  with c show ?thesis by simp
qed

subsection \<open>The specification of an index\<close>

text \<open>
  The operations of a client, and what they do to the sequence of nodes.  Taking out a node that
  is not in the index is outside the contract.
\<close>

datatype index_op = Ins ptr | Del ptr | Find ptr | Least

fun spec_op :: "(ptr \<Rightarrow> 'k::linorder) \<Rightarrow> index_op \<Rightarrow> ptr list \<Rightarrow> (ptr \<times> ptr list) option" where
  "spec_op key (Ins a) xs =
     (let b = first_of (filter (\<lambda>x. key x = key a) xs)
      in Some (b, if b = NULL then insort_key key a xs else xs))"
| "spec_op key (Del a) xs = (if a \<in> set xs then Some (a, remove1 a xs) else None)"
| "spec_op key (Find a) xs = Some (first_of (filter (\<lambda>x. key x = key a) xs), xs)"
| "spec_op key Least xs = Some (first_of xs, xs)"

text \<open>Running a sequence of operations, with the results in order.\<close>

fun run_ops :: "(index_op \<Rightarrow> 's \<Rightarrow> (ptr \<times> 's) option) \<Rightarrow> index_op list \<Rightarrow> 's \<Rightarrow> (ptr list \<times> 's) option" where
  "run_ops f [] s = Some ([], s)"
| "run_ops f (x # xs) s = do { (r, s) \<leftarrow> f x s; (rs, s) \<leftarrow> run_ops f xs s; Some (r # rs, s) }"

text \<open>An operation of a client as a call of the operations of an implementation.\<close>

fun apply_op ::
  "(ptr \<Rightarrow> 's \<Rightarrow> (ptr \<times> 's) option) \<Rightarrow> (ptr \<Rightarrow> 's \<Rightarrow> (ptr \<times> 's) option) \<Rightarrow>
   (ptr \<Rightarrow> 's \<Rightarrow> (ptr \<times> 's) option) \<Rightarrow> ('s \<Rightarrow> (ptr \<times> 's) option) \<Rightarrow>
   index_op \<Rightarrow> 's \<Rightarrow> (ptr \<times> 's) option" where
  "apply_op ins del look least (Ins a) h = ins a h"
| "apply_op ins del look least (Del a) h = del a h"
| "apply_op ins del look least (Find a) h = look a h"
| "apply_op ins del look least Least h = least h"

fun op_args :: "index_op \<Rightarrow> ptr set" where
  "op_args (Ins a) = {a}"
| "op_args (Del a) = {a}"
| "op_args (Find a) = {a}"
| "op_args Least = {}"

text \<open>Inserting several addresses one after the other, and taking the least out again.\<close>

fun insert_all :: "(ptr \<Rightarrow> 'h \<Rightarrow> (ptr \<times> 'h) option) \<Rightarrow> ptr list \<Rightarrow> 'h \<Rightarrow> 'h option" where
  "insert_all ins [] h = Some h"
| "insert_all ins (a # xs) h = do { (_, h) \<leftarrow> ins a h; insert_all ins xs h }"

fun pop_least ::
  "('h \<Rightarrow> (ptr \<times> 'h) option) \<Rightarrow> (ptr \<Rightarrow> 'h \<Rightarrow> (ptr \<times> 'h) option) \<Rightarrow> nat \<Rightarrow> 'h \<Rightarrow> (ptr list \<times> 'h) option" where
  "pop_least least del 0 h = Some ([], h)"
| "pop_least least del (Suc n) h = do {
     (a, h) \<leftarrow> least h;
     if a = NULL then Some ([], h)
     else do {
       (_, h) \<leftarrow> del a h;
       (xs, h) \<leftarrow> pop_least least del n h;
       Some (a # xs, h) } }"

subsection \<open>The contract\<close>

text \<open>
  \<open>rep key m root xs\<close>: the memory and the root pointer hold the addresses \<open>xs\<close> in key order.  Every
  operation may reorganise the tree, searching included.  An index leaves alone what other indices in
  the same memory hold.
\<close>

locale ordered_index =
  fixes rep :: "(ptr \<Rightarrow> 'k::linorder) \<Rightarrow> 'm \<Rightarrow> ptr \<Rightarrow> ptr list \<Rightarrow> bool"
    and writable :: "'m \<Rightarrow> ptr \<Rightarrow> bool"
    and ins :: "(ptr \<Rightarrow> ptr \<Rightarrow> int option) \<Rightarrow> ptr \<Rightarrow> 'm \<times> ptr \<Rightarrow> (ptr \<times> 'm \<times> ptr) option"
    and del :: "(ptr \<Rightarrow> ptr \<Rightarrow> int option) \<Rightarrow> ptr \<Rightarrow> 'm \<times> ptr \<Rightarrow> (ptr \<times> 'm \<times> ptr) option"
    and look :: "(ptr \<Rightarrow> ptr \<Rightarrow> int option) \<Rightarrow> ptr \<Rightarrow> 'm \<times> ptr \<Rightarrow> (ptr \<times> 'm \<times> ptr) option"
    and least :: "'m \<times> ptr \<Rightarrow> (ptr \<times> 'm \<times> ptr) option"
  assumes rep_sorted: "rep key m root xs \<Longrightarrow> sorted_by key xs"
    and rep_NULL: "rep key m root xs \<Longrightarrow> NULL \<notin> set xs"
    and ins_law: "rep key m root xs \<Longrightarrow> writable m a \<Longrightarrow> cmp_by cmp key a (key a) (set xs) \<Longrightarrow>
      \<forall>x \<in> set xs. key x \<noteq> key a \<Longrightarrow>
      \<exists>m' root'. ins cmp a (m, root) = Some (NULL, m', root') \<and>
        rep key m' root' (insort_key key a xs) \<and> writable m' = writable m \<and>
        (\<forall>key' q ys. rep key' m q ys \<longrightarrow> set ys \<inter> insert a (set xs) = {} \<longrightarrow> rep key' m' q ys)"
    and ins_dup_law: "rep key m root xs \<Longrightarrow> cmp_by cmp key a (key a) (set xs) \<Longrightarrow>
      b \<in> set xs \<Longrightarrow> key b = key a \<Longrightarrow>
      \<exists>m' root'. ins cmp a (m, root) = Some (b, m', root') \<and>
        rep key m' root' xs \<and> writable m' = writable m \<and>
        (\<forall>key' q ys. rep key' m q ys \<longrightarrow> set ys \<inter> set xs = {} \<longrightarrow> rep key' m' q ys)"
    and del_law: "rep key m root xs \<Longrightarrow> a \<in> set xs \<Longrightarrow> cmp_by cmp key a (key a) (set xs) \<Longrightarrow>
      \<exists>m' root'. del cmp a (m, root) = Some (a, m', root') \<and>
        rep key m' root' (remove1 a xs) \<and> writable m' = writable m \<and>
        (\<forall>key' q ys. rep key' m q ys \<longrightarrow> set ys \<inter> set xs = {} \<longrightarrow> rep key' m' q ys)"
    and look_law: "rep key m root xs \<Longrightarrow> cmp_by cmp key a k (set xs) \<Longrightarrow>
      \<exists>m' root'. look cmp a (m, root) = Some (first_of (filter (\<lambda>x. key x = k) xs), m', root') \<and>
        rep key m' root' xs \<and> writable m' = writable m \<and>
        (\<forall>key' q ys. rep key' m q ys \<longrightarrow> set ys \<inter> set xs = {} \<longrightarrow> rep key' m' q ys)"
    and least_law: "rep key m root xs \<Longrightarrow>
      \<exists>m' root'. least (m, root) = Some (first_of xs, m', root') \<and>
        rep key m' root' xs \<and> writable m' = writable m \<and>
        (\<forall>key' q ys. rep key' m q ys \<longrightarrow> set ys \<inter> set xs = {} \<longrightarrow> rep key' m' q ys)"
begin

text \<open>One operation does to the represented sequence what the specification says.\<close>

lemma op_refines:
  assumes "rep key m root xs" "\<forall>a \<in> U. writable m a" "\<forall>a \<in> U. cmp_by cmp key a (key a) U"
    and "set xs \<subseteq> U" "op_args x \<subseteq> U" "spec_op key x xs = Some (r, ys)"
  shows "\<exists>m' root'. apply_op (ins cmp) (del cmp) (look cmp) least x (m, root) = Some (r, m', root') \<and>
    rep key m' root' ys \<and> writable m' = writable m \<and> set ys \<subseteq> U"
proof -
  have cmp: "cmp_by cmp key a (key a) (set xs)" if "a \<in> U" for a
    by (rule cmp_by_subset [OF bspec [OF assms(3) that] assms(4)])
  show ?thesis
  proof (cases x)
    case (Ins a)
    have a: "a \<in> U" using assms(5) Ins by simp
    show ?thesis
    proof (cases "\<exists>b \<in> set xs. key b = key a")
      case True
      then obtain b where b: "b \<in> set xs" "key b = key a" by auto
      then have "first_of (filter (\<lambda>x. key x = key a) xs) = b"
        using sorted_by_the_key [OF rep_sorted [OF assms(1)] b(1)] by simp
      moreover have "b \<noteq> NULL" using rep_NULL [OF assms(1)] b(1) by metis
      ultimately have "r = b" "ys = xs" using assms(6) Ins by (auto simp: Let_def)
      with ins_dup_law [OF assms(1) cmp [OF a] b] Ins assms(4) show ?thesis by auto
    next
      case False
      then have "r = NULL" "ys = insort_key key a xs"
        using assms(6) Ins by (auto simp: Let_def filter_empty_conv)
      moreover obtain m' root' where "ins cmp a (m, root) = Some (NULL, m', root')"
        "rep key m' root' (insort_key key a xs)" "writable m' = writable m"
        using ins_law [OF assms(1) _ cmp [OF a]] False a assms(2) by blast
      moreover have "set (insort_key key a xs) \<subseteq> U" using a assms(4) by (simp add: set_insort_key)
      ultimately show ?thesis using Ins by simp
    qed
  next
    case (Del a)
    then have a: "a \<in> set xs" "r = a" "ys = remove1 a xs"
      using assms(6) by (auto split: if_splits)
    moreover obtain m' root' where "del cmp a (m, root) = Some (a, m', root')"
      "rep key m' root' (remove1 a xs)" "writable m' = writable m"
      using del_law [OF assms(1) a(1) cmp] assms(4) a(1) by blast
    moreover have "set (remove1 a xs) \<subseteq> U" using set_remove1_subset [of a xs] assms(4) by blast
    ultimately show ?thesis using Del by simp
  next
    case (Find a)
    then have "a \<in> U" "r = first_of (filter (\<lambda>x. key x = key a) xs)" "ys = xs"
      using assms(5,6) by auto
    with look_law [OF assms(1) cmp [of a]] Find assms(4) show ?thesis by auto
  next
    case Least
    then have "r = first_of xs" "ys = xs" using assms(6) by auto
    with least_law [OF assms(1)] Least assms(4) show ?thesis by auto
  qed
qed

lemma run_refines:
  assumes "rep key m root xs" "\<forall>a \<in> U. writable m a" "\<forall>a \<in> U. cmp_by cmp key a (key a) U"
    and "set xs \<subseteq> U" "\<forall>x \<in> set ops. op_args x \<subseteq> U" "run_ops (spec_op key) ops xs = Some (rs, ys)"
  shows "\<exists>m' root'.
    run_ops (apply_op (ins cmp) (del cmp) (look cmp) least) ops (m, root) = Some (rs, m', root') \<and>
    rep key m' root' ys"
  using assms
proof (induction ops arbitrary: m root xs rs)
  case (Cons x ops)
  obtain r zs rs' where spec: "spec_op key x xs = Some (r, zs)"
    "run_ops (spec_op key) ops zs = Some (rs', ys)" "rs = r # rs'"
    using Cons.prems(6) by (auto split: bind_splits)
  have "op_args x \<subseteq> U" using Cons.prems(5) by simp
  from op_refines [OF Cons.prems(1-4) this spec(1)] obtain m1 root1 where m1:
    "apply_op (ins cmp) (del cmp) (look cmp) least x (m, root) = Some (r, m1, root1)"
    "rep key m1 root1 zs" "writable m1 = writable m" "set zs \<subseteq> U"
    by blast
  from Cons.IH [OF m1(2) _ Cons.prems(3) m1(4) _ spec(2)] Cons.prems(2,5) m1(3) obtain m' root'
    where "run_ops (apply_op (ins cmp) (del cmp) (look cmp) least) ops (m1, root1) = Some (rs', m', root')"
      "rep key m' root' ys"
    by auto
  with m1(1) spec(3) show ?case by simp
qed auto

lemma insert_all_sorts:
  assumes "rep key m root ys" "\<forall>x \<in> set xs. writable m x"
    and "\<And>a. a \<in> set xs \<Longrightarrow> cmp_by cmp key a (key a) (set xs \<union> set ys)"
    and "distinct (map key xs)" "key ` set xs \<inter> key ` set ys = {}"
  shows "\<exists>m' root'. insert_all (ins cmp) xs (m, root) = Some (m', root') \<and>
    rep key m' root' (foldl (\<lambda>zs a. insort_key key a zs) ys xs)"
  using assms
proof (induction xs arbitrary: m root ys)
  case (Cons a xs)
  have "key a \<notin> key ` set ys" using Cons.prems(5) by auto
  then have "\<forall>x \<in> set ys. key x \<noteq> key a" by (metis imageI)
  moreover have "cmp_by cmp key a (key a) (set ys)"
    using Cons.prems(3) [of a] by (auto simp: cmp_by_def)
  ultimately obtain m1 root1 where m1: "ins cmp a (m, root) = Some (NULL, m1, root1)"
    "rep key m1 root1 (insort_key key a ys)" "writable m1 = writable m"
    using ins_law [of key m root ys a cmp] Cons.prems(1,2) by auto
  have "\<exists>m' root'. insert_all (ins cmp) xs (m1, root1) = Some (m', root') \<and>
      rep key m' root' (foldl (\<lambda>zs a. insort_key key a zs) (insort_key key a ys) xs)"
  proof (rule Cons.IH)
    show "cmp_by cmp key b (key b) (set xs \<union> set (insort_key key a ys))" if "b \<in> set xs" for b
      using Cons.prems(3) [of b] that by (auto simp: cmp_by_def set_insort_key)
    show "key ` set xs \<inter> key ` set (insort_key key a ys) = {}"
      using Cons.prems(4,5) by (auto simp: set_insort_key)
  qed (use m1 Cons.prems in auto)
  with m1(1) show ?case by simp
qed auto

lemma pop_least_takes:
  assumes "rep key m root xs" "\<forall>a \<in> set xs. cmp_by cmp key a (key a) (set xs)"
  shows "\<exists>m' root'. pop_least least (del cmp) n (m, root) = Some (take n xs, m', root') \<and>
    rep key m' root' (drop n xs)"
  using assms
proof (induction n arbitrary: m root xs)
  case (Suc n)
  obtain m0 root0 where m0: "least (m, root) = Some (first_of xs, m0, root0)" "rep key m0 root0 xs"
    using least_law [OF Suc.prems(1)] by auto
  show ?case
  proof (cases xs)
    case Nil
    with m0 show ?thesis by auto
  next
    case (Cons a ys)
    have "a \<noteq> NULL" using rep_NULL [OF Suc.prems(1)] Cons by auto
    moreover obtain m1 root1 where m1: "del cmp a (m0, root0) = Some (a, m1, root1)" "rep key m1 root1 ys"
      using del_law [OF m0(2), of a cmp] Suc.prems(2) Cons by auto
    moreover have "\<forall>a \<in> set ys. cmp_by cmp key a (key a) (set ys)"
      using Suc.prems(2) Cons by (auto simp: cmp_by_def)
    ultimately show ?thesis
      using Suc.IH [OF m1(2)] m0 Cons by fastforce
  qed
qed auto

lemma foldl_insort: "foldl (\<lambda>zs a. insort_key key a zs) [] xs = sort_key key (rev xs)"
  for xs :: "ptr list"
  by (simp add: sort_key_def foldr_conv_foldl)

lemma index_sorts:
  assumes "rep key m root []" "\<forall>x \<in> set xs. writable m x"
    and "\<forall>a \<in> set xs. cmp_by cmp key a (key a) (set xs)" "distinct (map key xs)"
  shows "\<exists>h h'. insert_all (ins cmp) xs (m, root) = Some h \<and>
    pop_least least (del cmp) (length xs) h = Some (sort_key key xs, h')"
proof -
  obtain m1 root1 where m1: "insert_all (ins cmp) xs (m, root) = Some (m1, root1)"
    "rep key m1 root1 (sort_key key (rev xs))"
    using insert_all_sorts [of key m root "[]" xs cmp] assms foldl_insort [of key xs] by auto
  have "sort_key key (rev xs) = sort_key key xs"
    by (rule sort_key_inj_key_eq) (use assms(4) in \<open>auto simp: distinct_map\<close>)
  with pop_least_takes [OF m1(2), of cmp "length xs"] assms(3) m1(1) show ?thesis by auto
qed

end

end
