(* ===== verification/Ut_RB_Mem.thy ===== *)
theory Ut_RB_Mem
  imports Ut_Index
begin

text \<open>
  The intrusive red-black tree of \<^verbatim>\<open>tree.h\<close> as the program instantiates it
  (\<^verbatim>\<open>RB_GENERATE(uthread_rb_sleep, ...)\<close> and \<^verbatim>\<open>RB_GENERATE(uthread_rb_wait, ...)\<close>), at the
  level of its pointers.

  One \<^verbatim>\<open>RB_ENTRY\<close> field of the structures is a map from the address of a structure to
  its entry (left, right, parent, colour), and a tree is the map together with the root
  pointer of its head.  Several heads can share one map: every \<^verbatim>\<open>struct p\<close> has its own
  root, all uthreads have one \<^verbatim>\<open>sleep_node\<close> field.  The comparison function is an
  argument, as it is an argument of the macro.

  An operation returns \<open>None\<close> when the code would follow a null or dangling pointer, and
  also when one of its loops does not end.  That an operation returns \<open>Some\<close> therefore
  states memory safety and termination together.
\<close>

subsection \<open>Entries, heads, field access\<close>

datatype rb_color = RB_BLACK | RB_RED

record rb_entry =
  rbe_left :: ptr
  rbe_right :: ptr
  rbe_parent :: ptr
  rbe_color :: rb_color

type_synonym rb_mem = "ptr \<rightharpoonup> rb_entry"

text \<open>A tree: the entries, and the \<^verbatim>\<open>rbh_root\<close> of the head.\<close>

type_synonym rb_head = "rb_mem \<times> ptr"

definition entry :: "rb_mem \<Rightarrow> ptr \<Rightarrow> rb_entry option" where
  "entry m a = (if a = NULL then None else m a)"

definition RB_LEFT :: "rb_mem \<Rightarrow> ptr \<Rightarrow> ptr option" where
  "RB_LEFT m a = map_option rbe_left (entry m a)"

definition RB_RIGHT :: "rb_mem \<Rightarrow> ptr \<Rightarrow> ptr option" where
  "RB_RIGHT m a = map_option rbe_right (entry m a)"

definition RB_PARENT :: "rb_mem \<Rightarrow> ptr \<Rightarrow> ptr option" where
  "RB_PARENT m a = map_option rbe_parent (entry m a)"

definition RB_COLOR :: "rb_mem \<Rightarrow> ptr \<Rightarrow> rb_color option" where
  "RB_COLOR m a = map_option rbe_color (entry m a)"

definition upd_entry :: "ptr \<Rightarrow> (rb_entry \<Rightarrow> rb_entry) \<Rightarrow> rb_mem \<Rightarrow> rb_mem option" where
  "upd_entry a f m = map_option (\<lambda>e. m(a \<mapsto> f e)) (entry m a)"

definition set_left :: "ptr \<Rightarrow> ptr \<Rightarrow> rb_mem \<Rightarrow> rb_mem option" where
  "set_left a v = upd_entry a (\<lambda>e. e\<lparr>rbe_left := v\<rparr>)"

definition set_right :: "ptr \<Rightarrow> ptr \<Rightarrow> rb_mem \<Rightarrow> rb_mem option" where
  "set_right a v = upd_entry a (\<lambda>e. e\<lparr>rbe_right := v\<rparr>)"

definition set_parent :: "ptr \<Rightarrow> ptr \<Rightarrow> rb_mem \<Rightarrow> rb_mem option" where
  "set_parent a v = upd_entry a (\<lambda>e. e\<lparr>rbe_parent := v\<rparr>)"

definition set_color :: "ptr \<Rightarrow> rb_color \<Rightarrow> rb_mem \<Rightarrow> rb_mem option" where
  "set_color a c = upd_entry a (\<lambda>e. e\<lparr>rbe_color := c\<rparr>)"

definition RB_INIT :: ptr where
  "RB_INIT = NULL"

definition RB_EMPTY :: "ptr \<Rightarrow> bool" where
  "RB_EMPTY root = (root = NULL)"

definition RB_SET :: "ptr \<Rightarrow> ptr \<Rightarrow> rb_mem \<Rightarrow> rb_mem option" where
  "RB_SET elm parent = upd_entry elm (\<lambda>e.
     e\<lparr>rbe_parent := parent, rbe_left := NULL, rbe_right := NULL, rbe_color := RB_RED\<rparr>)"

definition RB_SET_BLACKRED :: "ptr \<Rightarrow> ptr \<Rightarrow> rb_mem \<Rightarrow> rb_mem option" where
  "RB_SET_BLACKRED black red m = do {
     m \<leftarrow> set_color black RB_BLACK m;
     set_color red RB_RED m }"

text \<open>\<open>p == NULL || RB_COLOR(p) == RB_BLACK\<close> and \<open>p && RB_COLOR(p) == RB_RED\<close>, short-circuited.\<close>

definition is_black :: "rb_mem \<Rightarrow> ptr \<Rightarrow> bool option" where
  "is_black m a = (if a = NULL then Some True else map_option (\<lambda>c. c = RB_BLACK) (RB_COLOR m a))"

definition is_red :: "rb_mem \<Rightarrow> ptr \<Rightarrow> bool option" where
  "is_red m a = (if a = NULL then Some False else map_option (\<lambda>c. c = RB_RED) (RB_COLOR m a))"

subsection \<open>Rotations\<close>

text \<open>
  Putting \<open>new\<close> in the place of \<open>old\<close> below \<open>parent\<close>, or at the root: the idiom
  \<^verbatim>\<open>if (parent) { if (RB_LEFT(parent) == old) ... else ... } else root = new\<close>.
\<close>

definition replace_child :: "ptr \<Rightarrow> ptr \<Rightarrow> ptr \<Rightarrow> rb_head \<Rightarrow> rb_head option" where
  "replace_child parent old new h = (case h of (m, root) \<Rightarrow>
     if parent \<noteq> NULL then do {
       pl \<leftarrow> RB_LEFT m parent;
       m \<leftarrow> (if pl = old then set_left parent new m else set_right parent new m);
       Some (m, root) }
     else Some (m, new))"

text \<open>
  \<^verbatim>\<open>RB_AUGMENT\<close> expands to nothing in this program.  The macro also leaves the pointer it
  rotates up in its third argument; no caller reads it afterwards.
\<close>

definition RB_ROTATE_LEFT :: "ptr \<Rightarrow> rb_head \<Rightarrow> rb_head option" where
  "RB_ROTATE_LEFT elm h = (case h of (m, root) \<Rightarrow> do {
     tmp \<leftarrow> RB_RIGHT m elm;
     tl \<leftarrow> RB_LEFT m tmp;
     m \<leftarrow> set_right elm tl m;
     m \<leftarrow> (if tl \<noteq> NULL then do { tl \<leftarrow> RB_LEFT m tmp; set_parent tl elm m } else Some m);
     ep \<leftarrow> RB_PARENT m elm;
     m \<leftarrow> set_parent tmp ep m;
     (m, root) \<leftarrow> replace_child ep elm tmp (m, root);
     m \<leftarrow> set_left tmp elm m;
     m \<leftarrow> set_parent elm tmp m;
     Some (m, root) })"

definition RB_ROTATE_RIGHT :: "ptr \<Rightarrow> rb_head \<Rightarrow> rb_head option" where
  "RB_ROTATE_RIGHT elm h = (case h of (m, root) \<Rightarrow> do {
     tmp \<leftarrow> RB_LEFT m elm;
     tr \<leftarrow> RB_RIGHT m tmp;
     m \<leftarrow> set_left elm tr m;
     m \<leftarrow> (if tr \<noteq> NULL then do { tr \<leftarrow> RB_RIGHT m tmp; set_parent tr elm m } else Some m);
     ep \<leftarrow> RB_PARENT m elm;
     m \<leftarrow> set_parent tmp ep m;
     (m, root) \<leftarrow> replace_child ep elm tmp (m, root);
     m \<leftarrow> set_right tmp elm m;
     m \<leftarrow> set_parent elm tmp m;
     Some (m, root) })"

subsection \<open>Insertion\<close>

text \<open>
  One turn of the loop of \<^verbatim>\<open>RB_INSERT_COLOR\<close>: \<open>Inr\<close> of the tree when the condition of the
  loop fails, otherwise \<open>Inl\<close> of the node and the tree of the next turn.
\<close>

definition RB_INSERT_COLOR_turn :: "ptr \<Rightarrow> rb_head \<Rightarrow> (ptr \<times> rb_head + rb_head) option" where
  "RB_INSERT_COLOR_turn elm h = (case h of (m, root) \<Rightarrow> do {
     parent \<leftarrow> RB_PARENT m elm;
     red \<leftarrow> is_red m parent;
     if \<not> red then Some (Inr (m, root)) else do {
       gparent \<leftarrow> RB_PARENT m parent;
       gl \<leftarrow> RB_LEFT m gparent;
       if parent = gl then do {
         tmp \<leftarrow> RB_RIGHT m gparent;
         tred \<leftarrow> is_red m tmp;
         if tred then do {
           m \<leftarrow> set_color tmp RB_BLACK m;
           m \<leftarrow> RB_SET_BLACKRED parent gparent m;
           Some (Inl (gparent, m, root)) }
         else do {
           pr \<leftarrow> RB_RIGHT m parent;
           (parent, elm, m, root) \<leftarrow>
             (if pr = elm then do {
                (m, root) \<leftarrow> RB_ROTATE_LEFT parent (m, root);
                Some (elm, parent, m, root) }
              else Some (parent, elm, m, root));
           m \<leftarrow> RB_SET_BLACKRED parent gparent m;
           h \<leftarrow> RB_ROTATE_RIGHT gparent (m, root);
           Some (Inl (elm, h)) } }
       else do {
         tmp \<leftarrow> RB_LEFT m gparent;
         tred \<leftarrow> is_red m tmp;
         if tred then do {
           m \<leftarrow> set_color tmp RB_BLACK m;
           m \<leftarrow> RB_SET_BLACKRED parent gparent m;
           Some (Inl (gparent, m, root)) }
         else do {
           pl \<leftarrow> RB_LEFT m parent;
           (parent, elm, m, root) \<leftarrow>
             (if pl = elm then do {
                (m, root) \<leftarrow> RB_ROTATE_RIGHT parent (m, root);
                Some (elm, parent, m, root) }
              else Some (parent, elm, m, root));
           m \<leftarrow> RB_SET_BLACKRED parent gparent m;
           h \<leftarrow> RB_ROTATE_LEFT gparent (m, root);
           Some (Inl (elm, h)) } } } })"

partial_function (option) RB_INSERT_COLOR_loop :: "ptr \<Rightarrow> rb_head \<Rightarrow> rb_head option" where
  "RB_INSERT_COLOR_loop elm h =
     (case RB_INSERT_COLOR_turn elm h of
        None \<Rightarrow> None
      | Some (Inr h') \<Rightarrow> Some h'
      | Some (Inl (elm', h')) \<Rightarrow> RB_INSERT_COLOR_loop elm' h')"

definition RB_INSERT_COLOR :: "ptr \<Rightarrow> rb_head \<Rightarrow> rb_head option" where
  "RB_INSERT_COLOR elm h = do {
     (m, root) \<leftarrow> RB_INSERT_COLOR_loop elm h;
     m \<leftarrow> set_color root RB_BLACK m;
     Some (m, root) }"

text \<open>
  The descent of \<^verbatim>\<open>RB_INSERT\<close>: \<open>Inl tmp\<close> when a node with an equal key is found, otherwise
  the last node visited and the last result of the comparison.
\<close>

partial_function (option) RB_INSERT_descend ::
  "('e \<Rightarrow> ptr \<Rightarrow> int option) \<Rightarrow> 'e \<Rightarrow> rb_mem \<Rightarrow> ptr \<Rightarrow> ptr \<Rightarrow> int \<Rightarrow> (ptr + ptr \<times> int) option" where
  "RB_INSERT_descend cmp elm m tmp parent cres =
     (if tmp = NULL then Some (Inr (parent, cres))
      else do {
        cres \<leftarrow> cmp elm tmp;
        if cres < 0 then do {
          l \<leftarrow> RB_LEFT m tmp;
          RB_INSERT_descend cmp elm m l tmp cres }
        else if cres > 0 then do {
          r \<leftarrow> RB_RIGHT m tmp;
          RB_INSERT_descend cmp elm m r tmp cres }
        else Some (Inl tmp) })"

text \<open>\<^verbatim>\<open>RB_INSERT\<close> returns the node that is in the way, or \<^verbatim>\<open>NULL\<close> after inserting.\<close>

definition RB_INSERT ::
  "(ptr \<Rightarrow> ptr \<Rightarrow> int option) \<Rightarrow> ptr \<Rightarrow> rb_head \<Rightarrow> (ptr \<times> rb_head) option" where
  "RB_INSERT cmp elm h = (case h of (m, root) \<Rightarrow> do {
     d \<leftarrow> RB_INSERT_descend cmp elm m root NULL 0;
     (case d of
        Inl tmp \<Rightarrow> Some (tmp, m, root)
      | Inr (parent, cres) \<Rightarrow> do {
          m \<leftarrow> RB_SET elm parent m;
          (m, root) \<leftarrow>
            (if parent \<noteq> NULL then do {
               m \<leftarrow> (if cres < 0 then set_left parent elm m else set_right parent elm m);
               Some (m, root) }
             else Some (m, elm));
          h \<leftarrow> RB_INSERT_COLOR elm (m, root);
          Some (NULL, h) }) })"

subsection \<open>Removal\<close>

text \<open>
  The loop of \<^verbatim>\<open>RB_REMOVE_COLOR\<close> has a branch for a deficient left and one for a deficient right
  subtree of \<open>parent\<close>.  The parts of a branch, for the left one: a red sibling is rotated
  above \<open>parent\<close>, which gives a black sibling \<open>tmp\<close>.
\<close>

definition remove_red_sibling_L :: "ptr \<Rightarrow> rb_head \<Rightarrow> (ptr \<times> rb_head) option" where
  "remove_red_sibling_L parent h = (case h of (m, root) \<Rightarrow> do {
     tmp \<leftarrow> RB_RIGHT m parent;
     tc \<leftarrow> RB_COLOR m tmp;
     if tc = RB_RED then do {
       m \<leftarrow> RB_SET_BLACKRED tmp parent m;
       (m, root) \<leftarrow> RB_ROTATE_LEFT parent (m, root);
       tmp \<leftarrow> RB_RIGHT m parent;
       Some (tmp, m, root) }
     else Some (tmp, m, root) })"

definition remove_red_sibling_R :: "ptr \<Rightarrow> rb_head \<Rightarrow> (ptr \<times> rb_head) option" where
  "remove_red_sibling_R parent h = (case h of (m, root) \<Rightarrow> do {
     tmp \<leftarrow> RB_LEFT m parent;
     tc \<leftarrow> RB_COLOR m tmp;
     if tc = RB_RED then do {
       m \<leftarrow> RB_SET_BLACKRED tmp parent m;
       (m, root) \<leftarrow> RB_ROTATE_RIGHT parent (m, root);
       tmp \<leftarrow> RB_LEFT m parent;
       Some (tmp, m, root) }
     else Some (tmp, m, root) })"

text \<open>The test that both children of \<open>tmp\<close> are null or black, short-circuited.\<close>

definition remove_both_black :: "rb_mem \<Rightarrow> ptr \<Rightarrow> bool option" where
  "remove_both_black m tmp = do {
     tl \<leftarrow> RB_LEFT m tmp;
     tlb \<leftarrow> is_black m tl;
     if tlb then do { tr \<leftarrow> RB_RIGHT m tmp; is_black m tr } else Some False }"

text \<open>
  The \<^verbatim>\<open>else\<close> branch, which ends the loop: a red child of \<open>tmp\<close> on the far side is produced if
  there is none, and \<open>tmp\<close> is rotated above \<open>parent\<close>.
\<close>

definition remove_fix_L :: "ptr \<Rightarrow> ptr \<Rightarrow> rb_head \<Rightarrow> rb_head option" where
  "remove_fix_L parent tmp h = (case h of (m, root) \<Rightarrow> do {
     tr \<leftarrow> RB_RIGHT m tmp;
     trb \<leftarrow> is_black m tr;
     (tmp, m, root) \<leftarrow>
       (if trb then do {
          oleft \<leftarrow> RB_LEFT m tmp;
          m \<leftarrow> (if oleft \<noteq> NULL then set_color oleft RB_BLACK m else Some m);
          m \<leftarrow> set_color tmp RB_RED m;
          (m, root) \<leftarrow> RB_ROTATE_RIGHT tmp (m, root);
          tmp \<leftarrow> RB_RIGHT m parent;
          Some (tmp, m, root) }
        else Some (tmp, m, root));
     pc \<leftarrow> RB_COLOR m parent;
     m \<leftarrow> set_color tmp pc m;
     m \<leftarrow> set_color parent RB_BLACK m;
     r \<leftarrow> RB_RIGHT m tmp;
     m \<leftarrow> (if r \<noteq> NULL then set_color r RB_BLACK m else Some m);
     RB_ROTATE_LEFT parent (m, root) })"

definition remove_fix_R :: "ptr \<Rightarrow> ptr \<Rightarrow> rb_head \<Rightarrow> rb_head option" where
  "remove_fix_R parent tmp h = (case h of (m, root) \<Rightarrow> do {
     tl \<leftarrow> RB_LEFT m tmp;
     tlb \<leftarrow> is_black m tl;
     (tmp, m, root) \<leftarrow>
       (if tlb then do {
          oright \<leftarrow> RB_RIGHT m tmp;
          m \<leftarrow> (if oright \<noteq> NULL then set_color oright RB_BLACK m else Some m);
          m \<leftarrow> set_color tmp RB_RED m;
          (m, root) \<leftarrow> RB_ROTATE_LEFT tmp (m, root);
          tmp \<leftarrow> RB_LEFT m parent;
          Some (tmp, m, root) }
        else Some (tmp, m, root));
     pc \<leftarrow> RB_COLOR m parent;
     m \<leftarrow> set_color tmp pc m;
     m \<leftarrow> set_color parent RB_BLACK m;
     l \<leftarrow> RB_LEFT m tmp;
     m \<leftarrow> (if l \<noteq> NULL then set_color l RB_BLACK m else Some m);
     RB_ROTATE_RIGHT parent (m, root) })"

text \<open>
  One turn of the loop: \<open>Inr\<close> of the final \<open>elm\<close> when the condition of the loop fails or the
  loop is left by \<^verbatim>\<open>break\<close> (with \<open>elm\<close> the root), otherwise \<open>Inl\<close> of the next \<open>parent\<close> and \<open>elm\<close>.
\<close>

definition RB_REMOVE_COLOR_turn ::
  "ptr \<Rightarrow> ptr \<Rightarrow> rb_head \<Rightarrow> ((ptr \<times> ptr) \<times> rb_head + ptr \<times> rb_head) option" where
  "RB_REMOVE_COLOR_turn parent elm h = (case h of (m, root) \<Rightarrow> do {
     black \<leftarrow> is_black m elm;
     if \<not> (black \<and> elm \<noteq> root) then Some (Inr (elm, m, root)) else do {
       pl \<leftarrow> RB_LEFT m parent;
       if pl = elm then do {
         (tmp, m, root) \<leftarrow> remove_red_sibling_L parent (m, root);
         bb \<leftarrow> remove_both_black m tmp;
         if bb then do {
           m \<leftarrow> set_color tmp RB_RED m;
           up \<leftarrow> RB_PARENT m parent;
           Some (Inl ((up, parent), m, root)) }
         else do {
           (m, root) \<leftarrow> remove_fix_L parent tmp (m, root);
           Some (Inr (root, m, root)) } }
       else do {
         (tmp, m, root) \<leftarrow> remove_red_sibling_R parent (m, root);
         bb \<leftarrow> remove_both_black m tmp;
         if bb then do {
           m \<leftarrow> set_color tmp RB_RED m;
           up \<leftarrow> RB_PARENT m parent;
           Some (Inl ((up, parent), m, root)) }
         else do {
           (m, root) \<leftarrow> remove_fix_R parent tmp (m, root);
           Some (Inr (root, m, root)) } } } })"

partial_function (option) RB_REMOVE_COLOR_loop ::
  "ptr \<Rightarrow> ptr \<Rightarrow> rb_head \<Rightarrow> (ptr \<times> rb_head) option" where
  "RB_REMOVE_COLOR_loop parent elm h =
     (case RB_REMOVE_COLOR_turn parent elm h of
        None \<Rightarrow> None
      | Some (Inr r) \<Rightarrow> Some r
      | Some (Inl ((parent', elm'), h')) \<Rightarrow> RB_REMOVE_COLOR_loop parent' elm' h')"

definition RB_REMOVE_COLOR :: "ptr \<Rightarrow> ptr \<Rightarrow> rb_head \<Rightarrow> rb_head option" where
  "RB_REMOVE_COLOR parent elm h = do {
     (elm, m, root) \<leftarrow> RB_REMOVE_COLOR_loop parent elm h;
     m \<leftarrow> (if elm \<noteq> NULL then set_color elm RB_BLACK m else Some m);
     Some (m, root) }"

text \<open>\<^verbatim>\<open>while ((left = RB_LEFT(elm, field)) != NULL) elm = left;\<close>\<close>

partial_function (option) leftmost :: "rb_mem \<Rightarrow> ptr \<Rightarrow> ptr option" where
  "leftmost m elm = do {
     left \<leftarrow> RB_LEFT m elm;
     if left = NULL then Some elm else leftmost m left }"

text \<open>The loop that calls the empty \<^verbatim>\<open>RB_AUGMENT\<close> on the way to the root.\<close>

partial_function (option) augment_up :: "rb_mem \<Rightarrow> ptr \<Rightarrow> unit option" where
  "augment_up m a = do {
     up \<leftarrow> RB_PARENT m a;
     if up = NULL then Some () else augment_up m up }"

text \<open>
  Unlinking a node with at most one child (the lines before the label \<^verbatim>\<open>color\<close>): the
  parent, the colour of the node and the tree.
\<close>

definition RB_REMOVE_unlink :: "ptr \<Rightarrow> ptr \<Rightarrow> rb_head \<Rightarrow> (ptr \<times> rb_color \<times> rb_head) option" where
  "RB_REMOVE_unlink elm child h = (case h of (m, root) \<Rightarrow> do {
     parent \<leftarrow> RB_PARENT m elm;
     color \<leftarrow> RB_COLOR m elm;
     m \<leftarrow> (if child \<noteq> NULL then set_parent child parent m else Some m);
     h \<leftarrow> replace_child parent elm child (m, root);
     Some (parent, color, h) })"

text \<open>
  Putting \<open>elm\<close> in the place of \<open>old\<close>, whose entry it takes over
  (\<^verbatim>\<open>(elm)->field = (old)->field\<close> and the updates of the neighbours).
\<close>

definition RB_REMOVE_replace :: "ptr \<Rightarrow> ptr \<Rightarrow> rb_head \<Rightarrow> rb_head option" where
  "RB_REMOVE_replace old elm h = (case h of (m, root) \<Rightarrow> do {
     e \<leftarrow> entry m old;
     m \<leftarrow> upd_entry elm (\<lambda>_. e) m;
     op \<leftarrow> RB_PARENT m old;
     (m, root) \<leftarrow> replace_child op old elm (m, root);
     ol \<leftarrow> RB_LEFT m old;
     m \<leftarrow> set_parent ol elm m;
     or \<leftarrow> RB_RIGHT m old;
     m \<leftarrow> (if or \<noteq> NULL then set_parent or elm m else Some m);
     Some (m, root) })"

text \<open>
  The case of two children: the successor \<open>elm\<close> of \<open>old\<close> is unlinked and put in the place of
  \<open>old\<close>.
\<close>

definition RB_REMOVE_two :: "ptr \<Rightarrow> rb_head \<Rightarrow> (ptr \<times> ptr \<times> rb_color \<times> rb_head) option" where
  "RB_REMOVE_two old h = (case h of (m, root) \<Rightarrow> do {
     r \<leftarrow> RB_RIGHT m old;
     elm \<leftarrow> leftmost m r;
     child \<leftarrow> RB_RIGHT m elm;
     (parent, color, m, root) \<leftarrow> RB_REMOVE_unlink elm child (m, root);
     ep \<leftarrow> RB_PARENT m elm;
     let parent = (if ep = old then elm else parent);
     (m, root) \<leftarrow> RB_REMOVE_replace old elm (m, root);
     _ \<leftarrow> (if parent \<noteq> NULL then augment_up m parent else Some ());
     Some (parent, child, color, m, root) })"

definition RB_REMOVE :: "ptr \<Rightarrow> rb_head \<Rightarrow> (ptr \<times> rb_head) option" where
  "RB_REMOVE elm h = (case h of (m, root) \<Rightarrow> do {
     l \<leftarrow> RB_LEFT m elm;
     r \<leftarrow> RB_RIGHT m elm;
     (parent, child, color, h) \<leftarrow>
       (if l = NULL then do {
          (parent, color, h) \<leftarrow> RB_REMOVE_unlink elm r (m, root);
          Some (parent, r, color, h) }
        else if r = NULL then do {
          (parent, color, h) \<leftarrow> RB_REMOVE_unlink elm l (m, root);
          Some (parent, l, color, h) }
        else RB_REMOVE_two elm (m, root));
     h \<leftarrow> (if color = RB_BLACK then RB_REMOVE_COLOR parent child h else Some h);
     Some (elm, h) })"

subsection \<open>Searching\<close>

partial_function (option) RB_FIND_loop ::
  "('e \<Rightarrow> ptr \<Rightarrow> int option) \<Rightarrow> 'e \<Rightarrow> rb_mem \<Rightarrow> ptr \<Rightarrow> ptr option" where
  "RB_FIND_loop cmp elm m tmp =
     (if tmp = NULL then Some NULL
      else do {
        cres \<leftarrow> cmp elm tmp;
        if cres < 0 then do { l \<leftarrow> RB_LEFT m tmp; RB_FIND_loop cmp elm m l }
        else if cres > 0 then do { r \<leftarrow> RB_RIGHT m tmp; RB_FIND_loop cmp elm m r }
        else Some tmp })"

definition RB_FIND :: "('e \<Rightarrow> ptr \<Rightarrow> int option) \<Rightarrow> 'e \<Rightarrow> rb_head \<Rightarrow> ptr option" where
  "RB_FIND cmp elm h = RB_FIND_loop cmp elm (fst h) (snd h)"

partial_function (option) RB_NFIND_loop ::
  "('e \<Rightarrow> ptr \<Rightarrow> int option) \<Rightarrow> 'e \<Rightarrow> rb_mem \<Rightarrow> ptr \<Rightarrow> ptr \<Rightarrow> ptr option" where
  "RB_NFIND_loop cmp elm m tmp res =
     (if tmp = NULL then Some res
      else do {
        cres \<leftarrow> cmp elm tmp;
        if cres < 0 then do { l \<leftarrow> RB_LEFT m tmp; RB_NFIND_loop cmp elm m l tmp }
        else if cres > 0 then do { r \<leftarrow> RB_RIGHT m tmp; RB_NFIND_loop cmp elm m r res }
        else Some tmp })"

definition RB_NFIND :: "('e \<Rightarrow> ptr \<Rightarrow> int option) \<Rightarrow> 'e \<Rightarrow> rb_head \<Rightarrow> ptr option" where
  "RB_NFIND cmp elm h = RB_NFIND_loop cmp elm (fst h) (snd h) NULL"

text \<open>
  \<^verbatim>\<open>RB_NEXT\<close> and \<^verbatim>\<open>RB_PREV\<close>: down to the end of a subtree, or up while the node is the right (left)
  child of its parent and once more.  The loops of the two macros that climb.
\<close>

partial_function (option) rightmost :: "rb_mem \<Rightarrow> ptr \<Rightarrow> ptr option" where
  "rightmost m elm = do {
     right \<leftarrow> RB_RIGHT m elm;
     if right = NULL then Some elm else rightmost m right }"

partial_function (option) RB_NEXT_climb :: "rb_mem \<Rightarrow> ptr \<Rightarrow> ptr option" where
  "RB_NEXT_climb m elm = do {
     parent \<leftarrow> RB_PARENT m elm;
     if parent = NULL then Some elm else do {
       pr \<leftarrow> RB_RIGHT m parent;
       if elm = pr then RB_NEXT_climb m parent else Some elm } }"

partial_function (option) RB_PREV_climb :: "rb_mem \<Rightarrow> ptr \<Rightarrow> ptr option" where
  "RB_PREV_climb m elm = do {
     parent \<leftarrow> RB_PARENT m elm;
     if parent = NULL then Some elm else do {
       pl \<leftarrow> RB_LEFT m parent;
       if elm = pl then RB_PREV_climb m parent else Some elm } }"

definition RB_NEXT :: "rb_mem \<Rightarrow> ptr \<Rightarrow> ptr option" where
  "RB_NEXT m elm = do {
     right \<leftarrow> RB_RIGHT m elm;
     if right \<noteq> NULL then leftmost m right
     else do {
       parent \<leftarrow> RB_PARENT m elm;
       is_left \<leftarrow> (if parent \<noteq> NULL then map_option (\<lambda>pl. elm = pl) (RB_LEFT m parent) else Some False);
       if is_left then Some parent
       else do { elm \<leftarrow> RB_NEXT_climb m elm; RB_PARENT m elm } } }"

definition RB_PREV :: "rb_mem \<Rightarrow> ptr \<Rightarrow> ptr option" where
  "RB_PREV m elm = do {
     left \<leftarrow> RB_LEFT m elm;
     if left \<noteq> NULL then rightmost m left
     else do {
       parent \<leftarrow> RB_PARENT m elm;
       is_right \<leftarrow> (if parent \<noteq> NULL then map_option (\<lambda>pr. elm = pr) (RB_RIGHT m parent) else Some False);
       if is_right then Some parent
       else do { elm \<leftarrow> RB_PREV_climb m elm; RB_PARENT m elm } } }"

partial_function (option) RB_MINMAX_loop :: "rb_mem \<Rightarrow> int \<Rightarrow> ptr \<Rightarrow> ptr \<Rightarrow> ptr option" where
  "RB_MINMAX_loop m val tmp parent =
     (if tmp = NULL then Some parent
      else if val < 0 then do { l \<leftarrow> RB_LEFT m tmp; RB_MINMAX_loop m val l tmp }
      else do { r \<leftarrow> RB_RIGHT m tmp; RB_MINMAX_loop m val r tmp })"

definition RB_MINMAX :: "int \<Rightarrow> rb_head \<Rightarrow> ptr option" where
  "RB_MINMAX val h = RB_MINMAX_loop (fst h) val (snd h) NULL"

definition RB_MIN :: "rb_head \<Rightarrow> ptr option" where
  "RB_MIN = RB_MINMAX (-1)"

definition RB_MAX :: "rb_head \<Rightarrow> ptr option" where
  "RB_MAX = RB_MINMAX 1"

text \<open>The loops are executable: their equations are code equations.\<close>

declare RB_INSERT_COLOR_loop.simps [code]
declare RB_INSERT_descend.simps [code]
declare RB_REMOVE_COLOR_loop.simps [code]
declare leftmost.simps [code]
declare augment_up.simps [code]
declare RB_FIND_loop.simps [code]
declare RB_NFIND_loop.simps [code]
declare RB_MINMAX_loop.simps [code]
declare rightmost.simps [code]
declare RB_NEXT_climb.simps [code]
declare RB_PREV_climb.simps [code]

end
