(* ===== verification/Ut_RB_Rep.thy ===== *)
theory Ut_RB_Rep
  imports Ut_RB_Mem
begin

text \<open>
  What the pointers of \<open>Ut_RB_Mem\<close> represent: binary trees whose nodes are addresses, and
  one-hole contexts (zippers) for the position an algorithm works at.  The lemmas of this
  theory are the separation facts the proofs of insertion and removal are made of: reading
  the entry of a node, recolouring a node, rotating at a node, each at an arbitrary
  position of an arbitrary tree, with everything else untouched.
\<close>

subsection \<open>Trees of addresses\<close>

datatype rbt = Lf | Nd rb_color rbt ptr rbt

fun root_of :: "rbt \<Rightarrow> ptr" where
  "root_of Lf = NULL"
| "root_of (Nd c l a r) = a"

fun color_of :: "rbt \<Rightarrow> rb_color" where
  "color_of Lf = RB_BLACK"
| "color_of (Nd c l a r) = c"

fun inorder :: "rbt \<Rightarrow> ptr list" where
  "inorder Lf = []"
| "inorder (Nd c l a r) = inorder l @ a # inorder r"

fun paint :: "rb_color \<Rightarrow> rbt \<Rightarrow> rbt" where
  "paint c Lf = Lf"
| "paint c (Nd c' l a r) = Nd c l a r"

lemma inorder_paint [simp]: "inorder (paint c t) = inorder t"
  by (cases t) auto

lemma root_of_paint [simp]: "root_of (paint c t) = root_of t"
  by (cases t) auto

text \<open>\<open>tree_at m q t\<close>: the entries of \<open>m\<close> form the tree \<open>t\<close>, and the parent of its root is \<open>q\<close>.\<close>

fun tree_at :: "rb_mem \<Rightarrow> ptr \<Rightarrow> rbt \<Rightarrow> bool" where
  "tree_at m q Lf \<longleftrightarrow> True"
| "tree_at m q (Nd c l a r) \<longleftrightarrow> a \<noteq> NULL \<and>
     m a = Some \<lparr>rbe_left = root_of l, rbe_right = root_of r, rbe_parent = q, rbe_color = c\<rparr> \<and>
     tree_at m a l \<and> tree_at m a r"

subsection \<open>Contexts\<close>

text \<open>
  A frame is a node with a hole for its left (\<open>InL\<close>) or right (\<open>InR\<close>) subtree; a context
  is the list of frames from the hole up to the root.
\<close>

datatype frame = InL rb_color ptr rbt | InR rb_color rbt ptr

fun plug1 :: "frame \<Rightarrow> rbt \<Rightarrow> rbt" where
  "plug1 (InL c a r) t = Nd c t a r"
| "plug1 (InR c l a) t = Nd c l a t"

fun plug :: "frame list \<Rightarrow> rbt \<Rightarrow> rbt" where
  "plug [] t = t"
| "plug (f # cs) t = plug cs (plug1 f t)"

fun faddr :: "frame \<Rightarrow> ptr" where
  "faddr (InL c a r) = a"
| "faddr (InR c l a) = a"

fun fcolor :: "frame \<Rightarrow> rb_color" where
  "fcolor (InL c a r) = c"
| "fcolor (InR c l a) = c"

fun sibling :: "frame \<Rightarrow> rbt" where
  "sibling (InL c a r) = r"
| "sibling (InR c l a) = l"

definition up :: "frame list \<Rightarrow> ptr" where
  "up cs = (case cs of [] \<Rightarrow> NULL | f # _ \<Rightarrow> faddr f)"

lemma up_simps [simp]: "up [] = NULL" "up (f # cs) = faddr f"
  by (simp_all add: up_def)

fun before :: "frame list \<Rightarrow> ptr list" where
  "before [] = []"
| "before (InL c a r # cs) = before cs"
| "before (InR c l a # cs) = before cs @ inorder l @ [a]"

fun after :: "frame list \<Rightarrow> ptr list" where
  "after [] = []"
| "after (InL c a r # cs) = a # inorder r @ after cs"
| "after (InR c l a # cs) = after cs"

lemma inorder_plug: "inorder (plug cs t) = before cs @ inorder t @ after cs"
proof (induction cs arbitrary: t)
  case (Cons f cs)
  then show ?case by (cases f) simp_all
qed simp

lemma plug_append: "plug (cs @ ds) t = plug ds (plug cs t)"
  by (induction cs arbitrary: t) simp_all

text \<open>\<open>ctx_at m root cs x\<close>: the entries of \<open>m\<close> form the context \<open>cs\<close> with the pointer \<open>x\<close> in its hole.\<close>

fun ctx_at :: "rb_mem \<Rightarrow> ptr \<Rightarrow> frame list \<Rightarrow> ptr \<Rightarrow> bool" where
  "ctx_at m root [] x \<longleftrightarrow> root = x"
| "ctx_at m root (InL c a r # cs) x \<longleftrightarrow> a \<noteq> NULL \<and>
     m a = Some \<lparr>rbe_left = x, rbe_right = root_of r, rbe_parent = up cs, rbe_color = c\<rparr> \<and>
     tree_at m a r \<and> ctx_at m root cs a"
| "ctx_at m root (InR c l a # cs) x \<longleftrightarrow> a \<noteq> NULL \<and>
     m a = Some \<lparr>rbe_left = root_of l, rbe_right = x, rbe_parent = up cs, rbe_color = c\<rparr> \<and>
     tree_at m a l \<and> ctx_at m root cs a"

lemma tree_at_plug:
  "tree_at m NULL (plug cs t) \<and> root = root_of (plug cs t) \<longleftrightarrow>
   ctx_at m root cs (root_of t) \<and> tree_at m (up cs) t"
proof (induction cs arbitrary: t)
  case (Cons f cs)
  then show ?case by (cases f) auto
qed auto

subsection \<open>Frame lemmas\<close>

lemma tree_at_cong:
  "(\<And>x. x \<in> set (inorder t) \<Longrightarrow> m' x = m x) \<Longrightarrow> tree_at m' q t = tree_at m q t"
  by (induction t arbitrary: q) auto

lemma ctx_at_cong:
  "(\<And>x. x \<in> set (before cs) \<union> set (after cs) \<Longrightarrow> m' x = m x) \<Longrightarrow>
   ctx_at m' root cs y = ctx_at m root cs y"
proof (induction cs arbitrary: y)
  case (Cons f cs)
  show ?case
  proof (cases f)
    case (InL c a r)
    have "tree_at m' a r = tree_at m a r" by (rule tree_at_cong) (use Cons.prems InL in auto)
    moreover have "ctx_at m' root cs a = ctx_at m root cs a"
      by (rule Cons.IH) (use Cons.prems InL in auto)
    ultimately show ?thesis using Cons.prems [of a] InL by simp
  next
    case (InR c l a)
    have "tree_at m' a l = tree_at m a l" by (rule tree_at_cong) (use Cons.prems InR in auto)
    moreover have "ctx_at m' root cs a = ctx_at m root cs a"
      by (rule Cons.IH) (use Cons.prems InR in auto)
    ultimately show ?thesis using Cons.prems [of a] InR by simp
  qed
qed simp

lemma tree_at_upd [simp]: "x \<notin> set (inorder t) \<Longrightarrow> tree_at (m(x := v)) q t = tree_at m q t"
  by (rule tree_at_cong) auto

lemma ctx_at_upd [simp]:
  "x \<notin> set (before cs) \<Longrightarrow> x \<notin> set (after cs) \<Longrightarrow> ctx_at (m(x := v)) root cs y = ctx_at m root cs y"
  by (rule ctx_at_cong) auto

lemma tree_at_NULL: "tree_at m q t \<Longrightarrow> NULL \<notin> set (inorder t)"
  by (induction t arbitrary: q) auto

lemma ctx_at_NULL: "ctx_at m root cs x \<Longrightarrow> NULL \<notin> set (before cs) \<union> set (after cs)"
  by (induction cs arbitrary: x rule: before.induct) (auto dest: tree_at_NULL)

lemma tree_at_dom: "tree_at m q t \<Longrightarrow> x \<in> set (inorder t) \<Longrightarrow> x \<in> dom m"
  by (induction t arbitrary: q) auto

lemma root_of_in: "t \<noteq> Lf \<Longrightarrow> root_of t \<in> set (inorder t)"
  by (cases t) auto

lemma root_of_NULL: "tree_at m q t \<Longrightarrow> root_of t = NULL \<longleftrightarrow> t = Lf"
  by (cases t) auto

lemma faddr_in: "faddr f \<in> set (before (f # cs)) \<union> set (after (f # cs))"
  by (cases f) auto

lemma up_in: "cs \<noteq> [] \<Longrightarrow> up cs \<in> set (before cs) \<union> set (after cs)"
  using faddr_in by (cases cs) auto

subsection \<open>The representation of a whole tree\<close>

definition rb :: "rb_mem \<Rightarrow> ptr \<Rightarrow> rbt \<Rightarrow> bool" where
  "rb m root t \<longleftrightarrow> tree_at m NULL t \<and> root = root_of t \<and> distinct (inorder t)"

lemma rb_plug:
  "rb m root (plug cs t) \<longleftrightarrow>
   ctx_at m root cs (root_of t) \<and> tree_at m (up cs) t \<and> distinct (before cs @ inorder t @ after cs)"
  using tree_at_plug [of m cs t root] by (auto simp: rb_def inorder_plug)

text \<open>The entry of a node at an arbitrary position.\<close>

lemma rb_entry_at:
  assumes "rb m root (plug cs (Nd c l a r))"
  shows "a \<noteq> NULL" "entry m a = Some \<lparr>rbe_left = root_of l, rbe_right = root_of r,
    rbe_parent = up cs, rbe_color = c\<rparr>"
  using assms by (auto simp: rb_plug entry_def)

lemmas rb_fields =
  RB_LEFT_def RB_RIGHT_def RB_PARENT_def RB_COLOR_def is_red_def is_black_def

subsection \<open>Recolouring and rotating at a position\<close>

lemma upd_entry_Some:
  "entry m a = Some e \<Longrightarrow> upd_entry a f m = Some (m(a \<mapsto> f e))"
  by (simp add: upd_entry_def)

lemma same_outside_upd:
  "entry m a = Some e \<Longrightarrow> a \<in> A \<Longrightarrow> same_outside A m (m(a \<mapsto> e'))"
  by (auto simp: same_outside_def entry_def split: if_splits)

lemma set_color_at:
  assumes "rb m root (plug cs (Nd c l a r))"
  shows "\<exists>m'. set_color a c' m = Some m' \<and> rb m' root (plug cs (Nd c' l a r)) \<and>
    same_outside {a} m m'"
proof -
  note e = rb_entry_at [OF assms]
  have "set_color a c' m = Some (m(a \<mapsto> \<lparr>rbe_left = root_of l, rbe_right = root_of r,
      rbe_parent = up cs, rbe_color = c'\<rparr>))"
    using upd_entry_Some [OF e(2)] by (simp add: set_color_def)
  moreover have "rb (m(a \<mapsto> \<lparr>rbe_left = root_of l, rbe_right = root_of r,
      rbe_parent = up cs, rbe_color = c'\<rparr>)) root (plug cs (Nd c' l a r))"
    using assms by (auto simp: rb_plug)
  ultimately show ?thesis using same_outside_upd [OF e(2)] by blast
qed

text \<open>Redirecting the pointer in the hole of a context from \<open>x\<close> to \<open>y\<close>.\<close>

lemma replace_child_at:
  assumes "ctx_at m root cs x" "distinct (before cs @ after cs)"
    and "x \<noteq> NULL" "x \<notin> set (before cs) \<union> set (after cs)"
  shows "\<exists>m' root'. replace_child (up cs) x y (m, root) = Some (m', root') \<and>
    ctx_at m' root' cs y \<and> same_outside {z. cs \<noteq> [] \<and> z = up cs} m m'"
proof (cases cs)
  case Nil
  then show ?thesis by (simp add: replace_child_def entry_def)
next
  case (Cons f ds)
  show ?thesis
  proof (cases f)
    case (InL c a r)
    have "a \<noteq> NULL" "a \<notin> set (inorder r)" "a \<notin> set (before ds)" "a \<notin> set (after ds)"
      using assms Cons InL by auto
    then show ?thesis
      using assms(1) Cons InL
      by (auto simp: replace_child_def RB_LEFT_def set_left_def upd_entry_def entry_def
          same_outside_def)
  next
    case (InR c l a)
    have "a \<noteq> NULL" "a \<notin> set (inorder l)" "a \<notin> set (before ds)" "a \<notin> set (after ds)"
      using assms Cons InR by auto
    moreover have "root_of l \<noteq> x"
      using assms(3,4) Cons InR root_of_in [of l] by (cases l) auto
    ultimately show ?thesis
      using assms(1) Cons InR
      by (auto simp: replace_child_def RB_LEFT_def set_right_def upd_entry_def entry_def
          same_outside_def)
  qed
qed


text \<open>Giving a subtree a new parent.\<close>

definition reparent :: "rbt \<Rightarrow> ptr \<Rightarrow> rb_mem \<Rightarrow> rb_mem" where
  "reparent t q m = (case t of Lf \<Rightarrow> m
     | Nd c l a r \<Rightarrow> m(a \<mapsto> \<lparr>rbe_left = root_of l, rbe_right = root_of r,
                              rbe_parent = q, rbe_color = c\<rparr>))"

lemma set_parent_reparent:
  assumes "tree_at m q t"
  shows "(if root_of t \<noteq> NULL then set_parent (root_of t) q' m else Some m) = Some (reparent t q' m)"
    and "t \<noteq> Lf \<Longrightarrow> set_parent (root_of t) q' m = Some (reparent t q' m)"
  using assms
  by (cases t; auto simp: reparent_def set_parent_def upd_entry_def entry_def)+

lemma tree_at_reparent:
  "tree_at m q t \<Longrightarrow> distinct (inorder t) \<Longrightarrow> tree_at (reparent t q' m) q' t"
  by (cases t) (auto simp: reparent_def)

lemma reparent_other: "x \<notin> set (inorder t) \<Longrightarrow> reparent t q m x = m x"
  by (cases t) (auto simp: reparent_def)

lemma dom_reparent: "tree_at m q t \<Longrightarrow> dom (reparent t q' m) = dom m"
  by (cases t) (auto simp: reparent_def)

lemma entry_reparent: "x \<notin> set (inorder t) \<Longrightarrow> entry (reparent t q m) x = entry m x"
  by (simp add: entry_def reparent_other)

lemma entry_Some: "entry m a = Some e \<longleftrightarrow> a \<noteq> NULL \<and> m a = Some e"
  by (auto simp: entry_def)

lemma rotate_left_at:
  assumes "rb m root (plug cs (Nd c l a (Nd c' rl b rr)))"
  shows "\<exists>m' root'. RB_ROTATE_LEFT a (m, root) = Some (m', root') \<and>
    rb m' root' (plug cs (Nd c' (Nd c l a rl) b rr)) \<and>
    same_outside (set (inorder (plug cs (Nd c l a (Nd c' rl b rr))))) m m'"
proof -
  note rep = assms [unfolded rb_plug, simplified]
  let ?ea = "\<lparr>rbe_left = root_of l, rbe_right = b, rbe_parent = up cs, rbe_color = c\<rparr>"
  let ?eb = "\<lparr>rbe_left = root_of rl, rbe_right = root_of rr, rbe_parent = a, rbe_color = c'\<rparr>"
  let ?m1 = "m(a \<mapsto> ?ea\<lparr>rbe_right := root_of rl\<rparr>)"
  let ?m2 = "reparent rl a ?m1"
  let ?m3 = "?m2(b \<mapsto> ?eb\<lparr>rbe_parent := up cs\<rparr>)"
  have ab: "a \<noteq> NULL" "b \<noteq> NULL" "a \<noteq> b" "m a = Some ?ea" "m b = Some ?eb"
    using rep by auto
  have trl: "tree_at ?m1 b rl" using rep by auto
  have m2: "?m2 a = Some (?ea\<lparr>rbe_right := root_of rl\<rparr>)" "?m2 b = Some ?eb"
    using rep by (simp_all add: reparent_other)
  have out: "?m3 x = m x" if "x \<noteq> a" "x \<noteq> b" "x \<notin> set (inorder rl)" for x
    using that by (simp add: reparent_other)
  have "?m3 x = m x" if "x \<in> set (before cs) \<union> set (after cs)" for x
    using rep that by (intro out) auto
  then have ctx3: "ctx_at ?m3 root cs a"
    using rep ctx_at_cong [of cs ?m3 m root a] by blast
  have dj: "distinct (before cs @ after cs)" "a \<notin> set (before cs) \<union> set (after cs)"
    using rep by auto
  obtain m4 root4 where m4: "replace_child (up cs) a b (?m3, root) = Some (m4, root4)"
    "ctx_at m4 root4 cs b" "same_outside {z. cs \<noteq> [] \<and> z = up cs} ?m3 m4"
    using replace_child_at [OF ctx3 dj(1) ab(1) dj(2), of b] by blast
  have up: "cs \<noteq> [] \<longrightarrow> up cs \<in> set (before cs) \<union> set (after cs)" using up_in by blast
  have m4o: "m4 x = ?m3 x" if "x \<notin> set (before cs)" "x \<notin> set (after cs)" for x
    by (rule same_outsideD [OF m4(3)]) (use up that in blast)
  let ?m5 = "m4(b \<mapsto> ?eb\<lparr>rbe_parent := up cs, rbe_left := a\<rparr>)"
  let ?m6 = "?m5(a \<mapsto> ?ea\<lparr>rbe_right := root_of rl, rbe_parent := b\<rparr>)"
  have m4ab: "m4 a = Some (?ea\<lparr>rbe_right := root_of rl\<rparr>)" "m4 b = Some (?eb\<lparr>rbe_parent := up cs\<rparr>)"
    using rep ab(3) m2 by (auto simp: m4o)
  have "RB_ROTATE_LEFT a (m, root) = Some (?m6, root4)"
  proof -
    have "RB_RIGHT m a = Some b" "RB_LEFT m b = Some (root_of rl)" "RB_LEFT ?m1 b = Some (root_of rl)"
      "RB_PARENT ?m2 a = Some (up cs)"
      using ab m2 by (simp_all add: rb_fields entry_def)
    moreover have "set_right a (root_of rl) m = Some ?m1" "set_parent b (up cs) ?m2 = Some ?m3"
      "set_left b a m4 = Some ?m5" "set_parent a b ?m5 = Some ?m6"
      using ab m2 m4ab by (simp_all add: set_right_def set_parent_def set_left_def upd_entry_def entry_def)
    moreover note set_parent_reparent(1) [OF trl, of a] m4(1)
    ultimately show ?thesis
      unfolding RB_ROTATE_LEFT_def
      by (simp only: prod.case Option.bind.bind_lunit)
  qed
  moreover have "rb ?m6 root4 (plug cs (Nd c' (Nd c l a rl) b rr))"
  proof -
    have m6: "?m6 x = ?m3 x" if "x \<noteq> a" "x \<noteq> b" "x \<notin> set (before cs)" "x \<notin> set (after cs)" for x
      using that by (simp add: m4o)
    have "tree_at ?m3 a rl"
      using tree_at_reparent [OF trl, of a] rep by auto
    moreover have "?m6 x = ?m3 x" if "x \<in> set (inorder rl)" for x
      using rep that by (intro m6) auto
    ultimately have "tree_at ?m6 a rl"
      using tree_at_cong [of rl ?m6 ?m3 a] by blast
    moreover have "?m6 x = m x" if "x \<in> set (inorder l) \<union> set (inorder rr)" for x
    proof -
      have "?m6 x = ?m3 x" using rep that by (intro m6) auto
      also have "\<dots> = m x" using rep that by (intro out) auto
      finally show ?thesis .
    qed
    then have "tree_at ?m6 a l" "tree_at ?m6 b rr"
      using rep tree_at_cong [of l ?m6 m a] tree_at_cong [of rr ?m6 m b] by blast+
    moreover have "ctx_at ?m6 root4 cs b"
      using m4(2) rep by simp
    ultimately show ?thesis
      using rep ab by (auto simp: rb_plug)
  qed
  moreover have "same_outside (set (inorder (plug cs (Nd c l a (Nd c' rl b rr))))) m ?m6"
  proof -
    have "dom ?m3 = dom m" using ab dom_reparent [OF trl] by auto
    then have "dom ?m6 = dom m" using m4(3) ab by (auto simp: same_outside_def)
    moreover have "?m6 x = m x" if "x \<notin> set (inorder (plug cs (Nd c l a (Nd c' rl b rr))))" for x
      using that by (auto simp: inorder_plug m4o reparent_other)
    ultimately show ?thesis by (simp add: same_outside_def)
  qed
  ultimately show ?thesis by blast
qed

lemma rotate_right_at:
  assumes "rb m root (plug cs (Nd c (Nd c' ll b lr) a r))"
  shows "\<exists>m' root'. RB_ROTATE_RIGHT a (m, root) = Some (m', root') \<and>
    rb m' root' (plug cs (Nd c' ll b (Nd c lr a r))) \<and>
    same_outside (set (inorder (plug cs (Nd c (Nd c' ll b lr) a r)))) m m'"
proof -
  note rep = assms [unfolded rb_plug, simplified]
  let ?ea = "\<lparr>rbe_left = b, rbe_right = root_of r, rbe_parent = up cs, rbe_color = c\<rparr>"
  let ?eb = "\<lparr>rbe_left = root_of ll, rbe_right = root_of lr, rbe_parent = a, rbe_color = c'\<rparr>"
  let ?m1 = "m(a \<mapsto> ?ea\<lparr>rbe_left := root_of lr\<rparr>)"
  let ?m2 = "reparent lr a ?m1"
  let ?m3 = "?m2(b \<mapsto> ?eb\<lparr>rbe_parent := up cs\<rparr>)"
  have ab: "a \<noteq> NULL" "b \<noteq> NULL" "a \<noteq> b" "m a = Some ?ea" "m b = Some ?eb"
    using rep by auto
  have tlr: "tree_at ?m1 b lr" using rep by auto
  have m2: "?m2 a = Some (?ea\<lparr>rbe_left := root_of lr\<rparr>)" "?m2 b = Some ?eb"
    using rep by (simp_all add: reparent_other)
  have out: "?m3 x = m x" if "x \<noteq> a" "x \<noteq> b" "x \<notin> set (inorder lr)" for x
    using that by (simp add: reparent_other)
  have "?m3 x = m x" if "x \<in> set (before cs) \<union> set (after cs)" for x
    using rep that by (intro out) auto
  then have ctx3: "ctx_at ?m3 root cs a"
    using rep ctx_at_cong [of cs ?m3 m root a] by blast
  have dj: "distinct (before cs @ after cs)" "a \<notin> set (before cs) \<union> set (after cs)"
    using rep by auto
  obtain m4 root4 where m4: "replace_child (up cs) a b (?m3, root) = Some (m4, root4)"
    "ctx_at m4 root4 cs b" "same_outside {z. cs \<noteq> [] \<and> z = up cs} ?m3 m4"
    using replace_child_at [OF ctx3 dj(1) ab(1) dj(2), of b] by blast
  have up: "cs \<noteq> [] \<longrightarrow> up cs \<in> set (before cs) \<union> set (after cs)" using up_in by blast
  have m4o: "m4 x = ?m3 x" if "x \<notin> set (before cs)" "x \<notin> set (after cs)" for x
    by (rule same_outsideD [OF m4(3)]) (use up that in blast)
  let ?m5 = "m4(b \<mapsto> ?eb\<lparr>rbe_parent := up cs, rbe_right := a\<rparr>)"
  let ?m6 = "?m5(a \<mapsto> ?ea\<lparr>rbe_left := root_of lr, rbe_parent := b\<rparr>)"
  have m4ab: "m4 a = Some (?ea\<lparr>rbe_left := root_of lr\<rparr>)" "m4 b = Some (?eb\<lparr>rbe_parent := up cs\<rparr>)"
    using rep ab(3) m2 by (auto simp: m4o)
  have "RB_ROTATE_RIGHT a (m, root) = Some (?m6, root4)"
  proof -
    have "RB_LEFT m a = Some b" "RB_RIGHT m b = Some (root_of lr)" "RB_RIGHT ?m1 b = Some (root_of lr)"
      "RB_PARENT ?m2 a = Some (up cs)"
      using ab m2 by (simp_all add: rb_fields entry_def)
    moreover have "set_left a (root_of lr) m = Some ?m1" "set_parent b (up cs) ?m2 = Some ?m3"
      "set_right b a m4 = Some ?m5" "set_parent a b ?m5 = Some ?m6"
      using ab m2 m4ab by (simp_all add: set_right_def set_parent_def set_left_def upd_entry_def entry_def)
    moreover note set_parent_reparent(1) [OF tlr, of a] m4(1)
    ultimately show ?thesis
      unfolding RB_ROTATE_RIGHT_def
      by (simp only: prod.case Option.bind.bind_lunit)
  qed
  moreover have "rb ?m6 root4 (plug cs (Nd c' ll b (Nd c lr a r)))"
  proof -
    have m6: "?m6 x = ?m3 x" if "x \<noteq> a" "x \<noteq> b" "x \<notin> set (before cs)" "x \<notin> set (after cs)" for x
      using that by (simp add: m4o)
    have "tree_at ?m3 a lr"
      using tree_at_reparent [OF tlr, of a] rep by auto
    moreover have "?m6 x = ?m3 x" if "x \<in> set (inorder lr)" for x
      using rep that by (intro m6) auto
    ultimately have "tree_at ?m6 a lr"
      using tree_at_cong [of lr ?m6 ?m3 a] by blast
    moreover have "?m6 x = m x" if "x \<in> set (inorder r) \<union> set (inorder ll)" for x
    proof -
      have "?m6 x = ?m3 x" using rep that by (intro m6) auto
      also have "\<dots> = m x" using rep that by (intro out) auto
      finally show ?thesis .
    qed
    then have "tree_at ?m6 a r" "tree_at ?m6 b ll"
      using rep tree_at_cong [of r ?m6 m a] tree_at_cong [of ll ?m6 m b] by blast+
    moreover have "ctx_at ?m6 root4 cs b"
      using m4(2) rep by simp
    ultimately show ?thesis
      using rep ab by (auto simp: rb_plug)
  qed
  moreover have "same_outside (set (inorder (plug cs (Nd c (Nd c' ll b lr) a r)))) m ?m6"
  proof -
    have "dom ?m3 = dom m" using ab dom_reparent [OF tlr] by auto
    then have "dom ?m6 = dom m" using m4(3) ab by (auto simp: same_outside_def)
    moreover have "?m6 x = m x" if "x \<notin> set (inorder (plug cs (Nd c (Nd c' ll b lr) a r)))" for x
      using that by (auto simp: inorder_plug m4o reparent_other)
    ultimately show ?thesis by (simp add: same_outside_def)
  qed
  ultimately show ?thesis by blast
qed

end
