(* ===== verification/Ut_RB_Inv.thy ===== *)
theory Ut_RB_Inv
  imports Ut_RB_Rep
begin

text \<open>
  The red-black properties stated at the head of \<^verbatim>\<open>tree.h\<close> (every path to a leaf has the
  same number of black nodes, a red node has a black parent, leaves are black), their form
  for a context, and the bound on the height they imply.
\<close>

fun bheight :: "rbt \<Rightarrow> nat" where
  "bheight Lf = 0"
| "bheight (Nd c l a r) = bheight l + (if c = RB_BLACK then 1 else 0)"

fun invc :: "rbt \<Rightarrow> bool" where
  "invc Lf \<longleftrightarrow> True"
| "invc (Nd c l a r) \<longleftrightarrow>
     (c = RB_RED \<longrightarrow> color_of l = RB_BLACK \<and> color_of r = RB_BLACK) \<and> invc l \<and> invc r"

fun invh :: "rbt \<Rightarrow> bool" where
  "invh Lf \<longleftrightarrow> True"
| "invh (Nd c l a r) \<longleftrightarrow> bheight l = bheight r \<and> invh l \<and> invh r"

definition rbt_ok :: "rbt \<Rightarrow> bool" where
  "rbt_ok t \<longleftrightarrow> invc t \<and> invh t \<and> color_of t = RB_BLACK"

lemma not_black [simp]: "c \<noteq> RB_BLACK \<longleftrightarrow> c = RB_RED" "c \<noteq> RB_RED \<longleftrightarrow> c = RB_BLACK"
  by (cases c; auto)+

lemma color_of_paint [simp]: "t \<noteq> Lf \<Longrightarrow> color_of (paint c t) = c"
  by (cases t) auto

lemma paint_black_simps [simp]:
  "color_of (paint RB_BLACK t) = RB_BLACK" "invh (paint c t) = invh t"
  "color_of t = RB_BLACK \<Longrightarrow> paint RB_BLACK t = t"
  by (cases t; auto)+

lemma invc_paint_black: "invc t \<Longrightarrow> invc (paint RB_BLACK t)"
  by (cases t) auto

subsection \<open>Contexts\<close>

text \<open>\<open>ctx_h cs n\<close>: the black heights of \<open>cs\<close> are right for a subtree of black height \<open>n\<close>.\<close>

fun ctx_h :: "frame list \<Rightarrow> nat \<Rightarrow> bool" where
  "ctx_h [] n \<longleftrightarrow> True"
| "ctx_h (f # cs) n \<longleftrightarrow> invh (sibling f) \<and> bheight (sibling f) = n \<and>
     ctx_h cs (n + (if fcolor f = RB_BLACK then 1 else 0))"

text \<open>\<open>ctx_c cs\<close>: no red node of \<open>cs\<close> has a red child in \<open>cs\<close>, and its root is black.\<close>

fun ctx_c :: "frame list \<Rightarrow> bool" where
  "ctx_c [] \<longleftrightarrow> True"
| "ctx_c (f # cs) \<longleftrightarrow> invc (sibling f) \<and>
     (fcolor f = RB_RED \<longrightarrow>
        color_of (sibling f) = RB_BLACK \<and> cs \<noteq> [] \<and> fcolor (hd cs) = RB_BLACK) \<and> ctx_c cs"

text \<open>What a context requires of the colour of the subtree in its hole.\<close>

definition hole_ok :: "frame list \<Rightarrow> rb_color \<Rightarrow> bool" where
  "hole_ok cs c \<longleftrightarrow> (if cs = [] then c = RB_BLACK else fcolor (hd cs) = RB_RED \<longrightarrow> c = RB_BLACK)"

lemma hole_ok_simps [simp]:
  "hole_ok [] c \<longleftrightarrow> c = RB_BLACK" "hole_ok (f # cs) c \<longleftrightarrow> (fcolor f = RB_RED \<longrightarrow> c = RB_BLACK)"
  "hole_ok cs RB_BLACK"
  by (simp_all add: hole_ok_def)

lemma plug1_inv:
  "invh (plug1 f t) \<longleftrightarrow> invh t \<and> invh (sibling f) \<and> bheight (sibling f) = bheight t"
  "invh (plug1 f t) \<Longrightarrow> bheight (plug1 f t) = bheight t + (if fcolor f = RB_BLACK then 1 else 0)"
  "invc (plug1 f t) \<longleftrightarrow> invc t \<and> invc (sibling f) \<and>
     (fcolor f = RB_RED \<longrightarrow> color_of t = RB_BLACK \<and> color_of (sibling f) = RB_BLACK)"
  "color_of (plug1 f t) = fcolor f"
  by (cases f; auto)+

lemma invh_plug: "invh (plug cs t) \<longleftrightarrow> invh t \<and> ctx_h cs (bheight t)"
proof (induction cs arbitrary: t)
  case (Cons f cs)
  show ?case
    using Cons.IH [of "plug1 f t"] plug1_inv(1,2) [of f t] by auto
qed simp

lemma invc_plug:
  "invc (plug cs t) \<and> color_of (plug cs t) = RB_BLACK \<longleftrightarrow> invc t \<and> ctx_c cs \<and> hole_ok cs (color_of t)"
proof (induction cs arbitrary: t)
  case (Cons f cs)
  show ?case
    using Cons.IH [of "plug1 f t"] plug1_inv(3,4) [of f t] by (cases cs) auto
qed simp

lemma rbt_ok_plug:
  "rbt_ok (plug cs t) \<longleftrightarrow>
   invc t \<and> invh t \<and> ctx_c cs \<and> ctx_h cs (bheight t) \<and> hole_ok cs (color_of t)"
  using invh_plug [of cs t] invc_plug [of cs t] by (auto simp: rbt_ok_def)

subsection \<open>The height of a red-black tree\<close>

fun height :: "rbt \<Rightarrow> nat" where
  "height Lf = 0"
| "height (Nd c l a r) = Suc (max (height l) (height r))"

lemma height_bheight:
  "invc t \<Longrightarrow> invh t \<Longrightarrow> height t \<le> 2 * bheight t + (if color_of t = RB_BLACK then 0 else 1)"
  by (induction t) (auto split: if_splits)

lemma bheight_length: "invh t \<Longrightarrow> 2 ^ bheight t \<le> length (inorder t) + 1"
  by (induction t) auto

lemma rbt_ok_height:
  assumes "rbt_ok t"
  shows "2 ^ height t \<le> (length (inorder t) + 1) ^ 2"
proof -
  have "2 ^ height t \<le> (2 :: nat) ^ (bheight t * 2)"
    using assms height_bheight [of t] by (intro power_increasing) (auto simp: rbt_ok_def)
  also have "\<dots> = (2 ^ bheight t) ^ 2" by (simp add: power_mult)
  also have "\<dots> \<le> (length (inorder t) + 1) ^ 2"
    using assms bheight_length [of t] by (intro power_mono) (auto simp: rbt_ok_def)
  finally show ?thesis .
qed

end
