(* ===== verification/Ut_RB_Insert.thy ===== *)
theory Ut_RB_Insert
  imports Ut_RB_Inv
begin

text \<open>
  Insertion into the red-black tree.  \<open>ins_up\<close> is what \<^verbatim>\<open>RB_INSERT_COLOR\<close> does to a tree and a
  position in it; the pointer code computes it (\<open>insert_color_loop_at\<close>), it keeps the inorder
  sequence, and it repairs the red-black properties.  Together: \<^verbatim>\<open>RB_INSERT\<close> inserts.
\<close>

subsection \<open>What \<^verbatim>\<open>RB_INSERT_COLOR\<close> computes\<close>

fun ins_rotate :: "frame \<Rightarrow> frame \<Rightarrow> rbt \<Rightarrow> rbt" where
  "ins_rotate (InL c p s) (InL cg g u) t = Nd RB_BLACK t p (Nd RB_RED s g u)"
| "ins_rotate (InR c s p) (InL cg g u) (Nd ct l x r) =
     Nd RB_BLACK (Nd c s p l) x (Nd RB_RED r g u)"
| "ins_rotate (InR c s p) (InR cg u g) t = Nd RB_BLACK (Nd RB_RED u g s) p t"
| "ins_rotate (InL c p s) (InR cg u g) (Nd ct l x r) =
     Nd RB_BLACK (Nd RB_RED u g l) x (Nd c r p s)"
| "ins_rotate f g Lf = plug1 g (plug1 f Lf)"

fun ins_recolor :: "frame \<Rightarrow> frame \<Rightarrow> rbt \<Rightarrow> rbt" where
  "ins_recolor f (InL cg g u) t = Nd RB_RED (paint RB_BLACK (plug1 f t)) g (paint RB_BLACK u)"
| "ins_recolor f (InR cg u g) t = Nd RB_RED (paint RB_BLACK u) g (paint RB_BLACK (plug1 f t))"

fun ins_up :: "frame list \<Rightarrow> rbt \<Rightarrow> rbt" where
  "ins_up [] t = t"
| "ins_up [f] t = plug1 f t"
| "ins_up (f # g # cs) t =
     (if fcolor f = RB_BLACK then plug (f # g # cs) t
      else if color_of (sibling g) = RB_RED then ins_up cs (ins_recolor f g t)
      else plug cs (ins_rotate f g t))"

subsection \<open>The turns of the loop\<close>

lemma insert_turn_root:
  assumes "rb m root (Nd c l x r)"
  shows "RB_INSERT_COLOR_turn x (m, root) = Some (Inr (m, root))"
  using rb_entry_at [of m root "[]"] assms
  by (simp add: RB_INSERT_COLOR_turn_def rb_fields)

lemma plug1_Nd:
  "\<exists>l r. plug1 f t = Nd (fcolor f) l (faddr f) r"
  by (cases f) auto

lemma insert_turn_black:
  assumes "rb m root (plug (f # cs) (Nd c l x r))" "fcolor f = RB_BLACK"
  shows "RB_INSERT_COLOR_turn x (m, root) = Some (Inr (m, root))"
proof -
  obtain l' r' where f: "plug1 f (Nd c l x r) = Nd RB_BLACK l' (faddr f) r'"
    using plug1_Nd assms(2) by metis
  have "rb m root (plug cs (Nd RB_BLACK l' (faddr f) r'))" using assms(1) f by simp
  from rb_entry_at [OF assms(1)] rb_entry_at [OF this] show ?thesis
    by (simp add: RB_INSERT_COLOR_turn_def rb_fields)
qed

text \<open>Recolouring a node and its two children, as both red-uncle cases do.\<close>

lemma set_blackred_at:
  assumes "rb m root (plug cs (plug1 g (Nd c l p r)))"
  shows "\<exists>m'. RB_SET_BLACKRED p (faddr g) m = Some m' \<and>
    rb m' root (plug cs (paint RB_RED (plug1 g (Nd RB_BLACK l p r)))) \<and>
    same_outside {p, faddr g} m m'"
proof -
  have "rb m root (plug (g # cs) (Nd c l p r))" using assms by simp
  then obtain m1 where m1: "set_color p RB_BLACK m = Some m1"
    "rb m1 root (plug (g # cs) (Nd RB_BLACK l p r))" "same_outside {p} m m1"
    using set_color_at by blast
  obtain l' r' where g: "plug1 g (Nd RB_BLACK l p r) = Nd (fcolor g) l' (faddr g) r'"
    using plug1_Nd by blast
  have "rb m1 root (plug cs (Nd (fcolor g) l' (faddr g) r'))" using m1(2) g by simp
  then obtain m2 where m2: "set_color (faddr g) RB_RED m1 = Some m2"
    "rb m2 root (plug cs (Nd RB_RED l' (faddr g) r'))" "same_outside {faddr g} m1 m2"
    using set_color_at by blast
  show ?thesis
    using m1 m2 g by (auto simp: RB_SET_BLACKRED_def same_outside_def)
qed

text \<open>The sibling of the position, seen as a position of its own.\<close>

fun turn_over :: "frame \<Rightarrow> rbt \<Rightarrow> frame" where
  "turn_over (InL c a r) t = InR c t a"
| "turn_over (InR c l a) t = InL c a t"

lemma turn_over_simps [simp]:
  "plug1 (turn_over f t) (sibling f) = plug1 f t" "faddr (turn_over f t) = faddr f"
  by (cases f; simp)+

fun with_sibling :: "frame \<Rightarrow> rbt \<Rightarrow> frame" where
  "with_sibling (InL c a r) s = InL c a s"
| "with_sibling (InR c l a) s = InR c s a"

lemma with_sibling_simps [simp]:
  "plug1 (turn_over f t) s = plug1 (with_sibling f s) t" "faddr (with_sibling f s) = faddr f"
  "fcolor (with_sibling f s) = fcolor f" "sibling (with_sibling f s) = s"
  by (cases f; simp)+

lemma recolor_at:
  assumes "rb m root (plug cs (plug1 g (Nd c l p r)))" "sibling g = Nd cu ul ua ur"
  shows "\<exists>m'. do { m \<leftarrow> set_color ua RB_BLACK m; RB_SET_BLACKRED p (faddr g) m } = Some m' \<and>
    rb m' root (plug cs (paint RB_RED (plug1 (with_sibling g (Nd RB_BLACK ul ua ur)) (Nd RB_BLACK l p r)))) \<and>
    same_outside {ua, p, faddr g} m m'"
proof -
  have "rb m root (plug (turn_over g (Nd c l p r) # cs) (Nd cu ul ua ur))"
    using assms turn_over_simps(1) [of g "Nd c l p r"] by simp
  then obtain m1 where m1: "set_color ua RB_BLACK m = Some m1"
    "rb m1 root (plug (turn_over g (Nd c l p r) # cs) (Nd RB_BLACK ul ua ur))"
    "same_outside {ua} m m1"
    using set_color_at by blast
  then have "rb m1 root (plug cs (plug1 (with_sibling g (Nd RB_BLACK ul ua ur)) (Nd c l p r)))"
    by simp
  from set_blackred_at [OF this] m1 show ?thesis
    by (auto simp: same_outside_def)
qed

lemma child_test:
  assumes "rb m root (plug cs (plug1 g (Nd c l p r)))"
  shows "RB_LEFT m (faddr g) = Some (case g of InL _ _ _ \<Rightarrow> p | InR _ _ _ \<Rightarrow> root_of (sibling g))"
    "RB_RIGHT m (faddr g) = Some (case g of InL _ _ _ \<Rightarrow> root_of (sibling g) | InR _ _ _ \<Rightarrow> p)"
    "root_of (sibling g) \<noteq> p"
  using assms tree_at_NULL root_of_in
  by (cases g; cases "sibling g"; auto simp: rb_plug rb_fields entry_def)+

lemma insert_turn_recolor:
  assumes "rb m root (plug (f # g # cs) (Nd c l x r))" "fcolor f = RB_RED"
    and "color_of (sibling g) = RB_RED"
  shows "\<exists>m'. RB_INSERT_COLOR_turn x (m, root) = Some (Inl (faddr g, m', root)) \<and>
    rb m' root (plug cs (ins_recolor f g (Nd c l x r))) \<and>
    same_outside (set (inorder (plug (f # g # cs) (Nd c l x r)))) m m'"
proof -
  let ?T = "plug (f # g # cs) (Nd c l x r)"
  obtain l' r' where f: "plug1 f (Nd c l x r) = Nd RB_RED l' (faddr f) r'"
    using plug1_Nd assms(2) by metis
  obtain ul ua ur where u: "sibling g = Nd RB_RED ul ua ur"
    using assms(3) by (cases "sibling g") auto
  have in_T: "{ua, faddr f, faddr g} \<subseteq> set (inorder ?T)"
    using f u by (cases g) (simp_all add: inorder_plug)
  have Tg: "rb m root (plug cs (plug1 g (Nd RB_RED l' (faddr f) r')))" using assms(1) f by simp
  then have "rb m root (plug (g # cs) (Nd RB_RED l' (faddr f) r'))"
    "rb m root (plug (turn_over g (Nd RB_RED l' (faddr f) r') # cs) (Nd RB_RED ul ua ur))"
    using u turn_over_simps(1) [of g "Nd RB_RED l' (faddr f) r'"] by simp_all
  note reads = rb_entry_at [OF assms(1)] rb_entry_at [OF this(1)] rb_entry_at [OF this(2)]
  obtain m1 m2 where m2: "set_color ua RB_BLACK m = Some m1" "RB_SET_BLACKRED (faddr f) (faddr g) m1 = Some m2"
    "rb m2 root (plug cs (paint RB_RED (plug1 (with_sibling g (Nd RB_BLACK ul ua ur)) (Nd RB_BLACK l' (faddr f) r'))))"
    "same_outside {ua, faddr f, faddr g} m m2"
    using recolor_at [OF Tg u] by (auto simp: bind_eq_Some_conv)
  have "RB_INSERT_COLOR_turn x (m, root) = Some (Inl (faddr g, m2, root))"
    using reads child_test [OF Tg] u m2(1,2)
    by (cases g) (simp_all add: RB_INSERT_COLOR_turn_def RB_PARENT_def RB_COLOR_def is_red_def)
  moreover have "paint RB_RED (plug1 (with_sibling g (Nd RB_BLACK ul ua ur)) (Nd RB_BLACK l' (faddr f) r')) =
      ins_recolor f g (Nd c l x r)"
    using f u by (cases g) simp_all
  ultimately show ?thesis
    using m2(3) same_outside_mono [OF m2(4) in_T] by auto
qed

text \<open>The last two statements of the rotating cases.\<close>

lemma finish_right:
  assumes "rb m root (plug cs (Nd cg (Nd cp A p B) ga u))"
  shows "\<exists>m1 m' root'. RB_SET_BLACKRED p ga m = Some m1 \<and> RB_ROTATE_RIGHT ga (m1, root) = Some (m', root') \<and>
    rb m' root' (plug cs (Nd RB_BLACK A p (Nd RB_RED B ga u))) \<and>
    same_outside (set (inorder (plug cs (Nd cg (Nd cp A p B) ga u)))) m m'"
proof -
  have "rb m root (plug cs (plug1 (InL cg ga u) (Nd cp A p B)))" using assms by simp
  from set_blackred_at [OF this] obtain m1 where m1: "RB_SET_BLACKRED p ga m = Some m1"
    "rb m1 root (plug cs (Nd RB_RED (Nd RB_BLACK A p B) ga u))" "same_outside {p, ga} m m1"
    by auto
  from rotate_right_at [OF m1(2)] m1(1,3) show ?thesis
    by (auto simp: same_outside_def inorder_plug)
qed

lemma finish_left:
  assumes "rb m root (plug cs (Nd cg u ga (Nd cp A p B)))"
  shows "\<exists>m1 m' root'. RB_SET_BLACKRED p ga m = Some m1 \<and> RB_ROTATE_LEFT ga (m1, root) = Some (m', root') \<and>
    rb m' root' (plug cs (Nd RB_BLACK (Nd RB_RED u ga A) p B)) \<and>
    same_outside (set (inorder (plug cs (Nd cg u ga (Nd cp A p B))))) m m'"
proof -
  have "rb m root (plug cs (plug1 (InR cg u ga) (Nd cp A p B)))" using assms by simp
  from set_blackred_at [OF this] obtain m1 where m1: "RB_SET_BLACKRED p ga m = Some m1"
    "rb m1 root (plug cs (Nd RB_RED u ga (Nd RB_BLACK A p B)))" "same_outside {p, ga} m m1"
    by auto
  from rotate_left_at [OF m1(2)] m1(1,3) show ?thesis
    by (auto simp: same_outside_def inorder_plug)
qed

definition rotated :: "ptr \<Rightarrow> rb_mem \<Rightarrow> ptr \<Rightarrow> frame list \<Rightarrow> rbt \<Rightarrow> ptr set \<Rightarrow> bool" where
  "rotated x m root cs t A \<longleftrightarrow>
     (\<exists>e m' root'. RB_INSERT_COLOR_turn x (m, root) = Some (Inl (e, m', root')) \<and>
        rb m' root' (plug cs t) \<and> RB_INSERT_COLOR_turn e (m', root') = Some (Inr (m', root')) \<and>
        same_outside A m m')"

lemma is_red_root:
  "rb m root (plug (f # cs) t) \<Longrightarrow>
   is_red m (root_of (sibling f)) = Some (color_of (sibling f) = RB_RED)"
  by (cases f; cases "sibling f") (auto simp: rb_plug is_red_def RB_COLOR_def entry_def)

lemma insert_reads:
  assumes "rb m root (plug (f # g # cs) (Nd c l x r))" "fcolor f = RB_RED"
    and "color_of (sibling g) = RB_BLACK"
  shows "RB_PARENT m x = Some (faddr f)" "is_red m (faddr f) = Some True"
    "RB_PARENT m (faddr f) = Some (faddr g)"
    "RB_LEFT m (faddr g) = Some (case g of InL _ _ _ \<Rightarrow> faddr f | InR _ _ _ \<Rightarrow> root_of (sibling g))"
    "RB_RIGHT m (faddr g) = Some (case g of InL _ _ _ \<Rightarrow> root_of (sibling g) | InR _ _ _ \<Rightarrow> faddr f)"
    "root_of (sibling g) \<noteq> faddr f" "is_red m (root_of (sibling g)) = Some False"
    "RB_LEFT m (faddr f) = Some (case f of InL _ _ _ \<Rightarrow> x | InR _ _ _ \<Rightarrow> root_of (sibling f))"
    "RB_RIGHT m (faddr f) = Some (case f of InL _ _ _ \<Rightarrow> root_of (sibling f) | InR _ _ _ \<Rightarrow> x)"
    "root_of (sibling f) \<noteq> x"
proof -
  obtain l' r' where f: "plug1 f (Nd c l x r) = Nd RB_RED l' (faddr f) r'"
    using plug1_Nd assms(2) by metis
  have Tg: "rb m root (plug (g # cs) (Nd RB_RED l' (faddr f) r'))"
    and Tg': "rb m root (plug cs (plug1 g (Nd RB_RED l' (faddr f) r')))"
    and Tf: "rb m root (plug (g # cs) (plug1 f (Nd c l x r)))"
    using assms(1) f by simp_all
  note ex = rb_entry_at [OF assms(1)] and ef = rb_entry_at [OF Tg]
  show "RB_PARENT m x = Some (faddr f)" "is_red m (faddr f) = Some True"
    "RB_PARENT m (faddr f) = Some (faddr g)"
    using ex ef by (simp_all add: rb_fields)
  show "is_red m (root_of (sibling g)) = Some False"
    using is_red_root [OF Tg] assms(3) by simp
  show "RB_LEFT m (faddr g) = Some (case g of InL _ _ _ \<Rightarrow> faddr f | InR _ _ _ \<Rightarrow> root_of (sibling g))"
    "RB_RIGHT m (faddr g) = Some (case g of InL _ _ _ \<Rightarrow> root_of (sibling g) | InR _ _ _ \<Rightarrow> faddr f)"
    "root_of (sibling g) \<noteq> faddr f"
    by (fact child_test [OF Tg'])+
  show "RB_LEFT m (faddr f) = Some (case f of InL _ _ _ \<Rightarrow> x | InR _ _ _ \<Rightarrow> root_of (sibling f))"
    "RB_RIGHT m (faddr f) = Some (case f of InL _ _ _ \<Rightarrow> root_of (sibling f) | InR _ _ _ \<Rightarrow> x)"
    "root_of (sibling f) \<noteq> x"
    by (fact child_test [OF Tf])+
qed

lemma insert_turn_rotate_LL:
  assumes T: "rb m root (plug (InL RB_RED p s # InL cg g u # cs) (Nd c l x r))"
    and u: "color_of u = RB_BLACK"
  shows "rotated x m root cs (ins_rotate (InL RB_RED p s) (InL cg g u) (Nd c l x r))
    (set (inorder (plug (InL RB_RED p s # InL cg g u # cs) (Nd c l x r))))"
proof -
  have "rb m root (plug cs (Nd cg (Nd RB_RED (Nd c l x r) p s) g u))" using T by simp
  from finish_right [OF this] obtain m1 m' root' where
    fin: "RB_SET_BLACKRED p g m = Some m1" "RB_ROTATE_RIGHT g (m1, root) = Some (m', root')"
      "rb m' root' (plug cs (Nd RB_BLACK (Nd c l x r) p (Nd RB_RED s g u)))"
      "same_outside (set (inorder (plug cs (Nd cg (Nd RB_RED (Nd c l x r) p s) g u)))) m m'"
    by blast
  have "RB_INSERT_COLOR_turn x (m, root) = Some (Inl (x, m', root'))"
    using insert_reads [OF T] u fin(1,2)
    by (simp add: RB_INSERT_COLOR_turn_def)
  moreover have "RB_INSERT_COLOR_turn x (m', root') = Some (Inr (m', root'))"
    by (rule insert_turn_black [of _ _ "InL RB_BLACK p (Nd RB_RED s g u)" cs c l x r]) (use fin(3) in simp_all)
  ultimately show ?thesis using fin(3,4) by (auto simp: rotated_def)
qed

lemma insert_turn_rotate_LR:
  assumes T: "rb m root (plug (InR RB_RED s p # InL cg g u # cs) (Nd c l x r))"
    and u: "color_of u = RB_BLACK"
  shows "rotated x m root cs (ins_rotate (InR RB_RED s p) (InL cg g u) (Nd c l x r))
    (set (inorder (plug (InR RB_RED s p # InL cg g u # cs) (Nd c l x r))))"
proof -
  have "rb m root (plug (InL cg g u # cs) (Nd RB_RED s p (Nd c l x r)))" using T by simp
  from rotate_left_at [OF this] obtain m0 root0 where
    rot: "RB_ROTATE_LEFT p (m, root) = Some (m0, root0)"
      "rb m0 root0 (plug cs (Nd cg (Nd c (Nd RB_RED s p l) x r) g u))"
      "same_outside (set (inorder (plug (InL cg g u # cs) (Nd RB_RED s p (Nd c l x r))))) m m0"
    by auto
  from finish_right [OF rot(2)] obtain m1 m' root' where
    fin: "RB_SET_BLACKRED x g m0 = Some m1" "RB_ROTATE_RIGHT g (m1, root0) = Some (m', root')"
      "rb m' root' (plug cs (Nd RB_BLACK (Nd RB_RED s p l) x (Nd RB_RED r g u)))"
      "same_outside (set (inorder (plug cs (Nd cg (Nd c (Nd RB_RED s p l) x r) g u)))) m0 m'"
    by blast
  have "RB_INSERT_COLOR_turn x (m, root) = Some (Inl (p, m', root'))"
    using insert_reads [OF T] u rot(1) fin(1,2)
    by (simp add: RB_INSERT_COLOR_turn_def)
  moreover have "RB_INSERT_COLOR_turn p (m', root') = Some (Inr (m', root'))"
    by (rule insert_turn_black [of _ _ "InL RB_BLACK x (Nd RB_RED r g u)" cs RB_RED s p l]) (use fin(3) in simp_all)
  ultimately show ?thesis
    using fin(3,4) rot(3) by (auto simp: rotated_def same_outside_def inorder_plug)
qed

lemma insert_turn_rotate_RR:
  assumes T: "rb m root (plug (InR RB_RED s p # InR cg u g # cs) (Nd c l x r))"
    and u: "color_of u = RB_BLACK"
  shows "rotated x m root cs (ins_rotate (InR RB_RED s p) (InR cg u g) (Nd c l x r))
    (set (inorder (plug (InR RB_RED s p # InR cg u g # cs) (Nd c l x r))))"
proof -
  have "rb m root (plug cs (Nd cg u g (Nd RB_RED s p (Nd c l x r))))" using T by simp
  from finish_left [OF this] obtain m1 m' root' where
    fin: "RB_SET_BLACKRED p g m = Some m1" "RB_ROTATE_LEFT g (m1, root) = Some (m', root')"
      "rb m' root' (plug cs (Nd RB_BLACK (Nd RB_RED u g s) p (Nd c l x r)))"
      "same_outside (set (inorder (plug cs (Nd cg u g (Nd RB_RED s p (Nd c l x r)))))) m m'"
    by blast
  have "RB_INSERT_COLOR_turn x (m, root) = Some (Inl (x, m', root'))"
    using insert_reads [OF T] u fin(1,2)
    by (simp add: RB_INSERT_COLOR_turn_def)
  moreover have "RB_INSERT_COLOR_turn x (m', root') = Some (Inr (m', root'))"
    by (rule insert_turn_black [of _ _ "InR RB_BLACK (Nd RB_RED u g s) p" cs c l x r]) (use fin(3) in simp_all)
  ultimately show ?thesis using fin(3,4) by (auto simp: rotated_def)
qed

lemma insert_turn_rotate_RL:
  assumes T: "rb m root (plug (InL RB_RED p s # InR cg u g # cs) (Nd c l x r))"
    and u: "color_of u = RB_BLACK"
  shows "rotated x m root cs (ins_rotate (InL RB_RED p s) (InR cg u g) (Nd c l x r))
    (set (inorder (plug (InL RB_RED p s # InR cg u g # cs) (Nd c l x r))))"
proof -
  have "rb m root (plug (InR cg u g # cs) (Nd RB_RED (Nd c l x r) p s))" using T by simp
  from rotate_right_at [OF this] obtain m0 root0 where
    rot: "RB_ROTATE_RIGHT p (m, root) = Some (m0, root0)"
      "rb m0 root0 (plug cs (Nd cg u g (Nd c l x (Nd RB_RED r p s))))"
      "same_outside (set (inorder (plug (InR cg u g # cs) (Nd RB_RED (Nd c l x r) p s)))) m m0"
    by auto
  from finish_left [OF rot(2)] obtain m1 m' root' where
    fin: "RB_SET_BLACKRED x g m0 = Some m1" "RB_ROTATE_LEFT g (m1, root0) = Some (m', root')"
      "rb m' root' (plug cs (Nd RB_BLACK (Nd RB_RED u g l) x (Nd RB_RED r p s)))"
      "same_outside (set (inorder (plug cs (Nd cg u g (Nd c l x (Nd RB_RED r p s)))))) m0 m'"
    by blast
  have "RB_INSERT_COLOR_turn x (m, root) = Some (Inl (p, m', root'))"
    using insert_reads [OF T] u rot(1) fin(1,2)
    by (simp add: RB_INSERT_COLOR_turn_def)
  moreover have "RB_INSERT_COLOR_turn p (m', root') = Some (Inr (m', root'))"
    by (rule insert_turn_black [of _ _ "InR RB_BLACK (Nd RB_RED u g l) x" cs RB_RED r p s]) (use fin(3) in simp_all)
  ultimately show ?thesis
    using fin(3,4) rot(3) by (auto simp: rotated_def same_outside_def inorder_plug)
qed

lemma insert_turn_rotate:
  assumes "rb m root (plug (f # g # cs) (Nd c l x r))" "fcolor f = RB_RED"
    and "color_of (sibling g) = RB_BLACK"
  shows "rotated x m root cs (ins_rotate f g (Nd c l x r))
    (set (inorder (plug (f # g # cs) (Nd c l x r))))"
  using assms insert_turn_rotate_LL insert_turn_rotate_LR insert_turn_rotate_RL insert_turn_rotate_RR
  by (cases f; cases g) (auto simp del: plug.simps ins_rotate.simps)

subsection \<open>The loop\<close>

lemma insert_loop_stop:
  "RB_INSERT_COLOR_turn x h = Some (Inr h') \<Longrightarrow> RB_INSERT_COLOR_loop x h = Some h'"
  by (subst RB_INSERT_COLOR_loop.simps) simp

lemma insert_loop_step:
  "RB_INSERT_COLOR_turn x h = Some (Inl (x', h')) \<Longrightarrow>
   RB_INSERT_COLOR_loop x h = RB_INSERT_COLOR_loop x' h'"
  by (subst RB_INSERT_COLOR_loop.simps) simp

lemma ins_recolor_root: "\<exists>l r. ins_recolor f g t = Nd RB_RED l (faddr g) r"
  by (cases g) auto

lemma inorder_ins_recolor [simp]: "inorder (ins_recolor f g t) = inorder (plug1 g (plug1 f t))"
  by (cases g) auto

lemma inorder_ins_rotate [simp]: "inorder (ins_rotate f g t) = inorder (plug1 g (plug1 f t))"
  by (cases t; cases f; cases g) auto

lemma inorder_ins_up: "inorder (ins_up cs t) = inorder (plug cs t)"
  by (induction cs t rule: ins_up.induct) (auto simp: inorder_plug)

lemma insert_color_loop_at:
  assumes "rb m root (plug cs (Nd RB_RED l x r))" "ctx_c cs"
  shows "\<exists>m' root'. RB_INSERT_COLOR_loop x (m, root) = Some (m', root') \<and>
    rb m' root' (ins_up cs (Nd RB_RED l x r)) \<and>
    same_outside (set (inorder (plug cs (Nd RB_RED l x r)))) m m'"
  using assms
proof (induction "length cs" arbitrary: cs m root l x r rule: less_induct)
  case less
  consider "cs = []" | f where "cs = [f]" | f g ds where "cs = f # g # ds"
    by (cases cs; cases "tl cs") auto
  then show ?case
  proof cases
    case 1
    with less.prems show ?thesis
      using insert_loop_stop [OF insert_turn_root] by auto
  next
    case 2
    with less.prems have "fcolor f = RB_BLACK" by auto
    then have "RB_INSERT_COLOR_turn x (m, root) = Some (Inr (m, root))"
      using less.prems(1) 2 by (intro insert_turn_black [of m root f "[]" RB_RED l x r]) auto
    with less.prems 2 show ?thesis using insert_loop_stop by auto
  next
    case 3
    let ?t = "Nd RB_RED l x r"
    have T: "rb m root (plug (f # g # ds) ?t)" using less.prems(1) 3 by simp
    consider (black) "fcolor f = RB_BLACK"
      | (recolor) "fcolor f = RB_RED" "color_of (sibling g) = RB_RED"
      | (rotate) "fcolor f = RB_RED" "color_of (sibling g) = RB_BLACK"
      by (cases "fcolor f"; cases "color_of (sibling g)") auto
    then show ?thesis
    proof cases
      case black
      with T 3 show ?thesis using insert_loop_stop [OF insert_turn_black [OF T]] by auto
    next
      case recolor
      obtain m1 where m1: "RB_INSERT_COLOR_turn x (m, root) = Some (Inl (faddr g, m1, root))"
        "rb m1 root (plug ds (ins_recolor f g ?t))"
        "same_outside (set (inorder (plug (f # g # ds) ?t))) m m1"
        using insert_turn_recolor [OF T recolor] by blast
      obtain l' r' where g: "ins_recolor f g ?t = Nd RB_RED l' (faddr g) r'"
        using ins_recolor_root by blast
      have "length ds < length cs" "ctx_c ds" using 3 less.prems(2) by auto
      from less.hyps [OF this(1) m1(2) [unfolded g] this(2)] obtain m' root' where
        m': "RB_INSERT_COLOR_loop (faddr g) (m1, root) = Some (m', root')"
          "rb m' root' (ins_up ds (ins_recolor f g ?t))"
          "same_outside (set (inorder (plug ds (ins_recolor f g ?t)))) m1 m'"
        unfolding g by blast
      have "same_outside (set (inorder (plug cs ?t))) m m'"
        using same_outside_trans [OF m1(3)] m'(3) 3 by (simp add: inorder_plug)
      then show ?thesis
        using m' insert_loop_step [OF m1(1)] recolor 3 by auto
    next
      case rotate
      then obtain e m' root' where
        e: "RB_INSERT_COLOR_turn x (m, root) = Some (Inl (e, m', root'))"
          "rb m' root' (plug ds (ins_rotate f g ?t))"
          "RB_INSERT_COLOR_turn e (m', root') = Some (Inr (m', root'))"
          "same_outside (set (inorder (plug (f # g # ds) ?t))) m m'"
        using insert_turn_rotate [OF T rotate] unfolding rotated_def by blast
      then show ?thesis
        using insert_loop_step [OF e(1)] insert_loop_stop [OF e(3)] rotate 3 by auto
    qed
  qed
qed

subsection \<open>The red-black properties\<close>

lemma ins_recolor_inv:
  assumes "invc t" "invh t" "ctx_c (f # g # cs)" "ctx_h (f # g # cs) (bheight t)"
    and "fcolor f = RB_RED" "color_of (sibling g) = RB_RED"
  shows "invc (ins_recolor f g t)" "invh (ins_recolor f g t)" "color_of (ins_recolor f g t) = RB_RED"
    "ctx_c cs" "ctx_h cs (bheight (ins_recolor f g t))"
  using assms by (cases f; cases g; cases "sibling g"; auto)+

lemma ins_rotate_inv:
  assumes "invc t" "invh t" "color_of t = RB_RED" "ctx_c (f # g # cs)" "ctx_h (f # g # cs) (bheight t)"
    and "fcolor f = RB_RED" "color_of (sibling g) = RB_BLACK"
  shows "invc (ins_rotate f g t)" "invh (ins_rotate f g t)" "color_of (ins_rotate f g t) = RB_BLACK"
    "ctx_c cs" "ctx_h cs (bheight (ins_rotate f g t))"
  using assms by (cases f; cases g; cases t; auto)+

lemma ins_up_ok:
  assumes "invc t" "invh t" "color_of t = RB_RED" "ctx_c cs" "ctx_h cs (bheight t)"
  shows "rbt_ok (paint RB_BLACK (ins_up cs t))"
  using assms
proof (induction cs t rule: ins_up.induct)
  case (1 t)
  then show ?case by (simp add: rbt_ok_def invc_paint_black)
next
  case (2 f t)
  then have "rbt_ok (plug [f] t)" unfolding rbt_ok_plug by auto
  then show ?case by (simp add: rbt_ok_def)
next
  case (3 f g cs t)
  consider (black) "fcolor f = RB_BLACK"
    | (recolor) "fcolor f = RB_RED" "color_of (sibling g) = RB_RED"
    | (rotate) "fcolor f = RB_RED" "color_of (sibling g) = RB_BLACK"
    by (cases "fcolor f"; cases "color_of (sibling g)") auto
  then show ?case
  proof cases
    case black
    then have "rbt_ok (plug (f # g # cs) t)"
      unfolding rbt_ok_plug using "3.prems" by auto
    with black show ?thesis by (simp add: rbt_ok_def)
  next
    case recolor
    with ins_recolor_inv [OF "3.prems"(1,2,4,5) recolor] "3.IH" show ?thesis by simp
  next
    case rotate
    note inv = ins_rotate_inv [OF "3.prems" rotate]
    have "rbt_ok (plug cs (ins_rotate f g t))"
      unfolding rbt_ok_plug using inv by simp
    with rotate show ?thesis by (simp add: rbt_ok_def)
  qed
qed

subsection \<open>The descent\<close>

fun is_InL :: "frame \<Rightarrow> bool" where
  "is_InL (InL c a r) = True"
| "is_InL (InR c l a) = False"

text \<open>The side of the last comparison agrees with the position of the hole.\<close>

definition side_ok :: "frame list \<Rightarrow> int \<Rightarrow> bool" where
  "side_ok cs v \<longleftrightarrow> (cs \<noteq> [] \<longrightarrow> (v < 0 \<longleftrightarrow> is_InL (hd cs)))"

text \<open>
  The result of a descent from the subtree \<open>t\<close> in the hole of \<open>cs\<close>: a node of \<open>t\<close> with the
  key \<open>k\<close>, or the position of the leaf where \<open>k\<close> belongs.
\<close>

definition descended ::
  "(ptr \<Rightarrow> 'k::linorder) \<Rightarrow> 'k \<Rightarrow> frame list \<Rightarrow> rbt \<Rightarrow> (ptr + ptr \<times> int) option \<Rightarrow> bool" where
  "descended key k cs t res \<longleftrightarrow>
     (case res of
        None \<Rightarrow> False
      | Some (Inl a) \<Rightarrow> a \<in> set (inorder t) \<and> key a = k
      | Some (Inr (p, v)) \<Rightarrow> (\<forall>b \<in> set (inorder t). key b \<noteq> k) \<and>
          (\<exists>cs'. p = up cs' \<and> plug cs' Lf = plug cs t \<and> side_ok cs' v \<and>
             (\<forall>a \<in> set (before cs'). key a < k) \<and> (\<forall>a \<in> set (after cs'). k < key a)))"

lemma descended_up:
  assumes "descended key k (f # cs) t res" "key (faddr f) \<noteq> k"
    and "\<forall>b \<in> set (inorder (sibling f)). key b \<noteq> k"
  shows "descended key k cs (plug1 f t) res"
  using assms by (cases f) (auto simp: descended_def split: option.splits sum.splits)

lemma insert_descend_at:
  assumes "rb m root (plug cs t)" "sorted_by key (inorder (plug cs t))"
    and "cmp_by cmp key elm k (set (inorder t))" "side_ok cs v"
    and "\<forall>a \<in> set (before cs). key a < k" "\<forall>a \<in> set (after cs). k < key a"
  shows "descended key k cs t (RB_INSERT_descend cmp elm m (root_of t) (up cs) v)"
  using assms
proof (induction t arbitrary: cs v)
  case Lf
  then show ?case by (subst RB_INSERT_descend.simps) (auto simp: descended_def)
next
  case (Nd c l a r)
  note e = rb_entry_at [OF Nd.prems(1)]
  obtain w where w: "cmp elm a = Some w" "w < 0 \<longleftrightarrow> k < key a" "0 < w \<longleftrightarrow> key a < k"
    using Nd.prems(3) by (auto simp: cmp_by_def)
  have lt: "\<forall>b \<in> set (inorder l). key b < key a" and gt: "\<forall>b \<in> set (inorder r). key a < key b"
    using Nd.prems(2) by (auto simp: inorder_plug sorted_wrt_append)
  have cmps: "cmp_by cmp key elm k (set (inorder l))" "cmp_by cmp key elm k (set (inorder r))"
    using Nd.prems(3) by (auto simp: cmp_by_def)
  consider "k < key a" | "key a < k" | "key a = k" by fastforce
  then show ?case
  proof cases
    case 1
    have "RB_INSERT_descend cmp elm m a (up cs) v = RB_INSERT_descend cmp elm m (root_of l) a w"
      using e w 1 by (subst RB_INSERT_descend.simps) (simp add: RB_LEFT_def)
    moreover have "\<forall>b \<in> set (after (InL c a r # cs)). k < key b"
      using 1 gt Nd.prems(6) by auto
    then have "descended key k (InL c a r # cs) l (RB_INSERT_descend cmp elm m (root_of l) (up (InL c a r # cs)) w)"
      using Nd.prems w(2) 1 cmps(1) by (intro Nd.IH(1)) (simp_all add: side_ok_def)
    then have "descended key k cs (plug1 (InL c a r) l) (RB_INSERT_descend cmp elm m (root_of l) a w)"
      using descended_up [of key k "InL c a r" cs l] 1 gt by fastforce
    ultimately show ?thesis by simp
  next
    case 2
    have "RB_INSERT_descend cmp elm m a (up cs) v = RB_INSERT_descend cmp elm m (root_of r) a w"
      using e w 2 by (subst RB_INSERT_descend.simps) (simp add: RB_RIGHT_def)
    moreover have "\<forall>b \<in> set (before (InR c l a # cs)). key b < k"
      using 2 lt Nd.prems(5) by auto
    then have "descended key k (InR c l a # cs) r (RB_INSERT_descend cmp elm m (root_of r) (up (InR c l a # cs)) w)"
      using Nd.prems w(2) 2 cmps(2) by (intro Nd.IH(2)) (simp_all add: side_ok_def)
    then have "descended key k cs (plug1 (InR c l a) r) (RB_INSERT_descend cmp elm m (root_of r) a w)"
      using descended_up [of key k "InR c l a" cs r] 2 lt by fastforce
    ultimately show ?thesis by simp
  next
    case 3
    with w have "w = 0" by auto
    with e w show ?thesis using 3 by (subst RB_INSERT_descend.simps) (auto simp: descended_def)
  qed
qed

subsection \<open>Linking the new node\<close>

lemma link_leaf_at:
  assumes T: "rb m root (plug cs Lf)" and elm: "elm \<notin> set (inorder (plug cs Lf))" "entry m elm = Some e"
    and v: "side_ok cs v"
  shows "\<exists>m1 m' root'. RB_SET elm (up cs) m = Some m1 \<and>
    (if up cs \<noteq> NULL then do {
       m \<leftarrow> (if v < 0 then set_left (up cs) elm m1 else set_right (up cs) elm m1);
       Some (m, root) }
     else Some (m1, elm)) = Some (m', root') \<and>
    rb m' root' (plug cs (Nd RB_RED Lf elm Lf)) \<and>
    same_outside (insert elm (set (inorder (plug cs Lf)))) m m'"
proof -
  have elm0: "elm \<noteq> NULL" "m elm = Some e" using elm(2) by (auto simp: entry_Some)
  let ?e = "\<lparr>rbe_left = NULL, rbe_right = NULL, rbe_parent = up cs, rbe_color = RB_RED\<rparr>"
  let ?m1 = "m(elm \<mapsto> ?e)"
  have set: "RB_SET elm (up cs) m = Some ?m1"
    using elm0 by (cases e) (simp add: RB_SET_def upd_entry_def entry_def)
  show ?thesis
  proof (cases cs)
    case Nil
    with T elm0 set show ?thesis
      by (auto simp: rb_def same_outside_def)
  next
    case (Cons f ds)
    show ?thesis
    proof (cases f)
      case (InL c a r)
      let ?ea = "\<lparr>rbe_left = elm, rbe_right = root_of r, rbe_parent = up ds, rbe_color = c\<rparr>"
      have a: "a \<noteq> NULL" "a \<noteq> elm" using T elm Cons InL by (auto simp: rb_plug inorder_plug)
      have "set_left a elm ?m1 = Some (?m1(a \<mapsto> ?ea))"
        using T a Cons InL by (auto simp: rb_plug set_left_def upd_entry_def entry_def)
      moreover have "rb (?m1(a \<mapsto> ?ea)) root (plug cs (Nd RB_RED Lf elm Lf))"
        using T elm0 elm(1) a Cons InL by (auto simp: rb_plug inorder_plug)
      moreover have "same_outside (insert elm (set (inorder (plug cs Lf)))) m (?m1(a \<mapsto> ?ea))"
        using T elm0 Cons InL by (auto simp: rb_plug inorder_plug same_outside_def)
      ultimately show ?thesis using set v a Cons InL by (simp add: side_ok_def)
    next
      case (InR c l a)
      let ?ea = "\<lparr>rbe_left = root_of l, rbe_right = elm, rbe_parent = up ds, rbe_color = c\<rparr>"
      have a: "a \<noteq> NULL" "a \<noteq> elm" using T elm Cons InR by (auto simp: rb_plug inorder_plug)
      have "set_right a elm ?m1 = Some (?m1(a \<mapsto> ?ea))"
        using T a Cons InR by (auto simp: rb_plug set_right_def upd_entry_def entry_def)
      moreover have "rb (?m1(a \<mapsto> ?ea)) root (plug cs (Nd RB_RED Lf elm Lf))"
        using T elm0 elm(1) a Cons InR by (auto simp: rb_plug inorder_plug)
      moreover have "same_outside (insert elm (set (inorder (plug cs Lf)))) m (?m1(a \<mapsto> ?ea))"
        using T elm0 Cons InR by (auto simp: rb_plug inorder_plug same_outside_def)
      ultimately show ?thesis using set v a Cons InR by (simp add: side_ok_def)
    qed
  qed
qed

lemma insert_color_at:
  assumes "rb m root (plug cs (Nd RB_RED l x r))" "ctx_c cs"
  shows "\<exists>m' root'. RB_INSERT_COLOR x (m, root) = Some (m', root') \<and>
    rb m' root' (paint RB_BLACK (ins_up cs (Nd RB_RED l x r))) \<and>
    same_outside (set (inorder (plug cs (Nd RB_RED l x r)))) m m'"
proof -
  let ?t = "ins_up cs (Nd RB_RED l x r)"
  obtain m1 root1 where m1: "RB_INSERT_COLOR_loop x (m, root) = Some (m1, root1)" "rb m1 root1 ?t"
    "same_outside (set (inorder (plug cs (Nd RB_RED l x r)))) m m1"
    using insert_color_loop_at [OF assms] by blast
  have ins: "inorder ?t = inorder (plug cs (Nd RB_RED l x r))" by (rule inorder_ins_up)
  then obtain c' l' a r' where t: "?t = Nd c' l' a r'"
    by (cases ?t) (auto simp: inorder_plug)
  have root1: "root1 = a" using m1(2) t by (simp add: rb_def)
  obtain m2 where m2: "set_color a RB_BLACK m1 = Some m2" "rb m2 root1 (plug [] (Nd RB_BLACK l' a r'))"
    "same_outside {a} m1 m2"
    using set_color_at [of m1 root1 "[]" c' l' a r' RB_BLACK] m1(2) t by auto
  have "a \<in> set (inorder (plug cs (Nd RB_RED l x r)))" using ins t by (metis inorder.simps(2) in_set_conv_decomp)
  then have "same_outside (set (inorder (plug cs (Nd RB_RED l x r)))) m m2"
    using m1(3) m2(3) by (auto simp: same_outside_def)
  then show ?thesis
    using m1(1) m2(1,2) t root1 by (auto simp: RB_INSERT_COLOR_def)
qed

subsection \<open>\<^verbatim>\<open>RB_INSERT\<close>\<close>

lemma insort_key_middle:
  assumes "\<forall>a \<in> set xs. key a < key x" "\<forall>a \<in> set ys. key x < key a"
  shows "insort_key key x (xs @ ys) = xs @ x # ys"
  using assms
proof (induction xs)
  case Nil
  then show ?case by (cases ys) auto
qed auto

lemma RB_INSERT_new:
  assumes T: "rb m root t" "rbt_ok t" "sorted_by key (inorder t)"
    and elm: "elm \<notin> set (inorder t)" "entry m elm = Some e"
    and cmp: "cmp_by cmp key elm (key elm) (set (inorder t))"
    and new: "\<forall>a \<in> set (inorder t). key a \<noteq> key elm"
  shows "\<exists>m' root' t'. RB_INSERT cmp elm (m, root) = Some (NULL, m', root') \<and>
    rb m' root' t' \<and> rbt_ok t' \<and> inorder t' = insort_key key elm (inorder t) \<and>
    same_outside (insert elm (set (inorder t))) m m'"
proof -
  have root: "root = root_of t" using T(1) by (simp add: rb_def)
  have "descended key (key elm) [] t (RB_INSERT_descend cmp elm m (root_of t) (up []) 0)"
    using T cmp by (intro insert_descend_at [where root = root]) (simp_all add: side_ok_def)
  then obtain cs v where d: "RB_INSERT_descend cmp elm m root NULL 0 = Some (Inr (up cs, v))"
    "plug cs Lf = t" "side_ok cs v" "\<forall>a \<in> set (before cs). key a < key elm"
    "\<forall>a \<in> set (after cs). key elm < key a"
    using new root by (auto simp: descended_def split: option.splits sum.splits)
  obtain m1 m2 root2 where link: "RB_SET elm (up cs) m = Some m1"
    "(if up cs \<noteq> NULL then do {
       m \<leftarrow> (if v < 0 then set_left (up cs) elm m1 else set_right (up cs) elm m1);
       Some (m, root) }
     else Some (m1, elm)) = Some (m2, root2)"
    "rb m2 root2 (plug cs (Nd RB_RED Lf elm Lf))"
    "same_outside (insert elm (set (inorder (plug cs Lf)))) m m2"
    using link_leaf_at [of m root cs elm e v] T(1) elm d(2,3) by blast
  have ctx: "ctx_c cs" "ctx_h cs 0"
    using T(2) d(2) rbt_ok_plug [of cs Lf] by auto
  obtain m' root' where fin: "RB_INSERT_COLOR elm (m2, root2) = Some (m', root')"
    "rb m' root' (paint RB_BLACK (ins_up cs (Nd RB_RED Lf elm Lf)))"
    "same_outside (set (inorder (plug cs (Nd RB_RED Lf elm Lf)))) m2 m'"
    using insert_color_at [OF link(3) ctx(1)] by blast
  let ?t = "paint RB_BLACK (ins_up cs (Nd RB_RED Lf elm Lf))"
  have "RB_INSERT cmp elm (m, root) = Some (NULL, m', root')"
    unfolding RB_INSERT_def using d(1) link(1,2) fin(1) by (simp del: bind_eq_Some_conv)
  moreover have "rbt_ok ?t"
    using ctx by (intro ins_up_ok) simp_all
  moreover have "inorder ?t = insort_key key elm (inorder t)"
    using d(2,4,5) insort_key_middle [of "before cs" key elm "after cs"]
    by (auto simp: inorder_ins_up inorder_plug)
  moreover have "same_outside (insert elm (set (inorder t))) m m'"
    using link(4) fin(3) d(2) by (auto simp: same_outside_def inorder_plug)
  ultimately show ?thesis using fin(2) by blast
qed

lemma RB_INSERT_present:
  assumes T: "rb m root t" "sorted_by key (inorder t)"
    and cmp: "cmp_by cmp key elm (key elm) (set (inorder t))"
    and a: "a \<in> set (inorder t)" "key a = key elm"
  shows "RB_INSERT cmp elm (m, root) = Some (a, m, root)"
proof -
  have root: "root = root_of t" using T(1) by (simp add: rb_def)
  have "descended key (key elm) [] t (RB_INSERT_descend cmp elm m (root_of t) (up []) 0)"
    using T cmp by (intro insert_descend_at [where root = root]) (simp_all add: side_ok_def)
  then obtain b where b: "RB_INSERT_descend cmp elm m root NULL 0 = Some (Inl b)"
    "b \<in> set (inorder t)" "key b = key elm"
    using a root by (auto simp: descended_def split: option.splits sum.splits)
  have "b = a"
    using T(2) b(2,3) a by (metis less_irrefl sorted_wrt_less_idx in_set_conv_nth linorder_neqE_nat sorted_wrt_iff_nth_less)
  then show ?thesis using b(1) by (simp add: RB_INSERT_def)
qed

end
