(* ===== verification/Ut_RB_Remove.thy ===== *)
theory Ut_RB_Remove
  imports Ut_RB_Insert
begin

text \<open>
  Removal from the red-black tree.  \<open>del_up\<close> is what \<^verbatim>\<open>RB_REMOVE_COLOR\<close> does to a tree and the
  position of a subtree whose black height is one too small; the pointer code computes it,
  it keeps the inorder sequence, and it restores the red-black properties.
\<close>

subsection \<open>What \<^verbatim>\<open>RB_REMOVE_COLOR\<close> computes\<close>

definition nephews_black :: "rbt \<Rightarrow> bool" where
  "nephews_black s = (case s of Lf \<Rightarrow> True
     | Nd c l a r \<Rightarrow> color_of l = RB_BLACK \<and> color_of r = RB_BLACK)"

text \<open>The two frames that a red sibling turns into when it is rotated up.\<close>

fun near :: "frame \<Rightarrow> frame" where
  "near (InL c p (Nd cs sl b sr)) = InL RB_RED p sl"
| "near (InR c (Nd cs sl b sr) p) = InR RB_RED sr p"
| "near f = f"

fun far :: "frame \<Rightarrow> frame" where
  "far (InL c p (Nd cs sl b sr)) = InL RB_BLACK b sr"
| "far (InR c (Nd cs sl b sr) p) = InR RB_BLACK sl b"
| "far f = f"

fun del_fix :: "frame \<Rightarrow> rbt \<Rightarrow> rbt" where
  "del_fix (InL c p (Nd cs sl b sr)) t =
     (if color_of sr = RB_BLACK
      then (case sl of Lf \<Rightarrow> Nd c t p (Nd cs sl b sr)
            | Nd cx sll x slr \<Rightarrow> Nd c (Nd RB_BLACK t p sll) x (Nd RB_BLACK slr b sr))
      else Nd c (Nd RB_BLACK t p sl) b (paint RB_BLACK sr))"
| "del_fix (InR c (Nd cs sl b sr) p) t =
     (if color_of sl = RB_BLACK
      then (case sr of Lf \<Rightarrow> Nd c (Nd cs sl b sr) p t
            | Nd cx srl x srr \<Rightarrow> Nd c (Nd RB_BLACK sl b srl) x (Nd RB_BLACK srr p t))
      else Nd c (paint RB_BLACK sl) b (Nd RB_BLACK sr p t))"
| "del_fix f t = plug1 f t"

fun del_up :: "frame list \<Rightarrow> rbt \<Rightarrow> rbt" where
  "del_up [] t = paint RB_BLACK t"
| "del_up (f # cs) t =
     (if color_of t = RB_RED then plug (f # cs) (paint RB_BLACK t)
      else if color_of (sibling f) = RB_RED then
        (if nephews_black (sibling (near f))
         then plug (far f # cs)
           (paint RB_BLACK (plug1 (with_sibling (near f) (paint RB_RED (sibling (near f)))) t))
         else plug (far f # cs) (del_fix (near f) t))
      else if nephews_black (sibling f)
        then del_up cs (plug1 (with_sibling f (paint RB_RED (sibling f))) t)
      else plug cs (del_fix f t))"

lemma inorder_near_far:
  "color_of (sibling f) = RB_RED \<Longrightarrow> inorder (plug1 (far f) (plug1 (near f) t)) = inorder (plug1 f t)"
  by (cases f; cases "sibling f") auto

lemma inorder_del_fix [simp]: "inorder (del_fix f t) = inorder (plug1 f t)"
  by (cases "(f, t)" rule: del_fix.cases) (auto split: rbt.splits)

lemma inorder_with_sibling [simp]:
  "inorder (plug1 (with_sibling f (paint c (sibling f))) t) = inorder (plug1 f t)"
  by (cases f) auto

lemma inorder_plug1: "inorder (plug1 f t) = before [f] @ inorder t @ after [f]"
  by (cases f) auto

lemma inorder_plug_cong: "inorder t = inorder u \<Longrightarrow> inorder (plug cs t) = inorder (plug cs u)"
  by (simp add: inorder_plug)

lemma inorder_far:
  "color_of (sibling f) = RB_RED \<Longrightarrow> inorder u = inorder (plug1 (near f) t) \<Longrightarrow>
   inorder (plug1 (far f) u) = inorder (plug1 f t)"
  using inorder_near_far [of f t] by (simp add: inorder_plug1)

lemma inorder_del_up: "inorder (del_up cs t) = inorder (plug cs t)"
proof (induction cs t rule: del_up.induct)
  case (2 f cs t)
  consider (red) "color_of t = RB_RED" | (sib) "color_of t \<noteq> RB_RED" "color_of (sibling f) = RB_RED"
    | (other) "color_of t \<noteq> RB_RED" "color_of (sibling f) \<noteq> RB_RED" by blast
  then show ?case
  proof cases
    case red
    then show ?thesis by (simp del: plug.simps add: inorder_plug)
  next
    case sib
    then show ?thesis
      by (auto intro!: inorder_plug_cong inorder_far)
  next
    case other
    with "2.IH" show ?thesis by (auto intro!: inorder_plug_cong)
  qed
qed simp

subsection \<open>The red-black properties\<close>

text \<open>
  A subtree whose black height is one less than its context needs, and whose root may be a
  red node with red children.
\<close>

definition deficient :: "frame list \<Rightarrow> rbt \<Rightarrow> bool" where
  "deficient cs t \<longleftrightarrow> invc (paint RB_BLACK t) \<and> invh t \<and> ctx_c cs \<and> ctx_h cs (Suc (bheight t))"

lemma bheight_paint:
  "color_of t = RB_RED \<Longrightarrow> bheight (paint RB_BLACK t) = Suc (bheight t)"
  "color_of t = RB_BLACK \<Longrightarrow> t \<noteq> Lf \<Longrightarrow> Suc (bheight (paint RB_RED t)) = bheight t"
  by (cases t; simp)+

lemma bheight_pos: "bheight t = Suc n \<Longrightarrow> t \<noteq> Lf"
  by auto

lemma deficient_recolor:
  assumes "deficient (f # cs) t" "color_of t = RB_BLACK" "color_of (sibling f) = RB_BLACK"
    "nephews_black (sibling f)"
  shows "deficient cs (plug1 (with_sibling f (paint RB_RED (sibling f))) t)"
  using assms by (cases f; cases "sibling f") (auto simp: deficient_def nephews_black_def)

lemma deficient_near:
  assumes "deficient (f # cs) t" "color_of (sibling f) = RB_RED"
  shows "deficient (near f # far f # cs) t" "color_of (sibling (near f)) = RB_BLACK"
    "fcolor (near f) = RB_RED" "fcolor (far f) = RB_BLACK"
  using assms by (cases f; cases "sibling f"; auto simp: deficient_def)+

lemma del_fix_inv:
  assumes "deficient (f # cs) t" "color_of t = RB_BLACK" "color_of (sibling f) = RB_BLACK"
    "\<not> nephews_black (sibling f)"
  shows "invc (del_fix f t)" "invh (del_fix f t)" "color_of (del_fix f t) = fcolor f"
    "bheight (del_fix f t) = Suc (bheight t) + (if fcolor f = RB_BLACK then 1 else 0)"
  using assms
  by (cases f; cases "sibling f"; auto simp: deficient_def nephews_black_def bheight_paint invc_paint_black
      split: rbt.splits)+

lemma del_fix_ok:
  assumes "deficient (f # cs) t" "color_of t = RB_BLACK" "color_of (sibling f) = RB_BLACK"
    "\<not> nephews_black (sibling f)"
  shows "rbt_ok (plug cs (del_fix f t))"
proof -
  have "ctx_c (f # cs)" "ctx_h (f # cs) (Suc (bheight t))"
    using assms(1) by (simp_all add: deficient_def)
  then show ?thesis
    unfolding rbt_ok_plug using del_fix_inv [OF assms] by (auto simp: hole_ok_def)
qed

lemma paint_red_ok:
  assumes "deficient cs t" "color_of t = RB_RED"
  shows "rbt_ok (plug cs (paint RB_BLACK t))"
  unfolding rbt_ok_plug using assms by (auto simp: deficient_def invc_paint_black bheight_paint)

lemma del_up_ok: "deficient cs t \<Longrightarrow> rbt_ok (del_up cs t)"
proof (induction cs t rule: del_up.induct)
  case (1 t)
  then show ?case by (auto simp: deficient_def rbt_ok_def invc_paint_black)
next
  case (2 f cs t)
  consider (red) "color_of t = RB_RED"
    | (sib) "color_of t = RB_BLACK" "color_of (sibling f) = RB_RED"
    | (both) "color_of t = RB_BLACK" "color_of (sibling f) = RB_BLACK" "nephews_black (sibling f)"
    | (fixup) "color_of t = RB_BLACK" "color_of (sibling f) = RB_BLACK" "\<not> nephews_black (sibling f)"
    by (cases "color_of t"; cases "color_of (sibling f)") auto
  then show ?case
  proof cases
    case red
    with paint_red_ok [OF "2.prems"] show ?thesis by simp
  next
    case sib
    note n = deficient_near [OF "2.prems" sib(2)]
    show ?thesis
    proof (cases "nephews_black (sibling (near f))")
      case True
      have "color_of (plug1 (with_sibling (near f) (paint RB_RED (sibling (near f)))) t) = RB_RED"
        using n(3) by (simp add: plug1_inv(4))
      from paint_red_ok [OF deficient_recolor [OF n(1) sib(1) n(2) True] this] True sib
      show ?thesis by simp
    next
      case False
      with del_fix_ok [OF n(1) sib(1) n(2) False] sib show ?thesis by simp
    qed
  next
    case both
    with deficient_recolor [OF "2.prems" both] "2.IH" show ?thesis by simp
  next
    case fixup
    with del_fix_ok [OF "2.prems" fixup] show ?thesis by simp
  qed
qed

subsection \<open>The parts of a turn\<close>

lemma set_color_root:
  assumes "rb m root (plug cs t)"
  shows "\<exists>m'. (if root_of t \<noteq> NULL then set_color (root_of t) c m else Some m) = Some m' \<and>
    rb m' root (plug cs (paint c t)) \<and> same_outside (set (inorder t)) m m'"
proof (cases t)
  case Lf
  with assms show ?thesis by auto
next
  case (Nd c' l a r)
  with set_color_at [of m root cs c' l a r c] assms rb_entry_at(1) [of m root cs c' l a r]
  show ?thesis by (auto simp: same_outside_def)
qed

lemma is_black_root:
  "rb m root (plug cs t) \<Longrightarrow> is_black m (root_of t) = Some (color_of t = RB_BLACK)"
  by (cases t) (auto simp: rb_plug is_black_def RB_COLOR_def entry_def)

lemma both_black_at:
  assumes "rb m root (plug cs (Nd c l a r))"
  shows "remove_both_black m a = Some (nephews_black (Nd c l a r))"
proof -
  have "rb m root (plug (InL c a r # cs) l)" "rb m root (plug (InR c l a # cs) r)"
    using assms by simp_all
  from is_black_root [OF this(1)] is_black_root [OF this(2)] rb_entry_at [OF assms]
  show ?thesis by (simp add: remove_both_black_def nephews_black_def RB_LEFT_def RB_RIGHT_def)
qed

lemma finish_fix_L:
  assumes "rb m root (plug cs (Nd c t p (Nd k sl b sr)))"
  shows "\<exists>m' root'. do {
      pc \<leftarrow> RB_COLOR m p;
      m \<leftarrow> set_color b pc m;
      m \<leftarrow> set_color p RB_BLACK m;
      r \<leftarrow> RB_RIGHT m b;
      m \<leftarrow> (if r \<noteq> NULL then set_color r RB_BLACK m else Some m);
      RB_ROTATE_LEFT p (m, root) } = Some (m', root') \<and>
    rb m' root' (plug cs (Nd c (Nd RB_BLACK t p sl) b (paint RB_BLACK sr))) \<and>
    same_outside (set (inorder (plug cs (Nd c t p (Nd k sl b sr))))) m m'"
proof -
  have "rb m root (plug (InR c t p # cs) (Nd k sl b sr))" using assms by simp
  from set_color_at [OF this, of c] obtain m1 where m1: "set_color b c m = Some m1"
    "rb m1 root (plug cs (Nd c t p (Nd c sl b sr)))" "same_outside {b} m m1" by auto
  from set_color_at [OF m1(2), of RB_BLACK] obtain m2 where m2: "set_color p RB_BLACK m1 = Some m2"
    "rb m2 root (plug (InR RB_BLACK t p # cs) (Nd c sl b sr))" "same_outside {p} m1 m2" by auto
  have "rb m2 root (plug (InR c sl b # InR RB_BLACK t p # cs) sr)" using m2(2) by simp
  from set_color_root [OF this, of RB_BLACK] obtain m3 where
    m3: "(if root_of sr \<noteq> NULL then set_color (root_of sr) RB_BLACK m2 else Some m2) = Some m3"
      "rb m3 root (plug cs (Nd RB_BLACK t p (Nd c sl b (paint RB_BLACK sr))))"
      "same_outside (set (inorder sr)) m2 m3" by auto
  from rotate_left_at [OF m3(2)] obtain m' root' where
    m': "RB_ROTATE_LEFT p (m3, root) = Some (m', root')"
      "rb m' root' (plug cs (Nd c (Nd RB_BLACK t p sl) b (paint RB_BLACK sr)))"
      "same_outside (set (inorder (plug cs (Nd RB_BLACK t p (Nd c sl b (paint RB_BLACK sr)))))) m3 m'"
    by blast
  have "RB_COLOR m p = Some c" "RB_RIGHT m2 b = Some (root_of sr)"
    using rb_entry_at [OF assms] rb_entry_at [OF m2(2)] by (simp_all add: rb_fields)
  with m1(1) m2(1) m3(1) m'(1,2) show ?thesis
    using m1(3) m2(3) m3(3) m'(3) by (auto simp: same_outside_def inorder_plug)
qed

lemma finish_fix_R:
  assumes "rb m root (plug cs (Nd c (Nd k sl b sr) p t))"
  shows "\<exists>m' root'. do {
      pc \<leftarrow> RB_COLOR m p;
      m \<leftarrow> set_color b pc m;
      m \<leftarrow> set_color p RB_BLACK m;
      l \<leftarrow> RB_LEFT m b;
      m \<leftarrow> (if l \<noteq> NULL then set_color l RB_BLACK m else Some m);
      RB_ROTATE_RIGHT p (m, root) } = Some (m', root') \<and>
    rb m' root' (plug cs (Nd c (paint RB_BLACK sl) b (Nd RB_BLACK sr p t))) \<and>
    same_outside (set (inorder (plug cs (Nd c (Nd k sl b sr) p t)))) m m'"
proof -
  have "rb m root (plug (InL c p t # cs) (Nd k sl b sr))" using assms by simp
  from set_color_at [OF this, of c] obtain m1 where m1: "set_color b c m = Some m1"
    "rb m1 root (plug cs (Nd c (Nd c sl b sr) p t))" "same_outside {b} m m1" by auto
  from set_color_at [OF m1(2), of RB_BLACK] obtain m2 where m2: "set_color p RB_BLACK m1 = Some m2"
    "rb m2 root (plug (InL RB_BLACK p t # cs) (Nd c sl b sr))" "same_outside {p} m1 m2" by auto
  have "rb m2 root (plug (InL c b sr # InL RB_BLACK p t # cs) sl)" using m2(2) by simp
  from set_color_root [OF this, of RB_BLACK] obtain m3 where
    m3: "(if root_of sl \<noteq> NULL then set_color (root_of sl) RB_BLACK m2 else Some m2) = Some m3"
      "rb m3 root (plug cs (Nd RB_BLACK (Nd c (paint RB_BLACK sl) b sr) p t))"
      "same_outside (set (inorder sl)) m2 m3" by auto
  from rotate_right_at [OF m3(2)] obtain m' root' where
    m': "RB_ROTATE_RIGHT p (m3, root) = Some (m', root')"
      "rb m' root' (plug cs (Nd c (paint RB_BLACK sl) b (Nd RB_BLACK sr p t)))"
      "same_outside (set (inorder (plug cs (Nd RB_BLACK (Nd c (paint RB_BLACK sl) b sr) p t)))) m3 m'"
    by blast
  have "RB_COLOR m p = Some c" "RB_LEFT m2 b = Some (root_of sl)"
    using rb_entry_at [OF assms] rb_entry_at [OF m2(2)] by (simp_all add: rb_fields)
  with m1(1) m2(1) m3(1) m'(1,2) show ?thesis
    using m1(3) m2(3) m3(3) m'(3) by (auto simp: same_outside_def inorder_plug)
qed

lemma remove_fix_L_at:
  assumes T: "rb m root (plug cs (Nd c t p (Nd k sl b sr)))"
    and n: "\<not> nephews_black (Nd k sl b sr)"
  shows "\<exists>m' root'. remove_fix_L p b (m, root) = Some (m', root') \<and>
    rb m' root' (plug cs (del_fix (InL c p (Nd k sl b sr)) t)) \<and>
    same_outside (set (inorder (plug cs (Nd c t p (Nd k sl b sr))))) m m'"
proof -
  have Tb: "rb m root (plug (InR c t p # cs) (Nd k sl b sr))"
    and Tsr: "rb m root (plug (InR k sl b # InR c t p # cs) sr)"
    and Tsl: "rb m root (plug (InL k b sr # InR c t p # cs) sl)" using T by simp_all
  note e = rb_entry_at [OF Tb] and blk = is_black_root [OF Tsr]
  show ?thesis
  proof (cases "color_of sr = RB_BLACK")
    case False
    with finish_fix_L [OF T] e blk show ?thesis
      by (auto simp: remove_fix_L_def RB_RIGHT_def)
  next
    case True
    then obtain sll x slr where sl: "sl = Nd RB_RED sll x slr"
      using n by (cases sl) (auto simp: nephews_black_def)
    from set_color_root [OF Tsl, of RB_BLACK] obtain m1 where
      m1: "(if x \<noteq> NULL then set_color x RB_BLACK m else Some m) = Some m1"
        "rb m1 root (plug (InR c t p # cs) (Nd k (Nd RB_BLACK sll x slr) b sr))"
        "same_outside (set (inorder sl)) m m1" unfolding sl by (auto cong: if_cong)
    from set_color_at [OF m1(2), of RB_RED] obtain m2 where m2: "set_color b RB_RED m1 = Some m2"
      "rb m2 root (plug (InR c t p # cs) (Nd RB_RED (Nd RB_BLACK sll x slr) b sr))"
      "same_outside {b} m1 m2" by auto
    from rotate_right_at [OF m2(2)] obtain m3 root3 where
      m3: "RB_ROTATE_RIGHT b (m2, root) = Some (m3, root3)"
        "rb m3 root3 (plug cs (Nd c t p (Nd RB_BLACK sll x (Nd RB_RED slr b sr))))"
        "same_outside (set (inorder (plug (InR c t p # cs) (Nd RB_RED (Nd RB_BLACK sll x slr) b sr)))) m2 m3"
      by auto
    from finish_fix_L [OF m3(2)] obtain m' root' where m': "do {
        pc \<leftarrow> RB_COLOR m3 p;
        m \<leftarrow> set_color x pc m3;
        m \<leftarrow> set_color p RB_BLACK m;
        r \<leftarrow> RB_RIGHT m x;
        m \<leftarrow> (if r \<noteq> NULL then set_color r RB_BLACK m else Some m);
        RB_ROTATE_LEFT p (m, root3) } = Some (m', root')"
      "rb m' root' (plug cs (Nd c (Nd RB_BLACK t p sll) x (Nd RB_BLACK slr b sr)))"
      "same_outside (set (inorder (plug cs (Nd c t p (Nd RB_BLACK sll x (Nd RB_RED slr b sr)))))) m3 m'"
      by auto
    have reads: "RB_RIGHT m b = Some (root_of sr)" "RB_LEFT m b = Some x" "RB_RIGHT m3 p = Some x"
      using e sl rb_entry_at [OF m3(2)] by (simp_all add: rb_fields)
    have "remove_fix_L p b (m, root) = Some (m', root')"
      unfolding remove_fix_L_def using reads blk True m1(1) m2(1) m3(1) m'(1)
      by (simp del: bind_eq_Some_conv)
    moreover have "same_outside (set (inorder (plug cs (Nd c t p (Nd k sl b sr))))) m m'"
      using m1(3) m2(3) m3(3) m'(3) by (auto simp: same_outside_def inorder_plug sl)
    ultimately show ?thesis using m'(2) True sl by auto
  qed
qed

lemma remove_fix_R_at:
  assumes T: "rb m root (plug cs (Nd c (Nd k sl b sr) p t))"
    and n: "\<not> nephews_black (Nd k sl b sr)"
  shows "\<exists>m' root'. remove_fix_R p b (m, root) = Some (m', root') \<and>
    rb m' root' (plug cs (del_fix (InR c (Nd k sl b sr) p) t)) \<and>
    same_outside (set (inorder (plug cs (Nd c (Nd k sl b sr) p t)))) m m'"
proof -
  have Tb: "rb m root (plug (InL c p t # cs) (Nd k sl b sr))"
    and Tsr: "rb m root (plug (InR k sl b # InL c p t # cs) sr)"
    and Tsl: "rb m root (plug (InL k b sr # InL c p t # cs) sl)" using T by simp_all
  note e = rb_entry_at [OF Tb] and blk = is_black_root [OF Tsl]
  show ?thesis
  proof (cases "color_of sl = RB_BLACK")
    case False
    with finish_fix_R [OF T] e blk show ?thesis
      by (auto simp: remove_fix_R_def RB_LEFT_def)
  next
    case True
    then obtain srl x srr where sr: "sr = Nd RB_RED srl x srr"
      using n by (cases sr) (auto simp: nephews_black_def)
    from set_color_root [OF Tsr, of RB_BLACK] obtain m1 where
      m1: "(if x \<noteq> NULL then set_color x RB_BLACK m else Some m) = Some m1"
        "rb m1 root (plug (InL c p t # cs) (Nd k sl b (Nd RB_BLACK srl x srr)))"
        "same_outside (set (inorder sr)) m m1" unfolding sr by (auto cong: if_cong)
    from set_color_at [OF m1(2), of RB_RED] obtain m2 where m2: "set_color b RB_RED m1 = Some m2"
      "rb m2 root (plug (InL c p t # cs) (Nd RB_RED sl b (Nd RB_BLACK srl x srr)))"
      "same_outside {b} m1 m2" by auto
    from rotate_left_at [OF m2(2)] obtain m3 root3 where
      m3: "RB_ROTATE_LEFT b (m2, root) = Some (m3, root3)"
        "rb m3 root3 (plug cs (Nd c (Nd RB_BLACK (Nd RB_RED sl b srl) x srr) p t))"
        "same_outside (set (inorder (plug (InL c p t # cs) (Nd RB_RED sl b (Nd RB_BLACK srl x srr))))) m2 m3"
      by auto
    from finish_fix_R [OF m3(2)] obtain m' root' where m': "do {
        pc \<leftarrow> RB_COLOR m3 p;
        m \<leftarrow> set_color x pc m3;
        m \<leftarrow> set_color p RB_BLACK m;
        l \<leftarrow> RB_LEFT m x;
        m \<leftarrow> (if l \<noteq> NULL then set_color l RB_BLACK m else Some m);
        RB_ROTATE_RIGHT p (m, root3) } = Some (m', root')"
      "rb m' root' (plug cs (Nd c (Nd RB_BLACK sl b srl) x (Nd RB_BLACK srr p t)))"
      "same_outside (set (inorder (plug cs (Nd c (Nd RB_BLACK (Nd RB_RED sl b srl) x srr) p t)))) m3 m'"
      by auto
    have reads: "RB_LEFT m b = Some (root_of sl)" "RB_RIGHT m b = Some x" "RB_LEFT m3 p = Some x"
      using e sr rb_entry_at [OF m3(2)] by (simp_all add: rb_fields)
    have "remove_fix_R p b (m, root) = Some (m', root')"
      unfolding remove_fix_R_def using reads blk True m1(1) m2(1) m3(1) m'(1)
      by (simp del: bind_eq_Some_conv)
    moreover have "same_outside (set (inorder (plug cs (Nd c (Nd k sl b sr) p t)))) m m'"
      using m1(3) m2(3) m3(3) m'(3) by (auto simp: same_outside_def inorder_plug sr)
    ultimately show ?thesis using m'(2) True sr by auto
  qed
qed

lemma red_sibling_black:
  "rb m root (plug cs (Nd c t p (Nd RB_BLACK sl b sr))) \<Longrightarrow>
   remove_red_sibling_L p (m, root) = Some (b, m, root)"
  "rb m root (plug cs (Nd c (Nd RB_BLACK sl b sr) p t)) \<Longrightarrow>
   remove_red_sibling_R p (m, root) = Some (b, m, root)"
  using rb_entry_at [of m root cs c t p "Nd RB_BLACK sl b sr"]
    rb_entry_at [of m root "InR c t p # cs" RB_BLACK sl b sr]
    rb_entry_at [of m root cs c "Nd RB_BLACK sl b sr" p t]
    rb_entry_at [of m root "InL c p t # cs" RB_BLACK sl b sr]
  by (simp_all add: remove_red_sibling_L_def remove_red_sibling_R_def rb_fields)

lemma red_sibling_red:
  assumes "rb m root (plug (f # cs) t)" "color_of (sibling f) = RB_RED"
  shows "\<exists>m' root'. (case f of InL _ _ _ \<Rightarrow> remove_red_sibling_L | InR _ _ _ \<Rightarrow> remove_red_sibling_R)
      (faddr f) (m, root) = Some (root_of (sibling (near f)), m', root') \<and>
    rb m' root' (plug (near f # far f # cs) t) \<and>
    same_outside (set (inorder (plug (f # cs) t))) m m'"
proof (cases f)
  case (InL c p s)
  then obtain sl b sr where s: "s = Nd RB_RED sl b sr" using assms(2) by (cases s) auto
  have T: "rb m root (plug cs (plug1 (InR c t p) (Nd RB_RED sl b sr)))" using assms(1) InL s by simp
  from set_blackred_at [OF T] obtain m1 where m1: "RB_SET_BLACKRED b p m = Some m1"
    "rb m1 root (plug cs (Nd RB_RED t p (Nd RB_BLACK sl b sr)))" "same_outside {b, p} m m1" by auto
  from rotate_left_at [OF m1(2)] obtain m' root' where
    m': "RB_ROTATE_LEFT p (m1, root) = Some (m', root')"
      "rb m' root' (plug (InL RB_BLACK b sr # cs) (Nd RB_RED t p sl))"
      "same_outside (set (inorder (plug cs (Nd RB_RED t p (Nd RB_BLACK sl b sr))))) m1 m'" by auto
  have "RB_RIGHT m p = Some b" "RB_COLOR m b = Some RB_RED" "RB_RIGHT m' p = Some (root_of sl)"
    using rb_entry_at [of m root cs c t p "Nd RB_RED sl b sr"]
      rb_entry_at [of m root "InR c t p # cs" RB_RED sl b sr] rb_entry_at [OF m'(2)] T
    by (simp_all add: rb_fields)
  then show ?thesis using m1 m' InL s
    by (auto simp: remove_red_sibling_L_def same_outside_def inorder_plug)
next
  case (InR c s p)
  then obtain sl b sr where s: "s = Nd RB_RED sl b sr" using assms(2) by (cases s) auto
  have T: "rb m root (plug cs (plug1 (InL c p t) (Nd RB_RED sl b sr)))" using assms(1) InR s by simp
  from set_blackred_at [OF T] obtain m1 where m1: "RB_SET_BLACKRED b p m = Some m1"
    "rb m1 root (plug cs (Nd RB_RED (Nd RB_BLACK sl b sr) p t))" "same_outside {b, p} m m1" by auto
  from rotate_right_at [OF m1(2)] obtain m' root' where
    m': "RB_ROTATE_RIGHT p (m1, root) = Some (m', root')"
      "rb m' root' (plug (InR RB_BLACK sl b # cs) (Nd RB_RED sr p t))"
      "same_outside (set (inorder (plug cs (Nd RB_RED (Nd RB_BLACK sl b sr) p t)))) m1 m'" by auto
  have "RB_LEFT m p = Some b" "RB_COLOR m b = Some RB_RED" "RB_LEFT m' p = Some (root_of sr)"
    using rb_entry_at [of m root cs c "Nd RB_RED sl b sr" p t]
      rb_entry_at [of m root "InL c p t # cs" RB_RED sl b sr] rb_entry_at [OF m'(2)] T
    by (simp_all add: rb_fields)
  then show ?thesis using m1 m' InR s
    by (auto simp: remove_red_sibling_R_def same_outside_def inorder_plug)
qed

subsection \<open>A turn of the loop\<close>

text \<open>A turn at a frame: the case of a red sibling, then the rest.\<close>

definition red_sibling_of :: "frame \<Rightarrow> ptr \<Rightarrow> rb_head \<Rightarrow> (ptr \<times> rb_head) option" where
  "red_sibling_of f = (case f of InL _ _ _ \<Rightarrow> remove_red_sibling_L | InR _ _ _ \<Rightarrow> remove_red_sibling_R)"

definition remove_rest ::
  "frame \<Rightarrow> ptr \<times> rb_head \<Rightarrow> ((ptr \<times> ptr) \<times> rb_head + ptr \<times> rb_head) option" where
  "remove_rest f = (\<lambda>(tmp, m, root). do {
     bb \<leftarrow> remove_both_black m tmp;
     if bb then do {
       m \<leftarrow> set_color tmp RB_RED m;
       up \<leftarrow> RB_PARENT m (faddr f);
       Some (Inl ((up, faddr f), m, root)) }
     else do {
       (m, root) \<leftarrow> (case f of InL _ _ _ \<Rightarrow> remove_fix_L | InR _ _ _ \<Rightarrow> remove_fix_R) (faddr f) tmp (m, root);
       Some (Inr (root, m, root)) } })"

lemma root_of_plug_in: "cs \<noteq> [] \<Longrightarrow> root_of (plug cs t) \<in> set (before cs) \<union> set (after cs)"
proof (induction cs arbitrary: t)
  case (Cons f cs)
  show ?case
  proof (cases "cs = []")
    case True
    then show ?thesis by (cases f) auto
  next
    case False
    with Cons.IH [of "plug1 f t"] show ?thesis by (cases f) auto
  qed
qed simp

lemma hole_not_root:
  assumes "rb m root (plug cs t)" "cs \<noteq> []"
  shows "root_of t \<noteq> root"
proof -
  have "root \<in> set (before cs) \<union> set (after cs)"
    using assms root_of_plug_in [of cs t] by (auto simp: rb_def)
  moreover have "NULL \<notin> set (before cs) \<union> set (after cs)" "distinct (before cs @ inorder t @ after cs)"
    using assms(1) ctx_at_NULL by (auto simp: rb_plug)
  ultimately show ?thesis using root_of_in [of t] by (cases t) auto
qed

lemma hole_left:
  assumes "rb m root (plug (f # cs) t)" "sibling f \<noteq> Lf"
  shows "RB_LEFT m (faddr f) = Some (case f of InL _ _ _ \<Rightarrow> root_of t | InR _ _ _ \<Rightarrow> root_of (sibling f))"
    "root_of (sibling f) \<noteq> root_of t"
proof -
  show "RB_LEFT m (faddr f) = Some (case f of InL _ _ _ \<Rightarrow> root_of t | InR _ _ _ \<Rightarrow> root_of (sibling f))"
    using assms(1) by (cases f) (auto simp: rb_plug rb_fields entry_def)
  have "root_of (sibling f) \<in> set (inorder (sibling f))" "NULL \<notin> set (inorder (sibling f))"
    "set (inorder (sibling f)) \<inter> set (inorder t) = {}"
    using assms root_of_in tree_at_NULL by (cases f; auto simp: rb_plug)+
  then show "root_of (sibling f) \<noteq> root_of t"
    using root_of_in [of t] by (metis IntI emptyE root_of.simps(1))
qed

lemma remove_turn_split:
  assumes "rb m root (plug (f # cs) t)" "sibling f \<noteq> Lf" "color_of t = RB_BLACK"
  shows "RB_REMOVE_COLOR_turn (faddr f) (root_of t) (m, root) =
    Option.bind (red_sibling_of f (faddr f) (m, root)) (remove_rest f)"
  using hole_left [OF assms(1,2)] hole_not_root [OF assms(1)] is_black_root [OF assms(1)] assms(3)
  by (cases f) (auto simp: RB_REMOVE_COLOR_turn_def red_sibling_of_def remove_rest_def
      cong: if_cong)

lemma remove_turn_stop:
  assumes "rb m root (plug cs t)" "cs = [] \<or> color_of t = RB_RED"
  shows "RB_REMOVE_COLOR_turn p (root_of t) (m, root) = Some (Inr (root_of t, m, root))"
  using is_black_root [OF assms(1)] assms by (auto simp: RB_REMOVE_COLOR_turn_def rb_def)

lemma rest_recolor:
  assumes "rb m root (plug (f # cs) t)" "sibling f \<noteq> Lf" "nephews_black (sibling f)"
  shows "\<exists>m'. remove_rest f (root_of (sibling f), m, root) = Some (Inl ((up cs, faddr f), m', root)) \<and>
    rb m' root (plug cs (plug1 (with_sibling f (paint RB_RED (sibling f))) t)) \<and>
    same_outside (set (inorder (plug (f # cs) t))) m m'"
proof -
  obtain k sl b sr where s: "sibling f = Nd k sl b sr" using assms(2) by (cases "sibling f") auto
  have T: "rb m root (plug (turn_over f t # cs) (Nd k sl b sr))"
    using assms(1) s turn_over_simps(1) [of f t] by simp
  from set_color_at [OF T, of RB_RED] obtain m1 where m1: "set_color b RB_RED m = Some m1"
    "rb m1 root (plug cs (plug1 (with_sibling f (Nd RB_RED sl b sr)) t))" "same_outside {b} m m1" by auto
  obtain l' r' where f: "plug1 (with_sibling f (Nd RB_RED sl b sr)) t = Nd (fcolor f) l' (faddr f) r'"
    using plug1_Nd [of "with_sibling f (Nd RB_RED sl b sr)" t] by auto
  have "RB_PARENT m1 (faddr f) = Some (up cs)"
    using rb_entry_at [OF m1(2) [unfolded f]] by (simp add: RB_PARENT_def)
  moreover have "b \<in> set (inorder (plug (f # cs) t))" using s by (cases f) (auto simp: inorder_plug)
  then have "same_outside (set (inorder (plug (f # cs) t))) m m1" using same_outside_mono [OF m1(3)] by simp
  ultimately show ?thesis
    using both_black_at [OF T] assms(3) s m1(1,2) by (auto simp: remove_rest_def)
qed

lemma rest_fix:
  assumes "rb m root (plug (f # cs) t)" "sibling f \<noteq> Lf" "\<not> nephews_black (sibling f)"
  shows "\<exists>m' root'. remove_rest f (root_of (sibling f), m, root) = Some (Inr (root', m', root')) \<and>
    rb m' root' (plug cs (del_fix f t)) \<and> same_outside (set (inorder (plug (f # cs) t))) m m'"
proof -
  obtain k sl b sr where s: "sibling f = Nd k sl b sr" using assms(2) by (cases "sibling f") auto
  have T: "rb m root (plug (turn_over f t # cs) (Nd k sl b sr))"
    using assms(1) s turn_over_simps(1) [of f t] by simp
  note bb = both_black_at [OF T]
  show ?thesis
  proof (cases f)
    case (InL c p r)
    with remove_fix_L_at [of m root cs c t p k sl b sr] assms s bb show ?thesis
      by (auto simp: remove_rest_def simp del: del_fix.simps)
  next
    case (InR c l p)
    with remove_fix_R_at [of m root cs c k sl b sr p t] assms s bb show ?thesis
      by (auto simp: remove_rest_def simp del: del_fix.simps)
  qed
qed

lemma red_sibling_at:
  assumes "rb m root (plug (f # cs) t)" "sibling f \<noteq> Lf"
  shows "color_of (sibling f) = RB_BLACK \<Longrightarrow>
      red_sibling_of f (faddr f) (m, root) = Some (root_of (sibling f), m, root)"
    and "color_of (sibling f) = RB_RED \<Longrightarrow>
      \<exists>m' root'. red_sibling_of f (faddr f) (m, root) = Some (root_of (sibling (near f)), m', root') \<and>
        rb m' root' (plug (near f # far f # cs) t) \<and>
        same_outside (set (inorder (plug (f # cs) t))) m m'"
proof -
  show "red_sibling_of f (faddr f) (m, root) = Some (root_of (sibling f), m, root)"
    if "color_of (sibling f) = RB_BLACK"
    using assms that red_sibling_black [of m root cs]
    by (cases f; cases "sibling f") (auto simp: red_sibling_of_def)
qed (use red_sibling_red [OF assms(1)] in \<open>simp add: red_sibling_of_def\<close>)

subsection \<open>The loop\<close>

lemma remove_loop_stop:
  "RB_REMOVE_COLOR_turn p x h = Some (Inr r) \<Longrightarrow> RB_REMOVE_COLOR_loop p x h = Some r"
  by (subst RB_REMOVE_COLOR_loop.simps) simp

lemma remove_loop_step:
  "RB_REMOVE_COLOR_turn p x h = Some (Inl ((p', x'), h')) \<Longrightarrow>
   RB_REMOVE_COLOR_loop p x h = RB_REMOVE_COLOR_loop p' x' h'"
  by (subst RB_REMOVE_COLOR_loop.simps) simp

text \<open>The loop ends at a node whose painting black, which follows, gives the tree \<open>u\<close>.\<close>

definition loop_gives :: "ptr \<Rightarrow> ptr \<Rightarrow> rb_mem \<Rightarrow> ptr \<Rightarrow> rbt \<Rightarrow> ptr set \<Rightarrow> bool" where
  "loop_gives p x m root u A \<longleftrightarrow>
     (\<exists>cs t m' root'. RB_REMOVE_COLOR_loop p x (m, root) = Some (root_of t, m', root') \<and>
        rb m' root' (plug cs t) \<and> plug cs (paint RB_BLACK t) = u \<and> same_outside A m m')"

lemma loop_givesI:
  "RB_REMOVE_COLOR_loop p x (m, root) = Some (root_of t, m', root') \<Longrightarrow> rb m' root' (plug cs t) \<Longrightarrow>
   plug cs (paint RB_BLACK t) = u \<Longrightarrow> same_outside A m m' \<Longrightarrow> loop_gives p x m root u A"
  unfolding loop_gives_def by blast

lemma loop_gives_stop:
  assumes "rb m root (plug cs t)" "cs = [] \<or> color_of t = RB_RED"
  shows "loop_gives p (root_of t) m root (plug cs (paint RB_BLACK t)) A"
  by (rule loop_givesI [OF remove_loop_stop [OF remove_turn_stop [OF assms]] assms(1)]) auto

lemma loop_gives_step:
  assumes "RB_REMOVE_COLOR_turn p x (m, root) = Some (Inl ((p', x'), m', root'))"
    and "loop_gives p' x' m' root' u A" "same_outside A m m'"
  shows "loop_gives p x m root u A"
  using assms(2,3) remove_loop_step [OF assms(1)] unfolding loop_gives_def
  by (metis same_outside_trans)

lemma loop_gives_break:
  assumes "RB_REMOVE_COLOR_turn p x (m, root) = Some (Inr (root', m', root'))"
    and "rb m' root' u" "rbt_ok u" "same_outside A m m'"
  shows "loop_gives p x m root u A"
  using assms remove_loop_stop [OF assms(1)]
  by (intro loop_givesI [where t = u and cs = "[]"]) (auto simp: rb_def rbt_ok_def)

text \<open>The two ways a turn ends once the sibling is black.\<close>

lemma turn_black_sibling:
  assumes T: "rb m root (plug (f # cs) t)" and d: "deficient (f # cs) t"
    and c: "color_of t = RB_BLACK" "color_of (sibling f) = RB_BLACK"
  shows "RB_REMOVE_COLOR_turn (faddr f) (root_of t) (m, root) =
    remove_rest f (root_of (sibling f), m, root)" "sibling f \<noteq> Lf"
proof -
  show s: "sibling f \<noteq> Lf" using d by (auto simp: deficient_def)
  show "RB_REMOVE_COLOR_turn (faddr f) (root_of t) (m, root) =
    remove_rest f (root_of (sibling f), m, root)"
    using remove_turn_split [OF T s c(1)] red_sibling_at(1) [OF T s c(2)] by simp
qed

lemma turn_red_sibling:
  assumes T: "rb m root (plug (f # cs) t)" and d: "deficient (f # cs) t"
    and c: "color_of t = RB_BLACK" "color_of (sibling f) = RB_RED"
  shows "\<exists>m' root'. RB_REMOVE_COLOR_turn (faddr f) (root_of t) (m, root) =
      remove_rest (near f) (root_of (sibling (near f)), m', root') \<and>
    rb m' root' (plug (near f # far f # cs) t) \<and> sibling (near f) \<noteq> Lf \<and>
    same_outside (set (inorder (plug (f # cs) t))) m m'"
proof -
  have s: "sibling f \<noteq> Lf" using c(2) by auto
  have "sibling (near f) \<noteq> Lf" using deficient_near(1) [OF d c(2)] by (auto simp: deficient_def)
  moreover have "remove_rest (near f) = remove_rest f"
    using c(2) by (cases f; cases "sibling f") (auto simp: remove_rest_def cong: if_cong)
  ultimately show ?thesis
    using remove_turn_split [OF T s c(1)] red_sibling_at(2) [OF T s c(2)] by fastforce
qed

lemma inorder_near_far_plug:
  "color_of (sibling f) = RB_RED \<Longrightarrow> inorder (plug (near f # far f # cs) t) = inorder (plug (f # cs) t)"
  by (simp add: inorder_plug inorder_near_far)

lemma remove_loop_red_sibling:
  assumes T: "rb m root (plug (f # cs) t)" and d: "deficient (f # cs) t"
    and c: "color_of t = RB_BLACK" "color_of (sibling f) = RB_RED"
  shows "loop_gives (faddr f) (root_of t) m root (del_up (f # cs) t) (set (inorder (plug (f # cs) t)))"
proof -
  let ?A = "set (inorder (plug (f # cs) t))"
  obtain m1 root1 where m1: "RB_REMOVE_COLOR_turn (faddr f) (root_of t) (m, root) =
      remove_rest (near f) (root_of (sibling (near f)), m1, root1)"
    "rb m1 root1 (plug (near f # far f # cs) t)" "sibling (near f) \<noteq> Lf" "same_outside ?A m m1"
    using turn_red_sibling [OF T d c] by blast
  note io = inorder_near_far_plug [OF c(2), of cs t]
  show ?thesis
  proof (cases "nephews_black (sibling (near f))")
    case True
    let ?u = "plug1 (with_sibling (near f) (paint RB_RED (sibling (near f)))) t"
    obtain m2 where m2: "remove_rest (near f) (root_of (sibling (near f)), m1, root1) =
        Some (Inl ((up (far f # cs), faddr (near f)), m2, root1))"
      "rb m2 root1 (plug (far f # cs) ?u)"
      "same_outside ?A m1 m2"
      using rest_recolor [OF m1(2,3) True] unfolding io by blast
    have "color_of ?u = RB_RED" "root_of ?u = faddr (near f)"
      using deficient_near(3) [OF d c(2)] plug1_Nd [of "with_sibling (near f) (paint RB_RED (sibling (near f)))" t]
      by auto
    with loop_gives_stop [OF m2(2), of "up (far f # cs)" ?A]
    have "loop_gives (up (far f # cs)) (faddr (near f)) m2 root1 (plug (far f # cs) (paint RB_BLACK ?u)) ?A"
      by simp
    from loop_gives_step [OF _ this same_outside_trans [OF m1(4) m2(3)]] m1(1) m2(1) True c
    show ?thesis by simp
  next
    case False
    obtain m2 root2 where m2: "remove_rest (near f) (root_of (sibling (near f)), m1, root1) =
        Some (Inr (root2, m2, root2))"
      "rb m2 root2 (plug (far f # cs) (del_fix (near f) t))" "same_outside ?A m1 m2"
      using rest_fix [OF m1(2,3) False] unfolding io by blast
    with m1 False c del_up_ok [OF d] show ?thesis
      by (intro loop_gives_break [of _ _ m root root2 m2]) (auto intro: same_outside_trans)
  qed
qed

lemma remove_color_loop_at:
  assumes "rb m root (plug cs t)" "deficient cs t"
  shows "loop_gives (up cs) (root_of t) m root (del_up cs t) (set (inorder (plug cs t)))"
  using assms
proof (induction cs t arbitrary: m root rule: del_up.induct)
  case (1 t)
  with loop_gives_stop [of m root "[]" t] show ?case by simp
next
  case (2 f cs t)
  note T = "2.prems"(1) and d = "2.prems"(2)
  let ?A = "set (inorder (plug (f # cs) t))"
  consider (red) "color_of t = RB_RED"
    | (sib) "color_of t = RB_BLACK" "color_of (sibling f) = RB_RED"
    | (both) "color_of t = RB_BLACK" "color_of (sibling f) = RB_BLACK" "nephews_black (sibling f)"
    | (fixup) "color_of t = RB_BLACK" "color_of (sibling f) = RB_BLACK" "\<not> nephews_black (sibling f)"
    by (cases "color_of t"; cases "color_of (sibling f)") auto
  then show ?case
  proof cases
    case red
    with loop_gives_stop [OF T] show ?thesis by simp
  next
    case sib
    with remove_loop_red_sibling [OF T d] show ?thesis by simp
  next
    case both
    let ?u = "plug1 (with_sibling f (paint RB_RED (sibling f))) t"
    note turn = turn_black_sibling [OF T d both(1,2)]
    obtain m1 where m1: "remove_rest f (root_of (sibling f), m, root) = Some (Inl ((up cs, faddr f), m1, root))"
      "rb m1 root (plug cs ?u)" "same_outside ?A m m1"
      using rest_recolor [OF T turn(2) both(3)] by blast
    have u: "root_of ?u = faddr f" "inorder (plug cs ?u) = inorder (plug (f # cs) t)"
      using plug1_Nd [of "with_sibling f (paint RB_RED (sibling f))" t] by (auto simp: inorder_plug)
    have "loop_gives (up cs) (root_of ?u) m1 root (del_up cs ?u) (set (inorder (plug cs ?u)))"
      using both deficient_recolor [OF d both] m1(2) by (intro "2.IH") simp_all
    with loop_gives_step [of "faddr f" "root_of t" m root "up cs" "faddr f" m1 root] turn(1) m1(1,3) both
    show ?thesis unfolding u by simp
  next
    case fixup
    note turn = turn_black_sibling [OF T d fixup(1,2)]
    obtain m1 root1 where m1: "remove_rest f (root_of (sibling f), m, root) = Some (Inr (root1, m1, root1))"
      "rb m1 root1 (plug cs (del_fix f t))" "same_outside ?A m m1"
      using rest_fix [OF T turn(2) fixup(3)] by blast
    with turn(1) fixup del_up_ok [OF d] show ?thesis
      by (intro loop_gives_break [of _ _ m root root1 m1]) auto
  qed
qed

lemma remove_color_at:
  assumes "rb m root (plug cs t)" "deficient cs t"
  shows "\<exists>m' root'. RB_REMOVE_COLOR (up cs) (root_of t) (m, root) = Some (m', root') \<and>
    rb m' root' (del_up cs t) \<and> same_outside (set (inorder (plug cs t))) m m'"
proof -
  obtain cs' t' m1 root1 where l: "RB_REMOVE_COLOR_loop (up cs) (root_of t) (m, root) = Some (root_of t', m1, root1)"
    "rb m1 root1 (plug cs' t')" "plug cs' (paint RB_BLACK t') = del_up cs t"
    "same_outside (set (inorder (plug cs t))) m m1"
    using remove_color_loop_at [OF assms] unfolding loop_gives_def by blast
  obtain m2 where m2: "(if root_of t' \<noteq> NULL then set_color (root_of t') RB_BLACK m1 else Some m1) = Some m2"
    "rb m2 root1 (del_up cs t)" "same_outside (set (inorder t')) m1 m2"
    using set_color_root [OF l(2), of RB_BLACK] l(3) by auto
  have "set (inorder t') \<subseteq> set (inorder (plug cs t))"
    using arg_cong [OF l(3), of "\<lambda>u. set (inorder u)"] by (auto simp: inorder_del_up inorder_plug)
  from same_outside_trans [OF l(4) same_outside_mono [OF m2(3) this]] l(1) m2(1,2)
  show ?thesis by (auto simp: RB_REMOVE_COLOR_def)
qed

end
