(* ===== verification/Ut_RB_Unlink.thy ===== *)
theory Ut_RB_Unlink
  imports Ut_RB_Remove
begin

text \<open>
  \<^verbatim>\<open>RB_REMOVE\<close>: finding the node to unlink, unlinking it, putting it in the place of the removed
  node when that has two children, and repairing the colours.
\<close>

subsection \<open>Unlinking a node with at most one child\<close>

lemma tree_at_reparent_up:
  assumes "tree_at m q t" "distinct (inorder t)" "\<And>x. x \<in> set (inorder t) \<Longrightarrow> m' x = reparent t q' m x"
  shows "tree_at m' q' t"
  using tree_at_reparent [OF assms(1,2), of q'] tree_at_cong [of t m' "reparent t q' m" q'] assms(3)
  by blast

lemma unlink_at:
  assumes T: "rb m root (plug cs (Nd c l a r))"
    and k: "l = Lf \<and> k = r \<or> r = Lf \<and> k = l"
  shows "\<exists>m' root'. RB_REMOVE_unlink a (root_of k) (m, root) = Some (up cs, c, m', root') \<and>
    rb m' root' (plug cs k) \<and> same_outside (set (inorder (plug cs k))) m m'"
proof -
  have rep: "ctx_at m root cs a" "tree_at m a k" "distinct (before cs @ inorder k @ after cs)"
    "a \<noteq> NULL" "a \<notin> set (before cs) \<union> set (after cs)" "a \<notin> set (inorder k)"
    using T k by (auto simp: rb_plug)
  let ?m1 = "reparent k (up cs) m"
  have "ctx_at ?m1 root cs a"
    using rep(1,3) by (subst ctx_at_cong [of cs ?m1 m]) (auto intro!: reparent_other)
  from replace_child_at [OF this _ rep(4,5), of "root_of k"] obtain m' root' where
    m': "replace_child (up cs) a (root_of k) (?m1, root) = Some (m', root')"
      "ctx_at m' root' cs (root_of k)" "same_outside {z. cs \<noteq> [] \<and> z = up cs} ?m1 m'"
    using rep(3) by auto
  have up: "cs \<noteq> [] \<longrightarrow> up cs \<in> set (before cs) \<union> set (after cs)" using up_in by blast
  have m'o: "m' x = ?m1 x" if "x \<notin> set (before cs) \<union> set (after cs)" for x
    by (rule same_outsideD [OF m'(3)]) (use up that in blast)
  have m'k: "m' x = ?m1 x" if "x \<in> set (inorder k)" for x
    using rep(3) that by (intro m'o) auto
  have "distinct (inorder k)" using rep(3) by simp
  from tree_at_reparent_up [OF rep(2) this m'k] have "tree_at m' (up cs) k" .
  then have "rb m' root' (plug cs k)" using m'(2) rep(3) by (simp add: rb_plug)
  moreover have "same_outside (set (inorder (plug cs k))) m m'"
  proof -
    have "m' x = m x" if "x \<notin> set (inorder (plug cs k))" for x
      using that m'o [of x] by (simp add: inorder_plug reparent_other)
    moreover have "dom m' = dom m" using m'(3) dom_reparent [OF rep(2)] by (simp add: same_outside_def)
    ultimately show ?thesis by (simp add: same_outside_def)
  qed
  moreover have "RB_REMOVE_unlink a (root_of k) (m, root) = Some (up cs, c, m', root')"
    using rb_entry_at [OF T] set_parent_reparent(1) [OF rep(2), of "up cs"] m'(1)
    by (simp add: RB_REMOVE_unlink_def rb_fields del: neq0_conv bind_eq_Some_conv)
  ultimately show ?thesis by blast
qed

subsection \<open>Putting a node in the place of another\<close>

lemma take_place_at:
  assumes T: "rb m root (plug cs (Nd c l a r))" and l: "l \<noteq> Lf"
    and e: "entry m e = Some ee" "e \<notin> set (inorder (plug cs (Nd c l a r)))"
  shows "\<exists>m' root'. RB_REMOVE_replace a e (m, root) = Some (m', root') \<and>
    rb m' root' (plug cs (Nd c l e r)) \<and>
    same_outside (insert e (set (inorder (plug cs (Nd c l a r))))) m m'"
proof -
  note rep = T [unfolded rb_plug, simplified]
  let ?ea = "\<lparr>rbe_left = root_of l, rbe_right = root_of r, rbe_parent = up cs, rbe_color = c\<rparr>"
  have a: "a \<noteq> NULL" "m a = Some ?ea" using rep by auto
  have e0: "e \<noteq> NULL" "m e = Some ee" "e \<noteq> a" "e \<notin> set (inorder l)" "e \<notin> set (inorder r)"
    "e \<notin> set (before cs)" "e \<notin> set (after cs)"
    using e by (auto simp: entry_Some inorder_plug)
  let ?m1 = "m(e \<mapsto> ?ea)"
  have "ctx_at ?m1 root cs a" "distinct (before cs @ after cs)" "a \<notin> set (before cs) \<union> set (after cs)"
    using rep e0 by auto
  from replace_child_at [OF this(1,2) a(1) this(3), of e] obtain m2 root2 where
    m2: "replace_child (up cs) a e (?m1, root) = Some (m2, root2)" "ctx_at m2 root2 cs e"
      "same_outside {z. cs \<noteq> [] \<and> z = up cs} ?m1 m2" by blast
  have up: "cs \<noteq> [] \<longrightarrow> up cs \<in> set (before cs) \<union> set (after cs)" using up_in by blast
  have m2o: "m2 x = ?m1 x" if "x \<notin> set (before cs)" "x \<notin> set (after cs)" for x
    by (rule same_outsideD [OF m2(3)]) (use up that in blast)
  let ?m3 = "reparent l e m2" and ?m4 = "reparent r e (reparent l e m2)"
  have "m2 x = m x" if "x \<in> set (inorder l) \<union> set (inorder r)" for x
    using that rep e0 by (subst m2o) auto
  then have tl: "tree_at m2 a l" and tr: "tree_at m2 a r"
    using rep tree_at_cong [of l m2 m a] tree_at_cong [of r m2 m a] by auto
  have tr3: "tree_at ?m3 a r"
    using tr rep by (subst tree_at_cong [of r ?m3 m2]) (auto intro!: reparent_other)
  have reads: "m2 a = Some ?ea" "?m3 a = Some ?ea"
    using rep e0 a by (auto simp: m2o reparent_other)
  have "RB_REMOVE_replace a e (m, root) = Some (?m4, root2)"
  proof -
    have "entry m a = Some ?ea" "upd_entry e (\<lambda>_. ?ea) m = Some ?m1" "RB_PARENT ?m1 a = Some (up cs)"
      "RB_LEFT m2 a = Some (root_of l)" "RB_RIGHT ?m3 a = Some (root_of r)"
      using a e0 reads by (simp_all add: rb_fields entry_def upd_entry_def)
    moreover note m2(1) set_parent_reparent(2) [OF tl l, of e] set_parent_reparent(1) [OF tr3, of e]
    ultimately show ?thesis
      by (simp only: RB_REMOVE_replace_def prod.case Option.bind.bind_lunit)
  qed
  moreover have "rb ?m4 root2 (plug cs (Nd c l e r))"
  proof -
    have m4l: "?m4 x = ?m3 x" if "x \<in> set (inorder l)" for x
      using that rep by (intro reparent_other) auto
    have "distinct (inorder l)" using rep by auto
    from tree_at_reparent_up [OF tl this m4l] have "tree_at ?m4 e l" .
    moreover have "tree_at ?m4 e r" using tree_at_reparent [OF tr3, of e] rep by auto
    moreover have "?m4 e = Some ?ea" using e0 a by (simp add: reparent_other m2o)
    moreover have "?m4 x = m2 x" if "x \<in> set (before cs) \<union> set (after cs)" for x
    proof -
      have "x \<notin> set (inorder l)" "x \<notin> set (inorder r)" using that rep by auto
      then show ?thesis by (simp add: reparent_other)
    qed
    then have "ctx_at ?m4 root2 cs e" using m2(2) ctx_at_cong [of cs ?m4 m2 root2 e] by blast
    ultimately show ?thesis using rep e0 by (auto simp: rb_plug)
  qed
  moreover have "same_outside (insert e (set (inorder (plug cs (Nd c l a r))))) m ?m4"
  proof -
    have "dom ?m4 = dom m" using m2(3) dom_reparent [OF tl] dom_reparent [OF tr3] e0
      by (auto simp: same_outside_def)
    moreover have "?m4 x = m x" if "x \<notin> insert e (set (inorder (plug cs (Nd c l a r))))" for x
      using that by (auto simp: inorder_plug reparent_other m2o)
    ultimately show ?thesis by (simp add: same_outside_def)
  qed
  ultimately show ?thesis by blast
qed

subsection \<open>The loops on the way down and up\<close>

lemma leftmost_at:
  assumes "rb m root (plug cs t)" "t \<noteq> Lf"
  shows "\<exists>ds c a r. t = plug ds (Nd c Lf a r) \<and> before ds = [] \<and> leftmost m (root_of t) = Some a"
  using assms
proof (induction t arbitrary: cs)
  case (Nd c l a r)
  note e = rb_entry_at [OF Nd.prems(1)]
  show ?case
  proof (cases l)
    case Lf
    with e have "leftmost m a = Some a" by (subst leftmost.simps) (simp add: RB_LEFT_def)
    then show ?thesis using Lf by (intro exI [of _ "[]"]) auto
  next
    case (Nd c' l' a' r')
    have Tl: "rb m root (plug (InL c a r # cs) l)" using Nd.prems(1) by simp
    from Nd.IH(1) [OF this] \<open>l = Nd c' l' a' r'\<close> obtain ds c0 a0 r0 where ds: "l = plug ds (Nd c0 Lf a0 r0)"
      "before ds = []" "leftmost m (root_of l) = Some a0" by blast
    have "a' \<noteq> NULL" using Tl Nd by (auto simp: rb_plug)
    then have "leftmost m a = Some a0"
      using e Nd ds(3) by (subst leftmost.simps) (simp add: RB_LEFT_def)
    moreover have "before (ds @ [InL c a r]) = []"
      using ds(2) by (induction ds rule: before.induct) auto
    ultimately show ?thesis
      using ds(1) by (intro exI [of _ "ds @ [InL c a r]"] exI [of _ c0] exI [of _ a0] exI [of _ r0])
        (auto simp: plug_append)
  qed
qed simp

lemma augment_up_at:
  assumes "rb m root (plug cs (Nd c l a r))"
  shows "augment_up m a = Some ()"
  using assms
proof (induction cs arbitrary: c l a r)
  case Nil
  then show ?case using rb_entry_at [of m root "[]"] by (subst augment_up.simps) (simp add: RB_PARENT_def)
next
  case (Cons f cs)
  obtain l' r' where f: "plug1 f (Nd c l a r) = Nd (fcolor f) l' (faddr f) r'" using plug1_Nd by blast
  with Cons.prems have "rb m root (plug cs (Nd (fcolor f) l' (faddr f) r'))" by simp
  from Cons.IH [OF this] rb_entry_at(1) [OF this] rb_entry_at [OF Cons.prems]
  show ?case by (subst augment_up.simps) (simp add: RB_PARENT_def)
qed

subsection \<open>The case of two children\<close>

lemma up_append: "up (ds @ f # cs) = (if ds = [] then faddr f else up ds)"
  by (cases ds) auto

lemma before_after_append:
  "before (ds @ cs) = before cs @ before ds" "after (ds @ cs) = after ds @ after cs"
  by (induction ds rule: before.induct) auto

text \<open>The context of the unlinked successor, before and after it takes the place of \<open>a\<close>.\<close>

lemma remove_two_at:
  assumes T: "rb m root (plug cs (Nd c l a r))" and nl: "l \<noteq> Lf" "r \<noteq> Lf"
  shows "\<exists>ds k e er m' root'. r = plug ds (Nd k Lf e er) \<and> before ds = [] \<and>
    RB_REMOVE_two a (m, root) = Some (up (ds @ InR c l e # cs), root_of er, k, m', root') \<and>
    rb m' root' (plug (ds @ InR c l e # cs) er) \<and>
    same_outside (set (inorder (plug cs (Nd c l a r)))) m m'"
proof -
  have "rb m root (plug (InR c l a # cs) r)" using T by simp
  from leftmost_at [OF this nl(2)] obtain ds k e er where ds: "r = plug ds (Nd k Lf e er)"
    "before ds = []" "leftmost m (root_of r) = Some e" by blast
  let ?cs = "ds @ InR c l a # cs"
  have Te: "rb m root (plug ?cs (Nd k Lf e er))" using T ds(1) by (simp add: plug_append)
  note ee = rb_entry_at [OF Te]
  from unlink_at [OF Te, of er] obtain m1 root1 where
    m1: "RB_REMOVE_unlink e (root_of er) (m, root) = Some (up ?cs, k, m1, root1)"
      "rb m1 root1 (plug ?cs er)" "same_outside (set (inorder (plug ?cs er))) m m1" by blast
  have e_out: "e \<notin> set (inorder (plug ?cs er))" using Te by (auto simp: rb_plug inorder_plug)
  have m1e: "entry m1 e = entry m e" using same_outsideD [OF m1(3) e_out] by (simp add: entry_def)
  have T1: "rb m1 root1 (plug cs (Nd c l a (plug ds er)))" using m1(2) by (simp add: plug_append)
  have "e \<notin> set (inorder (plug cs (Nd c l a (plug ds er))))" using e_out by (simp add: plug_append)
  from take_place_at [OF T1 nl(1) _ this, of "the (entry m1 e)"] ee m1e obtain m' root' where
    m': "RB_REMOVE_replace a e (m1, root1) = Some (m', root')"
      "rb m' root' (plug cs (Nd c l e (plug ds er)))"
      "same_outside (insert e (set (inorder (plug cs (Nd c l a (plug ds er)))))) m1 m'" by auto
  have T2: "rb m' root' (plug (ds @ InR c l e # cs) er)" using m'(2) by (simp add: plug_append)
  have "ds = [] \<longleftrightarrow> up ?cs = a"
    using T ds(1) up_in [of ds] by (auto simp: up_append rb_plug inorder_plug)
  then have par: "(if up ?cs = a then e else up ?cs) = up (ds @ InR c l e # cs)"
    by (auto simp: up_append)
  have aug: "(if up (ds @ InR c l e # cs) \<noteq> NULL then augment_up m' (up (ds @ InR c l e # cs)) else Some ()) = Some ()"
  proof -
    obtain f ds' where f: "ds @ InR c l e # cs = f # ds'" by (cases "ds @ InR c l e # cs") auto
    obtain l' r' where "plug1 f er = Nd (fcolor f) l' (faddr f) r'" using plug1_Nd by blast
    then have "rb m' root' (plug ds' (Nd (fcolor f) l' (faddr f) r'))" using T2 f by simp
    from augment_up_at [OF this] f show ?thesis by simp
  qed
  have "RB_REMOVE_two a (m, root) = Some (up (ds @ InR c l e # cs), root_of er, k, m', root')"
    using rb_entry_at [OF T] ds(3) ee m1(1) m1e m'(1) par aug
    by (simp add: RB_REMOVE_two_def RB_RIGHT_def RB_PARENT_def del: neq0_conv)
  moreover have "same_outside (set (inorder (plug cs (Nd c l a r)))) m m'"
    using m1(3) m'(3) ds(1) by (auto simp: same_outside_def inorder_plug plug_append before_after_append)
  ultimately show ?thesis using ds T2 by blast
qed

subsection \<open>\<^verbatim>\<open>RB_REMOVE\<close>\<close>

lemma plug_at: "a \<in> set (inorder t) \<Longrightarrow> \<exists>cs c l r. t = plug cs (Nd c l a r)"
proof (induction t)
  case (Nd c l b r)
  consider "a = b" | "a \<in> set (inorder l)" | "a \<in> set (inorder r)" using Nd.prems by auto
  then show ?case
  proof cases
    case 1
    then show ?thesis by (intro exI [of _ "[]"]) auto
  next
    case 2
    with Nd.IH(1) obtain cs c' l' r' where "l = plug cs (Nd c' l' a r')" by blast
    then show ?thesis by (intro exI [of _ "cs @ [InL c b r]"]) (auto simp: plug_append)
  next
    case 3
    with Nd.IH(2) obtain cs c' l' r' where "r = plug cs (Nd c' l' a r')" by blast
    then show ?thesis by (intro exI [of _ "cs @ [InR c l b]"]) (auto simp: plug_append)
  qed
qed simp

text \<open>The context conditions do not depend on the address in a frame.\<close>

lemma ctx_readdress:
  "ctx_h (ds @ InR c l a # cs) n = ctx_h (ds @ InR c l b # cs) n"
  "ctx_c (ds @ InR c l a # cs) = ctx_c (ds @ InR c l b # cs)"
proof -
  show "ctx_h (ds @ InR c l a # cs) n = ctx_h (ds @ InR c l b # cs) n"
    by (induction ds arbitrary: n) auto
  have "fcolor (hd (ds @ InR c l a # cs)) = fcolor (hd (ds @ InR c l b # cs))" for ds
    by (cases ds) auto
  then show "ctx_c (ds @ InR c l a # cs) = ctx_c (ds @ InR c l b # cs)"
    by (induction ds) auto
qed

text \<open>
  The end of \<^verbatim>\<open>RB_REMOVE\<close>, after a node of colour \<open>k\<close> with the single child \<open>u\<close> has been unlinked.
\<close>

lemma after_unlink:
  assumes T: "rb m root (plug cs u)"
    and inv: "invc u" "invh u" "ctx_c cs" "ctx_h cs (bheight u + (if k = RB_BLACK then 1 else 0))"
      "k = RB_RED \<longrightarrow> color_of u = RB_BLACK"
  shows "\<exists>m' root' t'. (if k = RB_BLACK then RB_REMOVE_COLOR (up cs) (root_of u) (m, root) else Some (m, root)) =
      Some (m', root') \<and>
    rb m' root' t' \<and> rbt_ok t' \<and> inorder t' = inorder (plug cs u) \<and>
    same_outside (set (inorder (plug cs u))) m m'"
proof (cases k)
  case RB_BLACK
  then have d: "deficient cs u" using inv by (simp add: deficient_def invc_paint_black)
  with remove_color_at [OF T d] RB_BLACK del_up_ok [OF d] show ?thesis
    using inorder_del_up [of cs u] by fastforce
next
  case RB_RED
  then have "rbt_ok (plug cs u)" unfolding rbt_ok_plug using inv by simp
  with T RB_RED show ?thesis by auto
qed

lemma remove1_middle: "a \<notin> set xs \<Longrightarrow> remove1 a (xs @ a # ys) = xs @ ys"
  by (simp add: remove1_append)

lemma RB_REMOVE_at:
  assumes T: "rb m root t" "rbt_ok t" and a: "a \<in> set (inorder t)"
  shows "\<exists>m' root' t'. RB_REMOVE a (m, root) = Some (a, m', root') \<and>
    rb m' root' t' \<and> rbt_ok t' \<and> inorder t' = remove1 a (inorder t) \<and>
    same_outside (set (inorder t)) m m'"
proof -
  obtain cs c l r where t: "t = plug cs (Nd c l a r)" using plug_at [OF a] by blast
  have Ta: "rb m root (plug cs (Nd c l a r))" using T(1) t by simp
  have ok: "rbt_ok (plug cs (Nd c l a r))" using T(2) t by simp
  have io: "remove1 a (inorder t) = before cs @ inorder l @ inorder r @ after cs"
    using Ta t remove1_middle [of a "before cs @ inorder l" "inorder r @ after cs"]
    by (auto simp: rb_plug inorder_plug)
  have fields: "RB_LEFT m a = Some (root_of l)" "RB_RIGHT m a = Some (root_of r)"
    using rb_entry_at [OF Ta] by (simp_all add: rb_fields)
  have null: "root_of l = NULL \<longleftrightarrow> l = Lf" "root_of r = NULL \<longleftrightarrow> r = Lf"
    using Ta root_of_NULL [of m a] by (auto simp: rb_plug simp del: neq0_conv)
  show ?thesis
  proof (cases "l = Lf \<or> r = Lf")
    case True
    define k where "k = (if l = Lf then r else l)"
    have k: "l = Lf \<and> k = r \<or> r = Lf \<and> k = l" using True by (auto simp: k_def)
    obtain m1 root1 where m1: "RB_REMOVE_unlink a (root_of k) (m, root) = Some (up cs, c, m1, root1)"
      "rb m1 root1 (plug cs k)" "same_outside (set (inorder (plug cs k))) m m1"
      using unlink_at [OF Ta k] by blast
    have "invc k" "invh k" "ctx_c cs" "ctx_h cs (bheight k + (if c = RB_BLACK then 1 else 0))"
      "c = RB_RED \<longrightarrow> color_of k = RB_BLACK"
      using ok k unfolding rbt_ok_plug by auto
    from after_unlink [OF m1(2) this] obtain m' root' t' where
      m': "(if c = RB_BLACK then RB_REMOVE_COLOR (up cs) (root_of k) (m1, root1) else Some (m1, root1)) = Some (m', root')"
        "rb m' root' t'" "rbt_ok t'" "inorder t' = inorder (plug cs k)"
        "same_outside (set (inorder (plug cs k))) m1 m'" by blast
    have "RB_REMOVE a (m, root) = Some (a, m', root')"
      using fields null True m1(1) m'(1) by (auto simp: RB_REMOVE_def k_def simp del: neq0_conv)
    moreover have ik: "inorder (plug cs k) = remove1 a (inorder t)"
      unfolding io using k by (auto simp: inorder_plug)
    moreover have "set (inorder (plug cs k)) \<subseteq> set (inorder t)"
      unfolding ik by (rule set_remove1_subset)
    ultimately show ?thesis
      using m' same_outside_mono [OF same_outside_trans [OF m1(3) m'(5)]] by metis
  next
    case False
    then obtain ds k e er m1 root1 where two: "r = plug ds (Nd k Lf e er)" "before ds = []"
      "RB_REMOVE_two a (m, root) = Some (up (ds @ InR c l e # cs), root_of er, k, m1, root1)"
      "rb m1 root1 (plug (ds @ InR c l e # cs) er)" "same_outside (set (inorder t)) m m1"
      using remove_two_at [OF Ta] t by auto
    let ?cs = "ds @ InR c l e # cs"
    have "rbt_ok (plug (ds @ InR c l a # cs) (Nd k Lf e er))" using ok two(1) by (simp add: plug_append)
    then have "invc er" "invh er" "ctx_c ?cs" "ctx_h ?cs (bheight er + (if k = RB_BLACK then 1 else 0))"
      "k = RB_RED \<longrightarrow> color_of er = RB_BLACK"
      unfolding rbt_ok_plug
      using ctx_readdress(1) [of ds c l a cs _ e] ctx_readdress(2) [of ds c l a cs e] by auto
    from after_unlink [OF two(4) this] obtain m' root' t' where
      m': "(if k = RB_BLACK then RB_REMOVE_COLOR (up ?cs) (root_of er) (m1, root1) else Some (m1, root1)) = Some (m', root')"
        "rb m' root' t'" "rbt_ok t'" "inorder t' = inorder (plug ?cs er)"
        "same_outside (set (inorder (plug ?cs er))) m1 m'" by blast
    have "RB_REMOVE a (m, root) = Some (a, m', root')"
      using fields null False two(3) m'(1) by (simp add: RB_REMOVE_def del: neq0_conv)
    moreover have ik: "inorder (plug ?cs er) = remove1 a (inorder t)"
      unfolding io using two(1,2) by (simp add: inorder_plug before_after_append)
    moreover have "set (inorder (plug ?cs er)) \<subseteq> set (inorder t)"
      unfolding ik by (rule set_remove1_subset)
    ultimately show ?thesis
      using m' same_outside_trans [OF two(5) same_outside_mono [OF m'(5)]] by metis
  qed
qed

end
