(* ===== verification/Ut_RB_Search.thy ===== *)
theory Ut_RB_Search
  imports Ut_RB_Unlink
begin

text \<open>
  The searching operations of \<^verbatim>\<open>tree.h\<close>: \<^verbatim>\<open>RB_FIND\<close>, \<^verbatim>\<open>RB_NFIND\<close>, \<^verbatim>\<open>RB_MIN\<close>, \<^verbatim>\<open>RB_MAX\<close>, \<^verbatim>\<open>RB_NEXT\<close>
  and \<^verbatim>\<open>RB_PREV\<close>, against the inorder sequence of the tree.
\<close>

subsection \<open>Searching by key\<close>

lemma search_sides:
  assumes "sorted_by key (inorder (Nd c l a r))" "cmp_by cmp key elm k (set (inorder (Nd c l a r)))"
  shows "sorted_by key (inorder l)" "sorted_by key (inorder r)"
    "cmp_by cmp key elm k (set (inorder l))" "cmp_by cmp key elm k (set (inorder r))"
    "\<forall>x \<in> set (inorder l). key x < key a" "\<forall>x \<in> set (inorder r). key a < key x"
    "\<exists>v. cmp elm a = Some v \<and> (v < 0 \<longleftrightarrow> k < key a) \<and> (0 < v \<longleftrightarrow> key a < k)"
  using assms by (auto simp: sorted_wrt_append cmp_by_def)

lemma find_at:
  assumes "tree_at m q t" "sorted_by key (inorder t)" "cmp_by cmp key elm k (set (inorder t))"
  shows "RB_FIND_loop cmp elm m (root_of t) =
    Some (first_of (filter (\<lambda>x. key x = k) (inorder t)))"
  using assms
proof (induction t arbitrary: q)
  case Lf
  then show ?case by (subst RB_FIND_loop.simps) simp
next
  case (Nd c l a r)
  note side = search_sides [OF Nd.prems(2,3)]
  obtain v where v: "cmp elm a = Some v" "v < 0 \<longleftrightarrow> k < key a" "0 < v \<longleftrightarrow> key a < k"
    using side(7) by blast
  have IH: "RB_FIND_loop cmp elm m (root_of l) = Some (first_of (filter (\<lambda>x. key x = k) (inorder l)))"
    "RB_FIND_loop cmp elm m (root_of r) = Some (first_of (filter (\<lambda>x. key x = k) (inorder r)))"
    using Nd.prems(1) side by (auto intro: Nd.IH)
  have fields: "a \<noteq> NULL" "RB_LEFT m a = Some (root_of l)" "RB_RIGHT m a = Some (root_of r)"
    using Nd.prems(1) by (simp_all add: rb_fields entry_def)
  have no: "k < key a \<Longrightarrow> filter (\<lambda>x. key x = k) (inorder r) = []"
    "key a < k \<Longrightarrow> filter (\<lambda>x. key x = k) (inorder l) = []"
    "key a = k \<Longrightarrow> filter (\<lambda>x. key x = k) (inorder l) = []"
    using side(5,6) by (auto simp: filter_empty_conv)
  consider "k < key a" | "key a < k" | "key a = k" by fastforce
  then show ?case
    by cases (use v fields IH no in \<open>subst RB_FIND_loop.simps, auto simp: first_of_append\<close>)+
qed

lemma nfind_at:
  assumes "tree_at m q t" "sorted_by key (inorder t)" "cmp_by cmp key elm k (set (inorder t))"
  shows "RB_NFIND_loop cmp elm m (root_of t) res =
    Some (first_of (filter (\<lambda>x. k \<le> key x) (inorder t) @ [res]))"
  using assms
proof (induction t arbitrary: q res)
  case Lf
  then show ?case by (subst RB_NFIND_loop.simps) simp
next
  case (Nd c l a r)
  note side = search_sides [OF Nd.prems(2,3)]
  obtain v where v: "cmp elm a = Some v" "v < 0 \<longleftrightarrow> k < key a" "0 < v \<longleftrightarrow> key a < k"
    using side(7) by blast
  have IH: "RB_NFIND_loop cmp elm m (root_of l) a = Some (first_of (filter (\<lambda>x. k \<le> key x) (inorder l) @ [a]))"
    "RB_NFIND_loop cmp elm m (root_of r) res = Some (first_of (filter (\<lambda>x. k \<le> key x) (inorder r) @ [res]))"
    using Nd.prems(1) side by (auto intro: Nd.IH)
  have fields: "a \<noteq> NULL" "RB_LEFT m a = Some (root_of l)" "RB_RIGHT m a = Some (root_of r)"
    using Nd.prems(1) by (simp_all add: rb_fields entry_def)
  have no: "key a \<le> k \<Longrightarrow> filter (\<lambda>x. k \<le> key x) (inorder l) = []"
    using side(5) by (auto simp: filter_empty_conv)
  consider "k < key a" | "key a < k" | "key a = k" by fastforce
  then show ?case
    by cases (use v fields IH no in \<open>subst RB_NFIND_loop.simps, auto simp: first_of_append\<close>)+
qed

subsection \<open>The ends\<close>

lemma minmax_at:
  assumes "tree_at m q t"
  shows "RB_MINMAX_loop m (-1) (root_of t) p = Some (first_of (inorder t @ [p]))"
    "RB_MINMAX_loop m 1 (root_of t) p = Some (last_of (p # inorder t))"
  using assms
proof (induction t arbitrary: q p)
  case Lf
  case 1 show ?case by (subst RB_MINMAX_loop.simps) simp
  case 2 show ?case by (subst RB_MINMAX_loop.simps) (simp add: last_of_def)
next
  case (Nd c l a r)
  {
    case 1
    then have "a \<noteq> NULL" "RB_LEFT m a = Some (root_of l)" "tree_at m a l"
      by (simp_all add: rb_fields entry_def)
    with Nd.IH(1) [of a a] show ?case
      by (subst RB_MINMAX_loop.simps) (simp add: first_of_append)
  next
    case 2
    then have "a \<noteq> NULL" "RB_RIGHT m a = Some (root_of r)" "tree_at m a r"
      by (simp_all add: rb_fields entry_def)
    with Nd.IH(4) [of a a] show ?case
      by (subst RB_MINMAX_loop.simps) (simp add: last_of_def)
  }
qed

subsection \<open>Neighbours\<close>

lemma rightmost_at:
  "tree_at m q t \<Longrightarrow> t \<noteq> Lf \<Longrightarrow> rightmost m (root_of t) = Some (last_of (inorder t))"
proof (induction t arbitrary: q)
  case (Nd c l a r)
  have fields: "RB_RIGHT m a = Some (root_of r)" using Nd.prems by (simp add: rb_fields entry_def)
  show ?case
  proof (cases "r = Lf")
    case True
    with fields show ?thesis by (subst rightmost.simps) simp
  next
    case False
    have tr: "tree_at m a r" using Nd.prems by simp
    then have "root_of r \<noteq> NULL" using False root_of_NULL [OF tr] by simp
    moreover have "last_of (inorder r) = last_of (inorder (Nd c l a r))"
      using False by (cases r) (simp_all add: last_of_def)
    ultimately show ?thesis using fields Nd.IH(2) [OF tr False]
      by (subst rightmost.simps) simp
  qed
qed simp

lemma leftmost_first:
  "tree_at m q t \<Longrightarrow> t \<noteq> Lf \<Longrightarrow> leftmost m (root_of t) = Some (first_of (inorder t))"
proof (induction t arbitrary: q)
  case (Nd c l a r)
  have fields: "RB_LEFT m a = Some (root_of l)" using Nd.prems by (simp add: rb_fields entry_def)
  show ?case
  proof (cases "l = Lf")
    case True
    with fields show ?thesis by (subst leftmost.simps) simp
  next
    case False
    have tl: "tree_at m a l" using Nd.prems by simp
    then have "root_of l \<noteq> NULL" using False root_of_NULL [OF tl] by simp
    moreover have "first_of (inorder l) = first_of (inorder (Nd c l a r))"
      using False by (cases l) (simp_all add: first_of_append)
    ultimately show ?thesis using fields Nd.IH(1) [OF tl False]
      by (subst leftmost.simps) simp
  qed
qed simp

text \<open>The node where a climb ends has the wanted node as its parent.\<close>

lemma climb_at:
  assumes "rb m root (plug cs (Nd c l a r))"
  shows "\<exists>e. RB_NEXT_climb m a = Some e \<and> RB_PARENT m e = Some (first_of (after cs))"
    "\<exists>e. RB_PREV_climb m a = Some e \<and> RB_PARENT m e = Some (last_of (before cs))"
  using assms
proof (induction cs arbitrary: c l a r)
  case Nil
  { case 1 then show ?case using rb_entry_at [of m root "[]" c l a r]
      by (subst RB_NEXT_climb.simps) (simp add: RB_PARENT_def)
  next
    case 2 then show ?case using rb_entry_at [of m root "[]" c l a r]
      by (subst RB_PREV_climb.simps) (simp add: RB_PARENT_def) }
next
  case (Cons f cs)
  { case 1
    obtain l' r' where f: "plug1 f (Nd c l a r) = Nd (fcolor f) l' (faddr f) r'" using plug1_Nd by blast
    have T: "rb m root (plug cs (Nd (fcolor f) l' (faddr f) r'))"
      and Tf: "rb m root (plug cs (plug1 f (Nd c l a r)))" using 1 f by simp_all
    note reads = rb_entry_at [OF 1] rb_entry_at(1) [OF T] child_test [OF Tf]
    show ?case using reads Cons.IH(1) [OF T]
      by (subst RB_NEXT_climb.simps) (cases f; auto simp: RB_PARENT_def)
  next
    case 2
    obtain l' r' where f: "plug1 f (Nd c l a r) = Nd (fcolor f) l' (faddr f) r'" using plug1_Nd by blast
    have T: "rb m root (plug cs (Nd (fcolor f) l' (faddr f) r'))"
      and Tf: "rb m root (plug cs (plug1 f (Nd c l a r)))" using 2 f by simp_all
    note reads = rb_entry_at [OF 2] rb_entry_at(1) [OF T] child_test [OF Tf]
    show ?case using reads Cons.IH(2) [OF T]
      by (subst RB_PREV_climb.simps) (cases f; auto simp: RB_PARENT_def last_of_append) }
qed

lemma next_at:
  assumes T: "rb m root (plug cs (Nd c l a r))"
  shows "RB_NEXT m a = Some (first_of (inorder r @ after cs))"
proof -
  note e = rb_entry_at [OF T]
  have tr: "tree_at m a r" using T by (simp add: rb_plug)
  show ?thesis
  proof (cases r)
    case Nd
    then have "root_of r \<noteq> NULL" "inorder r \<noteq> []" using tr root_of_NULL [OF tr] by auto
    with leftmost_first [OF tr] Nd e show ?thesis
      by (simp add: RB_NEXT_def RB_RIGHT_def first_of_append)
  next
    case Lf
    show ?thesis
    proof (cases cs)
      case Nil
      with climb_at(1) [OF T] e Lf show ?thesis by (auto simp: RB_NEXT_def RB_RIGHT_def RB_PARENT_def)
    next
      case (Cons f ds)
      obtain l' r' where f: "plug1 f (Nd c l a r) = Nd (fcolor f) l' (faddr f) r'" using plug1_Nd by blast
      have "rb m root (plug ds (Nd (fcolor f) l' (faddr f) r'))"
        and Tf: "rb m root (plug ds (plug1 f (Nd c l a r)))" using T Cons f by simp_all
      note reads = e rb_entry_at(1) [OF this(1)] child_test [OF Tf]
      show ?thesis using reads climb_at(1) [OF T] Lf Cons
        by (cases f) (auto simp: RB_NEXT_def RB_RIGHT_def [of m a] RB_PARENT_def [of m a])
    qed
  qed
qed

lemma prev_at:
  assumes T: "rb m root (plug cs (Nd c l a r))"
  shows "RB_PREV m a = Some (last_of (before cs @ inorder l))"
proof -
  note e = rb_entry_at [OF T]
  have tl: "tree_at m a l" using T by (simp add: rb_plug)
  show ?thesis
  proof (cases l)
    case Nd
    then have "root_of l \<noteq> NULL" "inorder l \<noteq> []" using tl root_of_NULL [OF tl] by auto
    with rightmost_at [OF tl] Nd e show ?thesis
      by (simp add: RB_PREV_def RB_LEFT_def last_of_append)
  next
    case Lf
    show ?thesis
    proof (cases cs)
      case Nil
      with climb_at(2) [OF T] e Lf show ?thesis by (auto simp: RB_PREV_def RB_LEFT_def RB_PARENT_def)
    next
      case (Cons f ds)
      obtain l' r' where f: "plug1 f (Nd c l a r) = Nd (fcolor f) l' (faddr f) r'" using plug1_Nd by blast
      have "rb m root (plug ds (Nd (fcolor f) l' (faddr f) r'))"
        and Tf: "rb m root (plug ds (plug1 f (Nd c l a r)))" using T Cons f by simp_all
      note reads = e rb_entry_at(1) [OF this(1)] child_test [OF Tf]
      show ?thesis using reads climb_at(2) [OF T] Lf Cons
        by (cases f) (auto simp: RB_PREV_def RB_LEFT_def [of m a] RB_PARENT_def [of m a] last_of_append)
    qed
  qed
qed

end
