(* ===== verification/Ut_RB.thy ===== *)
theory Ut_RB
  imports Ut_RB_Search
begin

text \<open>
  The contract of the red-black tree: \<open>rbtree key m root xs\<close> says that the entries \<open>m\<close> and the
  root pointer form a red-black tree that holds exactly the addresses \<open>xs\<close>, in the order of
  their keys.  The operations of \<^verbatim>\<open>tree.h\<close> are stated against \<open>xs\<close>; the interpretation of
  the locale \<open>ordered_index\<close> discharges the contract of an index for the macros.
\<close>

definition rbtree :: "(ptr \<Rightarrow> 'k::linorder) \<Rightarrow> rb_mem \<Rightarrow> ptr \<Rightarrow> ptr list \<Rightarrow> bool" where
  "rbtree key m root xs \<longleftrightarrow>
     (\<exists>t. rb m root t \<and> rbt_ok t \<and> inorder t = xs \<and> sorted_by key xs)"

text \<open>The structure at an address is allocated, so that its entry can be written.\<close>

definition rb_slot :: "rb_mem \<Rightarrow> ptr \<Rightarrow> bool" where
  "rb_slot m a \<longleftrightarrow> entry m a \<noteq> None"

subsection \<open>The operations on represented trees\<close>

lemma rbtree_empty: "rbtree key m NULL []"
  unfolding rbtree_def by (rule exI [of _ Lf]) (simp add: rb_def rbt_ok_def)

lemma rbtree_sorted: "rbtree key m root xs \<Longrightarrow> sorted_by key xs"
  by (auto simp: rbtree_def)

lemma rbtree_slot: "rbtree key m root xs \<Longrightarrow> x \<in> set xs \<Longrightarrow> rb_slot m x"
  by (cases "x = NULL") (auto simp: rbtree_def rb_def rb_slot_def entry_def dest: tree_at_dom tree_at_NULL)

lemma rbtree_NULL: "rbtree key m root xs \<Longrightarrow> NULL \<notin> set xs"
  using tree_at_NULL [of m NULL] by (auto simp: rbtree_def rb_def)

lemma rbtree_rekey:
  assumes "rbtree key m root xs" "\<And>x. x \<in> set xs \<Longrightarrow> key' x = key x"
  shows "rbtree key' m root xs"
proof -
  have "sorted_by key' xs"
    by (rule sorted_wrt_mono_rel [OF _ rbtree_sorted [OF assms(1)]]) (simp add: assms(2))
  then show ?thesis using assms(1) by (auto simp: rbtree_def)
qed

lemma rbtree_cong:
  assumes "rbtree key m root xs" "\<And>x. x \<in> set xs \<Longrightarrow> m' x = m x"
  shows "rbtree key m' root xs"
proof -
  obtain t where t: "rb m root t" "rbt_ok t" "inorder t = xs" "sorted_by key xs"
    using assms(1) by (auto simp: rbtree_def)
  have "tree_at m' NULL t = tree_at m NULL t" using t(3) assms(2) by (intro tree_at_cong) auto
  with t show ?thesis by (auto simp: rbtree_def rb_def)
qed

lemma rbtree_frame:
  assumes "rbtree key m root xs" "same_outside A m m'" "set xs \<inter> A = {}"
  shows "rbtree key m' root xs"
  by (rule rbtree_cong [OF assms(1)]) (use assms(2,3) in \<open>auto intro!: same_outsideD [of A]\<close>)

lemma rb_slot_same: "same_outside A m m' \<Longrightarrow> rb_slot m' = rb_slot m"
  by (auto simp: same_outside_def rb_slot_def entry_def dom_def fun_eq_iff)

lemma rbtree_insert:
  assumes "rbtree key m root xs" "rb_slot m a" "cmp_by cmp key a (key a) (set xs)"
    and "\<forall>x \<in> set xs. key x \<noteq> key a"
  shows "\<exists>m' root'. RB_INSERT cmp a (m, root) = Some (NULL, m', root') \<and>
    rbtree key m' root' (insort_key key a xs) \<and> same_outside (insert a (set xs)) m m'"
proof -
  obtain t where t: "rb m root t" "rbt_ok t" "inorder t = xs" "sorted_by key xs"
    using assms(1) by (auto simp: rbtree_def)
  obtain e where e: "entry m a = Some e" using assms(2) by (auto simp: rb_slot_def)
  have a: "a \<notin> set (inorder t)" using assms(4) t(3) by auto
  obtain m' root' t' where m': "RB_INSERT cmp a (m, root) = Some (NULL, m', root')"
    "rb m' root' t'" "rbt_ok t'" "inorder t' = insort_key key a (inorder t)"
    "same_outside (insert a (set (inorder t))) m m'"
    using RB_INSERT_new [of m root t key a e cmp] t e a assms(3,4) by blast
  moreover have "sorted_by key (insort_key key a xs)" using sorted_by_insort [OF t(4) assms(4)] .
  ultimately show ?thesis using t(3) by (auto simp: rbtree_def)
qed

lemma rbtree_insert_present:
  assumes "rbtree key m root xs" "cmp_by cmp key a (key a) (set xs)" "b \<in> set xs" "key b = key a"
  shows "RB_INSERT cmp a (m, root) = Some (b, m, root)"
  using assms RB_INSERT_present [of m root _ key cmp a b] by (auto simp: rbtree_def)

lemma rbtree_remove:
  assumes "rbtree key m root xs" "a \<in> set xs"
  shows "\<exists>m' root'. RB_REMOVE a (m, root) = Some (a, m', root') \<and>
    rbtree key m' root' (remove1 a xs) \<and> same_outside (set xs) m m'"
proof -
  obtain t where t: "rb m root t" "rbt_ok t" "inorder t = xs" "sorted_by key xs"
    using assms(1) by (auto simp: rbtree_def)
  obtain m' root' t' where m': "RB_REMOVE a (m, root) = Some (a, m', root')"
    "rb m' root' t'" "rbt_ok t'" "inorder t' = remove1 a (inorder t)" "same_outside (set (inorder t)) m m'"
    using RB_REMOVE_at [OF t(1,2), of a] assms(2) t(3) by blast
  moreover have "sorted_by key (remove1 a xs)" using sorted_by_remove1 [OF t(4)] .
  ultimately show ?thesis using t(3) by (auto simp: rbtree_def)
qed

lemma rbtree_find:
  assumes "rbtree key m root xs" "cmp_by cmp key elm k (set xs)"
  shows "RB_FIND cmp elm (m, root) = Some (first_of (filter (\<lambda>x. key x = k) xs))"
    "RB_NFIND cmp elm (m, root) = Some (first_of (filter (\<lambda>x. k \<le> key x) xs))"
proof -
  obtain t where t: "rb m root t" "inorder t = xs" "sorted_by key xs"
    using assms(1) by (auto simp: rbtree_def)
  then have r: "tree_at m NULL t" "root = root_of t" by (auto simp: rb_def)
  show "RB_FIND cmp elm (m, root) = Some (first_of (filter (\<lambda>x. key x = k) xs))"
    using find_at [OF r(1), of key cmp elm k] t assms(2) r(2) by (simp add: RB_FIND_def)
  have "first_of (ys @ [NULL]) = first_of ys" for ys by (simp add: first_of_append)
  then show "RB_NFIND cmp elm (m, root) = Some (first_of (filter (\<lambda>x. k \<le> key x) xs))"
    using nfind_at [OF r(1), of key cmp elm k NULL] t assms(2) r(2) by (simp add: RB_NFIND_def)
qed

lemma rbtree_min_max:
  assumes "rbtree key m root xs"
  shows "RB_MIN (m, root) = Some (first_of xs)" "RB_MAX (m, root) = Some (last_of xs)"
proof -
  obtain t where t: "tree_at m NULL t" "root = root_of t" "inorder t = xs"
    using assms by (auto simp: rbtree_def rb_def)
  have "first_of (xs @ [NULL]) = first_of xs" "last_of (NULL # xs) = last_of xs"
    by (simp_all add: first_of_append last_of_def)
  with minmax_at [OF t(1), of NULL] t show "RB_MIN (m, root) = Some (first_of xs)"
    "RB_MAX (m, root) = Some (last_of xs)"
    by (simp_all add: RB_MIN_def RB_MAX_def RB_MINMAX_def)
qed

lemma distinct_split:
  assumes "distinct (xs @ a # ys)" "xs @ a # ys = us @ a # vs"
  shows "us = xs" "vs = ys"
proof -
  have "a \<notin> set us" "a \<notin> set vs" using assms(1) unfolding assms(2) by auto
  with append_Cons_eq_iff [of a us vs xs ys] assms(2) show "us = xs" "vs = ys" by auto
qed

lemma rbtree_next_prev:
  assumes "rbtree key m root (xs @ a # ys)"
  shows "RB_NEXT m a = Some (first_of ys)" "RB_PREV m a = Some (last_of xs)"
proof -
  obtain t where t: "rb m root t" "inorder t = xs @ a # ys" using assms by (auto simp: rbtree_def)
  then obtain cs c l r where cs: "t = plug cs (Nd c l a r)" using plug_at [of a t] by auto
  have d: "distinct (xs @ a # ys)" using t by (auto simp: rb_def)
  have "xs @ a # ys = (before cs @ inorder l) @ a # (inorder r @ after cs)"
    using t(2) cs by (simp add: inorder_plug)
  from distinct_split [OF d this] next_at [of m root cs c l a r] prev_at [of m root cs c l a r] t(1) cs
  show "RB_NEXT m a = Some (first_of ys)" "RB_PREV m a = Some (last_of xs)" by simp_all
qed

subsection \<open>The contract of an index\<close>

lemma rbtree_frames:
  assumes "same_outside A m m'"
  shows "rb_slot m' = rb_slot m"
    "\<forall>key' q ys. rbtree key' m q ys \<longrightarrow> set ys \<inter> A = {} \<longrightarrow> rbtree key' m' q ys"
  using assms rbtree_frame rb_slot_same by blast+

text \<open>The searches of the red-black tree leave the tree as it is.\<close>

definition read_only :: "('s \<Rightarrow> ptr option) \<Rightarrow> 's \<Rightarrow> (ptr \<times> 's) option" where
  "read_only f h = map_option (\<lambda>a. (a, h)) (f h)"

interpretation rbi: ordered_index rbtree rb_slot RB_INSERT "\<lambda>_. RB_REMOVE"
  "\<lambda>cmp a. read_only (RB_FIND cmp a)" "read_only RB_MIN"
proof
  fix key :: "ptr \<Rightarrow> 'k::linorder" and m root xs a cmp
  assume "rbtree key m root xs" "rb_slot m a" "cmp_by cmp key a (key a) (set xs)"
    "\<forall>x \<in> set xs. key x \<noteq> key a"
  from rbtree_insert [OF this] show "\<exists>m' root'. RB_INSERT cmp a (m, root) = Some (NULL, m', root') \<and>
      rbtree key m' root' (insort_key key a xs) \<and> rb_slot m' = rb_slot m \<and>
      (\<forall>key' q ys. rbtree key' m q ys \<longrightarrow> set ys \<inter> insert a (set xs) = {} \<longrightarrow> rbtree key' m' q ys)"
    using rbtree_frames by metis
next
  fix key :: "ptr \<Rightarrow> 'k::linorder" and m root xs a
  assume "rbtree key m root xs" "a \<in> set xs"
  from rbtree_remove [OF this] show "\<exists>m' root'. RB_REMOVE a (m, root) = Some (a, m', root') \<and>
      rbtree key m' root' (remove1 a xs) \<and> rb_slot m' = rb_slot m \<and>
      (\<forall>key' q ys. rbtree key' m q ys \<longrightarrow> set ys \<inter> set xs = {} \<longrightarrow> rbtree key' m' q ys)"
    using rbtree_frames by metis
qed (auto simp: rbtree_sorted rbtree_NULL rbtree_insert_present rbtree_min_max(1) rbtree_find(1) read_only_def)

subsection \<open>The properties of the tree\<close>

lemma height_at:
  assumes "rbtree key m root xs"
  shows "\<exists>t. rb m root t \<and> inorder t = xs \<and> 2 ^ height t \<le> (length xs + 1) ^ 2"
  using assms rbt_ok_height by (auto simp: rbtree_def)

lemma remove1_insort: "a \<notin> set xs \<Longrightarrow> remove1 a (insort_key key a xs) = xs"
  by (induction xs) auto

text \<open>An example tree: the node 2 with the red left child 1; the node 3 is allocated.\<close>

definition demo_mem :: rb_mem where
  "demo_mem = [2 \<mapsto> \<lparr>rbe_left = 1, rbe_right = NULL, rbe_parent = NULL, rbe_color = RB_BLACK\<rparr>,
     1 \<mapsto> \<lparr>rbe_left = NULL, rbe_right = NULL, rbe_parent = 2, rbe_color = RB_RED\<rparr>,
     3 \<mapsto> \<lparr>rbe_left = NULL, rbe_right = NULL, rbe_parent = NULL, rbe_color = RB_RED\<rparr>]"

definition demo_cmp :: "ptr \<Rightarrow> ptr \<Rightarrow> int option" where
  "demo_cmp a b = Some (int a - int b)"

abbreviation (input) demo_key :: "ptr \<Rightarrow> nat" where
  "demo_key \<equiv> \<lambda>a. a"

lemma demo_tree_by: "(key :: ptr \<Rightarrow> nat) 1 < key 2 \<Longrightarrow> rbtree key demo_mem 2 [1, 2]"
  unfolding rbtree_def
  by (rule exI [of _ "Nd RB_BLACK (Nd RB_RED Lf 1 Lf) 2 Lf"])
    (simp add: rb_def rbt_ok_def demo_mem_def)

lemma demo_tree: "rbtree demo_key demo_mem 2 [1, 2]"
  by (rule demo_tree_by) simp

lemma demo_cmp_by: "cmp_by demo_cmp demo_key k k A"
  by (auto simp: cmp_by_def demo_cmp_def)

lemma demo_slot: "rb_slot demo_mem 1" "rb_slot demo_mem 2" "rb_slot demo_mem 3"
  by (simp_all add: rb_slot_def entry_def demo_mem_def)

text \<open>
  C22: \<^verbatim>\<open>RB_INSERT\<close> of a node whose key is not in the tree returns \<^verbatim>\<open>NULL\<close>, always terminates without
  following a null or dangling pointer, and leaves a red-black tree that holds the old
  nodes and the new one in the order of the keys; no entry outside the tree changes.
\<close>

theorem RB_INSERT_inserts:
  assumes "rbtree key m root xs" "rb_slot m a" "cmp_by cmp key a (key a) (set xs)"
    and "\<forall>x \<in> set xs. key x \<noteq> key a"
  shows "\<exists>m' root'. RB_INSERT cmp a (m, root) = Some (NULL, m', root') \<and>
    rbtree key m' root' (insort_key key a xs) \<and> same_outside (insert a (set xs)) m m'"
  using rbtree_insert [OF assms] .

theorem RB_INSERT_inserts_witness:
  "\<exists>m' root'. RB_INSERT demo_cmp 3 (demo_mem, 2) = Some (NULL, m', root') \<and>
    rbtree demo_key m' root' [1, 2, 3] \<and> same_outside {1, 2, 3} demo_mem m'"
  using RB_INSERT_inserts [OF demo_tree demo_slot(3) demo_cmp_by]
  by (simp add: insert_commute)

text \<open>
  \<^verbatim>\<open>RB_INSERT\<close> of a node whose key is already in the tree returns the node that has the key and
  changes nothing.
\<close>

theorem RB_INSERT_duplicate:
  assumes "rbtree key m root xs" "cmp_by cmp key a (key a) (set xs)" "b \<in> set xs" "key b = key a"
  shows "RB_INSERT cmp a (m, root) = Some (b, m, root)"
  using rbtree_insert_present [OF assms] .

theorem RB_INSERT_duplicate_witness:
  "RB_INSERT (\<lambda>a b. Some (int a div 2 - int b div 2)) 3 (demo_mem, 2) = Some (2, demo_mem, 2)"
  by (rule RB_INSERT_duplicate [OF demo_tree_by [of "\<lambda>a. a div 2"]])
    (auto simp: cmp_by_def)

text \<open>
  C23: \<^verbatim>\<open>RB_REMOVE\<close> of a node of the tree returns that node, terminates without a bad access, and
  leaves a red-black tree with exactly the other nodes, in the same order; no entry outside
  the tree changes.
\<close>

theorem RB_REMOVE_removes:
  assumes "rbtree key m root xs" "a \<in> set xs"
  shows "\<exists>m' root'. RB_REMOVE a (m, root) = Some (a, m', root') \<and>
    rbtree key m' root' (remove1 a xs) \<and> same_outside (set xs) m m'"
  using rbtree_remove [OF assms] .

theorem RB_REMOVE_removes_witness:
  "\<exists>m' root'. RB_REMOVE 2 (demo_mem, 2) = Some (2, m', root') \<and>
    rbtree demo_key m' root' [1] \<and> same_outside {1, 2} demo_mem m'"
  using RB_REMOVE_removes [OF demo_tree, of 2] by simp

text \<open>
  Removing a node that has just been inserted gives back the tree that was there before: both
  calls succeed and the sequence of nodes is the old one.
\<close>

theorem RB_INSERT_REMOVE_roundtrip:
  assumes "rbtree key m root xs" "rb_slot m a" "cmp_by cmp key a (key a) (set xs)"
    and "\<forall>x \<in> set xs. key x \<noteq> key a"
  shows "\<exists>m1 root1 m' root'. RB_INSERT cmp a (m, root) = Some (NULL, m1, root1) \<and>
    RB_REMOVE a (m1, root1) = Some (a, m', root') \<and> rbtree key m' root' xs"
proof -
  have "a \<notin> set xs" using assms(4) by auto
  moreover obtain m1 root1 where m1: "RB_INSERT cmp a (m, root) = Some (NULL, m1, root1)"
    "rbtree key m1 root1 (insort_key key a xs)"
    using rbtree_insert [OF assms] by blast
  moreover have "a \<in> set (insort_key key a xs)" by (simp add: set_insort_key)
  ultimately show ?thesis using rbtree_remove [OF m1(2), of a] remove1_insort [of a xs key] by fastforce
qed

theorem RB_INSERT_REMOVE_roundtrip_witness:
  "\<exists>m1 root1 m' root'. RB_INSERT demo_cmp 3 (demo_mem, 2) = Some (NULL, m1, root1) \<and>
    RB_REMOVE 3 (m1, root1) = Some (3, m', root') \<and> rbtree demo_key m' root' [1, 2]"
  using RB_INSERT_REMOVE_roundtrip [OF demo_tree demo_slot(3) demo_cmp_by] by simp

text \<open>
  C33: \<^verbatim>\<open>RB_FIND\<close> returns the node with the key searched for, or \<^verbatim>\<open>NULL\<close> when there is none, and
  \<^verbatim>\<open>RB_NFIND\<close> the node with the least key that is not less, or \<^verbatim>\<open>NULL\<close>.
\<close>

theorem RB_FIND_finds:
  assumes "rbtree key m root xs" "cmp_by cmp key elm k (set xs)"
  shows "RB_FIND cmp elm (m, root) = Some (first_of (filter (\<lambda>x. key x = k) xs)) \<and>
    RB_NFIND cmp elm (m, root) = Some (first_of (filter (\<lambda>x. k \<le> key x) xs))"
  using rbtree_find [OF assms] by blast

theorem RB_FIND_finds_witness:
  "RB_FIND demo_cmp 3 (demo_mem, 2) = Some NULL \<and> RB_NFIND demo_cmp 3 (demo_mem, 2) = Some NULL \<and>
    RB_FIND demo_cmp 1 (demo_mem, 2) = Some 1 \<and> RB_NFIND demo_cmp 0 (demo_mem, 2) = Some 1"
  using RB_FIND_finds [OF demo_tree demo_cmp_by, of 3] RB_FIND_finds [OF demo_tree demo_cmp_by, of 1]
    RB_FIND_finds [OF demo_tree demo_cmp_by, of 0] by (simp add: first_of_def)

text \<open>
  \<^verbatim>\<open>RB_MIN\<close> and \<^verbatim>\<open>RB_MAX\<close> return the first and the last node in the order of the keys, \<^verbatim>\<open>RB_NEXT\<close>
  and \<^verbatim>\<open>RB_PREV\<close> the neighbours of a node in that order, and all of them \<^verbatim>\<open>NULL\<close> where there is
  none.
\<close>

theorem RB_walk:
  assumes "rbtree key m root (xs @ a # ys)"
  shows "RB_MIN (m, root) = Some (hd (xs @ [a])) \<and> RB_MAX (m, root) = Some (last (a # ys)) \<and>
    RB_NEXT m a = Some (first_of ys) \<and> RB_PREV m a = Some (last_of xs)"
  using rbtree_min_max [OF assms] rbtree_next_prev [OF assms]
  by (cases xs) (auto simp: last_of_def)

theorem RB_walk_witness:
  "RB_MIN (demo_mem, 2) = Some 1 \<and> RB_MAX (demo_mem, 2) = Some 2 \<and>
    RB_NEXT demo_mem 1 = Some 2 \<and> RB_PREV demo_mem 1 = Some NULL"
  using RB_walk [of demo_key demo_mem 2 "[]" 1 "[2]"] demo_tree by simp

text \<open>
  Inserting any nodes with different keys into an empty tree and then taking the least node
  out again, as often as there are nodes, returns the nodes sorted by key.
\<close>

theorem RB_sorts:
  assumes "\<forall>x \<in> set xs. rb_slot m x" "\<forall>a \<in> set xs. cmp_by cmp key a (key a) (set xs)"
    and "distinct (map key xs)"
  shows "\<exists>h h'. insert_all (RB_INSERT cmp) xs (m, RB_INIT) = Some h \<and>
    pop_least (read_only RB_MIN) RB_REMOVE (length xs) h = Some (sort_key key xs, h')"
  using rbi.index_sorts [OF rbtree_empty assms] by (simp add: RB_INIT_def)

theorem RB_sorts_witness:
  "\<exists>h h'. insert_all (RB_INSERT demo_cmp) [2, 3, 1] (demo_mem, RB_INIT) = Some h \<and>
    pop_least (read_only RB_MIN) RB_REMOVE 3 h = Some ([1, 2, 3], h')"
  using RB_sorts [of "[2, 3, 1]" demo_mem demo_cmp demo_key] demo_slot demo_cmp_by
  by (simp add: numeral_3_eq_3 del: pop_least.simps insert_all.simps)

subsection \<open>The number of comparisons\<close>

text \<open>The nodes on the way that a search goes down: to the left where the comparison is negative, to the right where it is positive.\<close>

fun search_path :: "(ptr \<Rightarrow> int option) \<Rightarrow> rbt \<Rightarrow> ptr set" where
  "search_path f Lf = {}"
| "search_path f (Nd c l a r) = insert a (case f a of
     None \<Rightarrow> {}
   | Some v \<Rightarrow> if v < 0 then search_path f l else if 0 < v then search_path f r else {})"

lemma search_path_height: "finite (search_path f t) \<and> card (search_path f t) \<le> height t"
proof (induction t)
  case (Nd c l a r)
  then show ?case by (cases "f a") (auto simp: card_insert_if)
qed simp

lemma search_path_nodes: "search_path f t \<subseteq> set (inorder t)"
  by (induction t) (auto split: option.splits if_splits)

text \<open>A comparison that fails outside a set of nodes.\<close>

definition only_at :: "ptr set \<Rightarrow> ('e \<Rightarrow> ptr \<Rightarrow> int option) \<Rightarrow> 'e \<Rightarrow> ptr \<Rightarrow> int option" where
  "only_at S cmp e x = (if x \<in> S then cmp e x else None)"

lemma only_at_in: "x \<in> S \<Longrightarrow> only_at S cmp e x = cmp e x"
  by (simp add: only_at_def)

lemma loops_on_path:
  assumes "tree_at m q t" "search_path (cmp e) t \<subseteq> S"
  shows "RB_FIND_loop (only_at S cmp) e m (root_of t) = RB_FIND_loop cmp e m (root_of t)"
    "RB_NFIND_loop (only_at S cmp) e m (root_of t) res = RB_NFIND_loop cmp e m (root_of t) res"
    "RB_INSERT_descend (only_at S cmp) e m (root_of t) parent v = RB_INSERT_descend cmp e m (root_of t) parent v"
  using assms
proof (induction t arbitrary: q res parent v)
  case Lf
  { case 1 then show ?case by (simp add: RB_FIND_loop.simps) }
  { case 2 then show ?case by (simp add: RB_NFIND_loop.simps) }
  { case 3 then show ?case by (simp add: RB_INSERT_descend.simps) }
next
  case (Nd c l a r)
  have at: "a \<noteq> NULL" "RB_LEFT m a = Some (root_of l)" "RB_RIGHT m a = Some (root_of r)" "tree_at m a l" "tree_at m a r"
    if "tree_at m q (Nd c l a r)" for q using that by (simp_all add: rb_fields entry_def)
  have path: "a \<in> S" "cmp e a = Some v \<Longrightarrow> v < 0 \<Longrightarrow> search_path (cmp e) l \<subseteq> S" "cmp e a = Some v \<Longrightarrow> 0 < v \<Longrightarrow> search_path (cmp e) r \<subseteq> S"
    if "search_path (cmp e) (Nd c l a r) \<subseteq> S" for v using that by auto
  { case 1
    note here = at [OF 1(1)] path [OF 1(2)]
    then show ?case using Nd.IH(1) [OF here(4)] Nd.IH(4) [OF here(5)]
      by (cases "cmp e a") (simp_all add: only_at_in RB_FIND_loop.simps [of "only_at S cmp" e m a] RB_FIND_loop.simps [of cmp e m a]) }
  { case 2
    note here = at [OF 2(1)] path [OF 2(2)]
    then show ?case using Nd.IH(2) [OF here(4)] Nd.IH(5) [OF here(5)]
      by (cases "cmp e a") (simp_all add: only_at_in RB_NFIND_loop.simps [of "only_at S cmp" e m a] RB_NFIND_loop.simps [of cmp e m a]) }
  { case 3
    note here = at [OF 3(1)] path [OF 3(2)]
    then show ?case using Nd.IH(3) [OF here(4)] Nd.IH(6) [OF here(5)]
      by (cases "cmp e a")
        (simp_all add: only_at_in RB_INSERT_descend.simps [of "only_at S cmp" e m a] RB_INSERT_descend.simps [of cmp e m a]) }
qed

text \<open>
  C34: A search or insertion compares its argument with few of the nodes.  In a tree of \<open>n\<close> nodes there are at
  most \<open>2 * log2 (n + 1)\<close> nodes, so that \<^verbatim>\<open>RB_FIND\<close>, \<^verbatim>\<open>RB_NFIND\<close> and \<^verbatim>\<open>RB_INSERT\<close> give the same results
  with a comparison function that fails on all the other nodes; a comparison with one of these would make the operation
  fail.  The results are the ones that a search has.
\<close>

theorem RB_search_compares_few:
  assumes "rbtree key m root xs" "cmp_by cmp key a (key a) (set xs)"
  shows "\<exists>S \<subseteq> set xs. 2 ^ card S \<le> (length xs + 1) ^ 2 \<and>
    RB_FIND (only_at S cmp) a (m, root) = Some (first_of (filter (\<lambda>x. key x = key a) xs)) \<and>
    RB_NFIND (only_at S cmp) a (m, root) = Some (first_of (filter (\<lambda>x. key a \<le> key x) xs)) \<and>
    RB_INSERT (only_at S cmp) a (m, root) = RB_INSERT cmp a (m, root)"
proof -
  obtain t where t: "rb m root t" "inorder t = xs" "2 ^ height t \<le> (length xs + 1) ^ 2" using height_at [OF assms(1)] by blast
  then have at: "tree_at m NULL t" "root = root_of t" by (auto simp: rb_def)
  let ?S = "search_path (cmp a) t"
  note same = loops_on_path [OF at(1) subset_refl, where cmp = cmp and e = a]
  have "2 ^ card ?S \<le> (2 :: nat) ^ height t" using search_path_height [of "cmp a" t] by (intro power_increasing) auto
  then have "2 ^ card ?S \<le> (length xs + 1) ^ 2" using t(3) by linarith
  moreover have "RB_FIND (only_at ?S cmp) a (m, root) = RB_FIND cmp a (m, root)"
    "RB_NFIND (only_at ?S cmp) a (m, root) = RB_NFIND cmp a (m, root)"
    "RB_INSERT (only_at ?S cmp) a (m, root) = RB_INSERT cmp a (m, root)"
    using same by (simp_all add: RB_FIND_def RB_NFIND_def RB_INSERT_def at(2))
  ultimately show ?thesis using rbtree_find [OF assms] search_path_nodes [of "cmp a" t] t(2) by (intro exI [of _ ?S]) simp
qed

theorem RB_search_compares_few_witness:
  "\<exists>S \<subseteq> {1, 2}. 2 ^ card S \<le> (9 :: nat) \<and> RB_FIND (only_at S demo_cmp) 1 (demo_mem, 2) = Some 1"
proof -
  have "RB_FIND (only_at S demo_cmp) 1 (demo_mem, 2) = Some 1"
    if "RB_FIND (only_at S demo_cmp) 1 (demo_mem, 2) = Some (first_of (filter (\<lambda>x. x = 1) [1, 2]))" for S
    using that by (simp add: first_of_def)
  with RB_search_compares_few [OF demo_tree demo_cmp_by, of 1] show ?thesis by (auto simp: eval_nat_numeral)
qed

end
