(* ===== verification/Ut_Timer.thy ===== *)
theory Ut_Timer
  imports Ut_Prelude
begin

text \<open>
  The timing wheel of \<^verbatim>\<open>timer.h\<close> and \<^verbatim>\<open>timer.c\<close>, at the level of its pointers:
  ten slots, each the head of a singly linked list of \<^verbatim>\<open>struct timer_node\<close>.

  \<open>tick\<close> walks the current slot through a pointer to a pointer, as the C code does
  (\<^verbatim>\<open>struct timer_node **cur\<close>): the place it points to is either a slot of the wheel or
  the \<^verbatim>\<open>next\<close> field of a node.  The uthread structure a node refers to belongs to
  another component, so \<open>tick\<close> takes a view of it as an argument: for a pointer to a
  uthread, its \<^verbatim>\<open>is_wating_yield_signal\<close> field and the thread id \<^verbatim>\<open>ut->p->tid\<close>,
  or the failure that reading them is.  \<^verbatim>\<open>pthread_kill\<close> is an argument as well: the
  return value it has for a thread id.  The signals that were sent are the output of
  \<open>tick\<close>.

  Two refinements: the linked lists represent lists of (rotation, uthread) pairs, and the
  wheel of these lists represents a bag of count-down timers.
\<close>

subsection \<open>The data of the timer\<close>

definition TIME_WHEEL_SIZE :: nat where
  "TIME_WHEEL_SIZE = 10"

record timer_node =
  nxt :: ptr
  rotation :: int
  tn_ut :: ptr

record timer_wheel =
  slot :: "ptr list"
  current :: nat
  tnodes :: "ptr \<rightharpoonup> timer_node"

text \<open>The places a \<^verbatim>\<open>struct timer_node **\<close> of \<open>tick\<close> points to.\<close>

datatype place = Slot nat | NextOf ptr

subsection \<open>Operations\<close>

text \<open>
  \<^verbatim>\<open>create_timewheel\<close> starts the wheel at slot 0; the slots of the static wheel are
  null from program start.  Its endless \<^verbatim>\<open>sleep\<close> loop and the interval timer that
  delivers \<^verbatim>\<open>SIGALRM\<close> every 10 ms are the environment that calls \<open>tick\<close>.
\<close>

definition static_wheel :: timer_wheel where
  "static_wheel =
     \<lparr>slot = replicate TIME_WHEEL_SIZE NULL, current = 0, tnodes = Map.empty\<rparr>"

definition create_timewheel :: "timer_wheel \<Rightarrow> timer_wheel" where
  "create_timewheel w = w\<lparr>current := 0\<rparr>"

definition read_place :: "timer_wheel \<Rightarrow> place \<Rightarrow> ptr res" where
  "read_place w pl =
     (case pl of
        Slot i \<Rightarrow> if i < length (slot w) then Inr (slot w ! i) else Inl IndexRange
      | NextOf a \<Rightarrow> bnd (deref (tnodes w) a) (\<lambda>n. Inr (nxt n)))"

definition write_place :: "timer_wheel \<Rightarrow> place \<Rightarrow> ptr \<Rightarrow> timer_wheel res" where
  "write_place w pl v =
     (case pl of
        Slot i \<Rightarrow> if i < length (slot w) then Inr (w\<lparr>slot := (slot w)[i := v]\<rparr>)
                  else Inl IndexRange
      | NextOf a \<Rightarrow> bnd (deref (tnodes w) a)
          (\<lambda>n. Inr (w\<lparr>tnodes := (tnodes w)(a \<mapsto> n\<lparr>nxt := v\<rparr>)\<rparr>)))"

text \<open>
  One turn of the loop of \<open>tick\<close>: \<open>None\<close> when the place holds a null pointer (the loop
  ends), otherwise the next place, the wheel and the signals sent in this turn.
\<close>

type_synonym ut_view = "ptr \<Rightarrow> (int \<times> nat) res"
type_synonym tick_state = "place \<times> timer_wheel \<times> nat list"

definition tick_turn ::
  "ut_view \<Rightarrow> (nat \<Rightarrow> int) \<Rightarrow> tick_state \<Rightarrow> tick_state option res" where
  "tick_turn view pthread_kill s =
     (case s of (cur, w, sigs) \<Rightarrow>
        bnd (read_place w cur) (\<lambda>curr.
          if curr = NULL then Inr None
          else bnd (deref (tnodes w) curr) (\<lambda>n.
            if rotation n > 0
            then Inr (Some (NextOf curr,
                   w\<lparr>tnodes := (tnodes w)(curr \<mapsto> n\<lparr>rotation := rotation n - 1\<rparr>)\<rparr>, sigs))
            else bnd (view (tn_ut n)) (\<lambda>(waiting, tid).
              bnd (if waiting = 1
                   then bnd (c_assert (pthread_kill tid = 0)) (\<lambda>_. Inr (sigs @ [tid]))
                   else Inr sigs) (\<lambda>sigs'.
              bnd (write_place w cur (nxt n)) (\<lambda>w'.
              Inr (Some (cur, w'\<lparr>tnodes := (tnodes w')(curr := None)\<rparr>, sigs'))))))))"

text \<open>The \<^verbatim>\<open>while\<close> loop; \<open>None\<close> stands for a loop that does not end (a cyclic list).\<close>

partial_function (option) tick_loop ::
  "ut_view \<Rightarrow> (nat \<Rightarrow> int) \<Rightarrow> tick_state \<Rightarrow> (timer_wheel \<times> nat list) res option" where
  "tick_loop view pthread_kill s =
     (case tick_turn view pthread_kill s of
        Inl e \<Rightarrow> Some (Inl e)
      | Inr None \<Rightarrow> Some (Inr (snd s))
      | Inr (Some s') \<Rightarrow> tick_loop view pthread_kill s')"

definition tick ::
  "ut_view \<Rightarrow> (nat \<Rightarrow> int) \<Rightarrow> timer_wheel \<Rightarrow> (timer_wheel \<times> nat list) res option" where
  "tick view pthread_kill w =
     (case tick_loop view pthread_kill (Slot (current w), w, []) of
        None \<Rightarrow> None
      | Some (Inl e) \<Rightarrow> Some (Inl e)
      | Some (Inr (w', sigs)) \<Rightarrow>
          Some (Inr (w'\<lparr>current := (current w' + 1) mod TIME_WHEEL_SIZE\<rparr>, sigs)))"

text \<open>
  \<^verbatim>\<open>add_timer(len, ut)\<close>, with the result of its \<^verbatim>\<open>malloc\<close> as the argument \<open>node\<close>.
  The code does not test it: a null \<open>node\<close> is written through.  C's division and
  remainder truncate towards zero, so a negative sum would index the slots below 0.
\<close>

definition add_timer :: "int \<Rightarrow> ptr \<Rightarrow> ptr \<Rightarrow> timer_wheel \<Rightarrow> timer_wheel res" where
  "add_timer len ut node w =
     bnd (c_int (len + int (current w))) (\<lambda>sum.
       let pos = sum smod int TIME_WHEEL_SIZE in
       if node = NULL then Inl NullDeref
       else if pos < 0 \<or> int (length (slot w)) \<le> pos then Inl IndexRange
       else Inr (w\<lparr>tnodes := (tnodes w)(node \<mapsto>
                     \<lparr>nxt = slot w ! nat pos, rotation = len sdiv int TIME_WHEEL_SIZE,
                      tn_ut = ut\<rparr>),
                   slot := (slot w)[nat pos := node]\<rparr>))"


subsection \<open>Linked lists of timer nodes\<close>

text \<open>\<open>tseg m p xs q\<close>: following \<^verbatim>\<open>next\<close> from \<open>p\<close> visits the nodes \<open>xs\<close> and arrives at \<open>q\<close>.\<close>

fun tseg :: "(ptr \<rightharpoonup> timer_node) \<Rightarrow> ptr \<Rightarrow> ptr list \<Rightarrow> ptr \<Rightarrow> bool" where
  "tseg m p [] q = (p = q)"
| "tseg m p (a # as) q =
     (p = a \<and> a \<noteq> NULL \<and> (case m a of None \<Rightarrow> False | Some n \<Rightarrow> tseg m (nxt n) as q))"

abbreviation tlist :: "(ptr \<rightharpoonup> timer_node) \<Rightarrow> ptr \<Rightarrow> ptr list \<Rightarrow> bool" where
  "tlist m p xs \<equiv> tseg m p xs NULL"

text \<open>The payload of a node, without its link.\<close>

definition payload :: "(ptr \<rightharpoonup> timer_node) \<Rightarrow> ptr \<rightharpoonup> (int \<times> ptr)" where
  "payload m a = map_option (\<lambda>n. (rotation n, tn_ut n)) (m a)"

lemma tseg_append: "tseg m p (xs @ ys) q \<longleftrightarrow> (\<exists>r. tseg m p xs r \<and> tseg m r ys q)"
  by (induction m p xs q rule: tseg.induct) (auto split: option.splits)

lemma tseg_cong: "(\<And>a. a \<in> set xs \<Longrightarrow> map_option nxt (m' a) = map_option nxt (m a)) \<Longrightarrow>
  tseg m' p xs q = tseg m p xs q"
proof (induction xs arbitrary: p)
  case (Cons a xs)
  have "map_option nxt (m' a) = map_option nxt (m a)" using Cons.prems by simp
  moreover have "tseg m' r xs q = tseg m r xs q" for r using Cons by simp
  ultimately show ?case by (cases "m a"; cases "m' a") auto
qed simp

lemma tseg_alloc: "tseg m p xs q \<Longrightarrow> a \<in> set xs \<Longrightarrow> a \<noteq> NULL \<and> m a \<noteq> None"
  by (induction xs arbitrary: p) (auto split: option.splits)

text \<open>The place whose content is the tail of the list after the nodes \<open>pre\<close> of slot \<open>i\<close>.\<close>

definition place_of :: "nat \<Rightarrow> ptr list \<Rightarrow> place" where
  "place_of i pre = (if pre = [] then Slot i else NextOf (last pre))"

lemma place_of_simps [simp]:
  "place_of i [] = Slot i" "place_of i (pre @ [a]) = NextOf a"
  by (simp_all add: place_of_def)

lemma read_place_of:
  assumes "i < length (slot w)" "tseg (tnodes w) (slot w ! i) pre q"
  shows "read_place w (place_of i pre) = Inr q"
  using assms
  by (cases pre rule: rev_cases)
    (auto simp: read_place_def tseg_append split: option.splits)

lemma write_place_of:
  assumes "i < length (slot w)" "tseg (tnodes w) (slot w ! i) pre q" "distinct pre"
  shows "\<exists>w'. write_place w (place_of i pre) v = Inr w' \<and>
     tseg (tnodes w') (slot w' ! i) pre v \<and> payload (tnodes w') = payload (tnodes w) \<and>
     (\<forall>a. a \<notin> set pre \<longrightarrow> tnodes w' a = tnodes w a) \<and>
     length (slot w') = length (slot w) \<and> (\<forall>j. j \<noteq> i \<longrightarrow> slot w' ! j = slot w ! j) \<and>
     current w' = current w"
proof (cases pre rule: rev_cases)
  case Nil
  with assms show ?thesis by (auto simp: write_place_def)
next
  case (snoc ys y)
  from assms(2) snoc obtain n where y: "y \<noteq> NULL" "tnodes w y = Some n"
    and ys: "tseg (tnodes w) (slot w ! i) ys y"
    by (auto simp: tseg_append split: option.splits)
  let ?m = "(tnodes w)(y \<mapsto> n\<lparr>nxt := v\<rparr>)"
  have "tseg ?m (slot w ! i) ys y"
    using ys assms(3) snoc by (subst tseg_cong [where m = "tnodes w"]) auto
  with y snoc show ?thesis
    by (auto simp: write_place_def tseg_append payload_def fun_eq_iff)
qed

text \<open>What a slot holds after \<open>tick\<close>, and the threads that are signalled.\<close>

definition tick_payload :: "int \<times> ptr \<Rightarrow> (int \<times> ptr) option" where
  "tick_payload x = (case x of (r, u) \<Rightarrow> if r > 0 then Some (r - 1, u) else None)"

definition kept :: "(ptr \<rightharpoonup> timer_node) \<Rightarrow> ptr list \<Rightarrow> ptr list" where
  "kept m xs = filter (\<lambda>a. case payload m a of None \<Rightarrow> False | Some (r, u) \<Rightarrow> r > 0) xs"

definition due_signal :: "ut_view \<Rightarrow> ptr \<Rightarrow> nat list" where
  "due_signal view u =
     (case view u of Inl e \<Rightarrow> [] | Inr (waiting, tid) \<Rightarrow> if waiting = 1 then [tid] else [])"

definition signals_of :: "ut_view \<Rightarrow> (int \<times> ptr) list \<Rightarrow> nat list" where
  "signals_of view xs = concat (map (\<lambda>(r, u). if r > 0 then [] else due_signal view u) xs)"

text \<open>Reading a uthread succeeds, and so does sending it the signal if it is due.\<close>

definition view_ok :: "ut_view \<Rightarrow> (nat \<Rightarrow> int) \<Rightarrow> ptr \<Rightarrow> bool" where
  "view_ok view pthread_kill u =
     (case view u of Inl e \<Rightarrow> False
      | Inr (waiting, tid) \<Rightarrow> (waiting = 1 \<longrightarrow> pthread_kill tid = 0))"

definition payloads :: "(ptr \<rightharpoonup> timer_node) \<Rightarrow> ptr list \<Rightarrow> (int \<times> ptr) list" where
  "payloads m xs = map (the \<circ> payload m) xs"

lemma kept_cong: "(\<And>a. a \<in> set xs \<Longrightarrow> payload m' a = payload m a) \<Longrightarrow> kept m' xs = kept m xs"
  by (auto simp: kept_def intro!: filter_cong split: option.splits)

lemma payloads_cong:
  "(\<And>a. a \<in> set xs \<Longrightarrow> payload m' a = payload m a) \<Longrightarrow> payloads m' xs = payloads m xs"
  by (simp add: payloads_def)

text \<open>
  The effect of walking the nodes \<open>xs\<close> of slot \<open>i\<close>, which stand behind the nodes \<open>pre\<close>:
  the due nodes are unlinked and freed, the others are counted down, nothing else changes.
\<close>

definition slot_ticked :: "nat \<Rightarrow> ptr list \<Rightarrow> ptr list \<Rightarrow> timer_wheel \<Rightarrow> timer_wheel \<Rightarrow> bool" where
  "slot_ticked i pre xs w w' \<longleftrightarrow>
     tlist (tnodes w') (slot w' ! i) (pre @ kept (tnodes w) xs) \<and>
     (\<forall>a. payload (tnodes w') a =
        (if a \<in> set xs then Option.bind (payload (tnodes w) a) tick_payload
         else payload (tnodes w) a)) \<and>
     (\<forall>a. a \<notin> set (pre @ xs) \<longrightarrow> tnodes w' a = tnodes w a) \<and>
     length (slot w') = length (slot w) \<and> (\<forall>j. j \<noteq> i \<longrightarrow> slot w' ! j = slot w ! j) \<and>
     current w' = current w"

lemma slot_ticked_keep:
  assumes "slot_ticked i (pre @ [a]) xs (w\<lparr>tnodes := (tnodes w)(a \<mapsto> n\<lparr>rotation := rotation n - 1\<rparr>)\<rparr>) w'"
    and "tnodes w a = Some n" "rotation n > 0" "a \<notin> set xs"
  shows "slot_ticked i pre (a # xs) w w'"
proof -
  let ?m = "(tnodes w)(a \<mapsto> n\<lparr>rotation := rotation n - 1\<rparr>)"
  have "kept ?m xs = kept (tnodes w) xs"
    using assms(4) by (intro kept_cong) (auto simp: payload_def)
  moreover have "kept (tnodes w) (a # xs) = a # kept (tnodes w) xs"
    using assms(2,3) by (simp add: kept_def payload_def)
  ultimately show ?thesis
    using assms by (auto simp: slot_ticked_def payload_def tick_payload_def)
qed

lemma slot_ticked_drop:
  assumes "slot_ticked i pre xs w1 w'" "tnodes w a = Some n" "\<not> rotation n > 0"
    and "a \<notin> set xs" "a \<notin> set pre"
    and "payload (tnodes w1) = (payload (tnodes w))(a := None)"
    and "\<forall>b. b \<notin> set (a # pre) \<longrightarrow> tnodes w1 b = tnodes w b"
    and "length (slot w1) = length (slot w)" "\<forall>j. j \<noteq> i \<longrightarrow> slot w1 ! j = slot w ! j"
    and "current w1 = current w"
  shows "slot_ticked i pre (a # xs) w w'"
proof -
  have "kept (tnodes w1) xs = kept (tnodes w) xs"
    using assms(4,6) by (intro kept_cong) auto
  moreover have "kept (tnodes w) (a # xs) = kept (tnodes w) xs"
    using assms(2,3) by (simp add: kept_def payload_def)
  moreover have "payload (tnodes w) a = Some (rotation n, tn_ut n)"
    using assms(2) by (simp add: payload_def)
  ultimately show ?thesis
    using assms by (auto simp: slot_ticked_def tick_payload_def)
qed

text \<open>One turn of the loop at a node that is counted down, and at a node that is due.\<close>

lemma tick_turn_keep:
  assumes "read_place w cur = Inr a" "a \<noteq> NULL" "tnodes w a = Some n" "rotation n > 0"
  shows "tick_turn view pthread_kill (cur, w, sigs) =
    Inr (Some (NextOf a, w\<lparr>tnodes := (tnodes w)(a \<mapsto> n\<lparr>rotation := rotation n - 1\<rparr>)\<rparr>, sigs))"
  using assms by (simp add: tick_turn_def)

lemma tick_turn_drop:
  assumes "i < length (slot w)" "tseg (tnodes w) (slot w ! i) pre a" "tlist (tnodes w) (nxt n) xs"
    and "distinct (pre @ a # xs)" "a \<noteq> NULL" "tnodes w a = Some n" "\<not> rotation n > 0"
    and "view_ok view pthread_kill (tn_ut n)"
  shows "\<exists>w1. tick_turn view pthread_kill (place_of i pre, w, sigs) =
        Inr (Some (place_of i pre, w1, sigs @ due_signal view (tn_ut n))) \<and>
      tlist (tnodes w1) (slot w1 ! i) (pre @ xs) \<and>
      payload (tnodes w1) = (payload (tnodes w))(a := None) \<and>
      (\<forall>b. b \<notin> set (a # pre) \<longrightarrow> tnodes w1 b = tnodes w b) \<and>
      length (slot w1) = length (slot w) \<and> (\<forall>j. j \<noteq> i \<longrightarrow> slot w1 ! j = slot w ! j) \<and>
      current w1 = current w"
proof -
  obtain wt tid where view: "view (tn_ut n) = Inr (wt, tid)" "wt = 1 \<longrightarrow> pthread_kill tid = 0"
    using assms(8) by (auto simp: view_ok_def split: sum.splits)
  obtain w0 where w0: "write_place w (place_of i pre) (nxt n) = Inr w0"
    "tseg (tnodes w0) (slot w0 ! i) pre (nxt n)" "payload (tnodes w0) = payload (tnodes w)"
    "\<forall>b. b \<notin> set pre \<longrightarrow> tnodes w0 b = tnodes w b" "length (slot w0) = length (slot w)"
    "\<forall>j. j \<noteq> i \<longrightarrow> slot w0 ! j = slot w ! j" "current w0 = current w"
    using write_place_of [OF assms(1,2), where v = "nxt n"] assms(4) by auto
  let ?w = "w0\<lparr>tnodes := (tnodes w0)(a := None)\<rparr>"
  have "tick_turn view pthread_kill (place_of i pre, w, sigs) =
      Inr (Some (place_of i pre, ?w, sigs @ due_signal view (tn_ut n)))"
    using read_place_of [OF assms(1,2)] assms(5-7) view w0(1)
    by (auto simp: tick_turn_def due_signal_def)
  moreover have "tseg (tnodes ?w) (slot w0 ! i) pre (nxt n)"
    using w0(2) assms(4) by (subst tseg_cong [where m = "tnodes w0"]) auto
  moreover have "tlist (tnodes ?w) (nxt n) xs"
    using assms(3,4) w0(4) by (subst tseg_cong [where m = "tnodes w"]) auto
  moreover have "payload (tnodes ?w) = (payload (tnodes w))(a := None)"
    using w0(3) by (auto simp: payload_def fun_eq_iff)
  ultimately show ?thesis
    using w0 by (intro exI [of _ ?w]) (auto simp: tseg_append)
qed

lemma tick_loop_step:
  "tick_turn view pthread_kill s = Inr (Some s') \<Longrightarrow>
   tick_loop view pthread_kill s = tick_loop view pthread_kill s'"
  by (subst tick_loop.simps) simp

lemma tick_loop_slot:
  assumes "i < length (slot w)" "tlist (tnodes w) (slot w ! i) (pre @ xs)" "distinct (pre @ xs)"
    and "\<forall>(r, u) \<in> set (payloads (tnodes w) xs). r \<le> 0 \<longrightarrow> view_ok view pthread_kill u"
  shows "\<exists>w'. tick_loop view pthread_kill (place_of i pre, w, sigs) =
       Some (Inr (w', sigs @ signals_of view (payloads (tnodes w) xs))) \<and>
     slot_ticked i pre xs w w'"
  using assms
proof (induction xs arbitrary: pre w sigs)
  case Nil
  then have "tick_turn view pthread_kill (place_of i pre, w, sigs) = Inr None"
    by (simp add: tick_turn_def read_place_of)
  with Nil show ?case
    by (subst tick_loop.simps)
      (auto simp: slot_ticked_def kept_def signals_of_def payloads_def)
next
  case (Cons a xs)
  from Cons.prems(2) obtain n where a: "a \<noteq> NULL" "tnodes w a = Some n"
    and pre: "tseg (tnodes w) (slot w ! i) pre a" and xs: "tlist (tnodes w) (nxt n) xs"
    by (auto simp: tseg_append split: option.splits)
  have rd: "read_place w (place_of i pre) = Inr a"
    using Cons.prems(1) pre by (rule read_place_of)
  have pay: "payloads (tnodes w) (a # xs) = (rotation n, tn_ut n) # payloads (tnodes w) xs"
    using a by (simp add: payloads_def payload_def)
  show ?case
  proof (cases "rotation n > 0")
    case True
    let ?w = "w\<lparr>tnodes := (tnodes w)(a \<mapsto> n\<lparr>rotation := rotation n - 1\<rparr>)\<rparr>"
    have same: "payloads (tnodes ?w) xs = payloads (tnodes w) xs"
      using Cons.prems(3) by (intro payloads_cong) (auto simp: payload_def)
    have seg: "tlist (tnodes ?w) (slot ?w ! i) ((pre @ [a]) @ xs)"
      using Cons.prems(2) a by (subst tseg_cong [where m = "tnodes w"]) auto
    have ok: "\<forall>(r, u) \<in> set (payloads (tnodes ?w) xs). r \<le> 0 \<longrightarrow> view_ok view pthread_kill u"
      unfolding same using Cons.prems(4) pay by simp
    have "\<exists>w'. tick_loop view pthread_kill (place_of i (pre @ [a]), ?w, sigs) =
         Some (Inr (w', sigs @ signals_of view (payloads (tnodes ?w) xs))) \<and>
       slot_ticked i (pre @ [a]) xs ?w w'"
      using Cons.prems(1,3) by (intro Cons.IH [OF _ seg _ ok]) auto
    then obtain w' where w': "slot_ticked i (pre @ [a]) xs ?w w'"
      "tick_loop view pthread_kill (place_of i (pre @ [a]), ?w, sigs) =
         Some (Inr (w', sigs @ signals_of view (payloads (tnodes ?w) xs)))"
      by blast
    have "slot_ticked i pre (a # xs) w w'"
      using w'(1) a(2) True Cons.prems(3) by (intro slot_ticked_keep) auto
    then show ?thesis
      using w'(2) tick_loop_step [OF tick_turn_keep [OF rd a True]] pay True same
      by (simp add: signals_of_def)
  next
    case False
    obtain w1 where w1: "tick_turn view pthread_kill (place_of i pre, w, sigs) =
        Inr (Some (place_of i pre, w1, sigs @ due_signal view (tn_ut n)))"
      "tlist (tnodes w1) (slot w1 ! i) (pre @ xs)"
      "payload (tnodes w1) = (payload (tnodes w))(a := None)"
      "\<forall>b. b \<notin> set (a # pre) \<longrightarrow> tnodes w1 b = tnodes w b" "length (slot w1) = length (slot w)"
      "\<forall>j. j \<noteq> i \<longrightarrow> slot w1 ! j = slot w ! j" "current w1 = current w"
      using tick_turn_drop [OF Cons.prems(1) pre xs Cons.prems(3) a False, of view pthread_kill sigs]
        Cons.prems(4) pay False by auto
    have same: "payloads (tnodes w1) xs = payloads (tnodes w) xs"
      using Cons.prems(3) w1(3) by (intro payloads_cong) auto
    obtain w' where w': "slot_ticked i pre xs w1 w'"
      "tick_loop view pthread_kill (place_of i pre, w1, sigs @ due_signal view (tn_ut n)) =
         Some (Inr (w', (sigs @ due_signal view (tn_ut n)) @ signals_of view (payloads (tnodes w1) xs)))"
      using Cons.IH [of w1 pre "sigs @ due_signal view (tn_ut n)"] Cons.prems pay same w1(2,5) by auto
    have "slot_ticked i pre (a # xs) w w'"
      using w'(1) a(2) False Cons.prems(3) w1(3-) by (intro slot_ticked_drop [where ?w1.0 = w1]) auto
    then show ?thesis
      using w'(2) tick_loop_step [OF w1(1)] pay False same by (simp add: signals_of_def)
  qed
qed

subsection \<open>The wheel as a bag of count-down timers\<close>

text \<open>
  \<open>wheel_rep w xss\<close>: slot \<open>i\<close> of \<open>w\<close> is the list of the nodes \<open>xss ! i\<close>; the nodes are
  pairwise distinct, nothing else is allocated, and no rotation counter is negative.
\<close>

definition wheel_rep :: "timer_wheel \<Rightarrow> ptr list list \<Rightarrow> bool" where
  "wheel_rep w xss \<longleftrightarrow>
     length (slot w) = TIME_WHEEL_SIZE \<and> length xss = TIME_WHEEL_SIZE \<and>
     current w < TIME_WHEEL_SIZE \<and>
     (\<forall>i < TIME_WHEEL_SIZE. tlist (tnodes w) (slot w ! i) (xss ! i)) \<and>
     distinct (concat xss) \<and> dom (tnodes w) = set (concat xss) \<and>
     (\<forall>(r, u) \<in> ran (payload (tnodes w)). 0 \<le> r)"

text \<open>The number of ticks that pass before the tick at which a node of slot \<open>i\<close> is due.\<close>

definition remaining :: "nat \<Rightarrow> nat \<Rightarrow> int \<Rightarrow> nat" where
  "remaining c i r = nat ((int i - int c) mod int TIME_WHEEL_SIZE + int TIME_WHEEL_SIZE * r)"

definition slot_bag :: "nat \<Rightarrow> nat \<Rightarrow> (int \<times> ptr) list \<Rightarrow> (nat \<times> ptr) multiset" where
  "slot_bag c i ps = image_mset (\<lambda>(r, u). (remaining c i r, u)) (mset ps)"

definition wheel_bag :: "timer_wheel \<Rightarrow> ptr list list \<Rightarrow> (nat \<times> ptr) multiset" where
  "wheel_bag w xss =
     (\<Sum>i < TIME_WHEEL_SIZE. slot_bag (current w) i (payloads (tnodes w) (xss ! i)))"

text \<open>The abstract timer: a tick takes the timers at zero out and counts the others down.\<close>

definition spec_tick :: "(nat \<times> ptr) multiset \<Rightarrow> (nat \<times> ptr) multiset" where
  "spec_tick B = image_mset (\<lambda>(k, u). (k - 1, u)) (filter_mset (\<lambda>(k, u). 0 < k) B)"

definition spec_signals :: "ut_view \<Rightarrow> (nat \<times> ptr) multiset \<Rightarrow> nat multiset" where
  "spec_signals view B =
     (\<Sum>(k, u) \<in># B. if k = 0 then mset (due_signal view u) else {#})"

text \<open>The simulation relation between the wheel and the bag.\<close>

definition simulates :: "timer_wheel \<Rightarrow> (nat \<times> ptr) multiset \<Rightarrow> bool" where
  "simulates w B \<longleftrightarrow> (\<exists>xss. wheel_rep w xss \<and> B = wheel_bag w xss)"

lemma spec_tick_sum: "finite A \<Longrightarrow> spec_tick (\<Sum>i \<in> A. f i) = (\<Sum>i \<in> A. spec_tick (f i))"
  by (induction A rule: finite_induct) (simp_all add: spec_tick_def)

lemma spec_signals_sum:
  "finite A \<Longrightarrow> spec_signals view (\<Sum>i \<in> A. f i) = (\<Sum>i \<in> A. spec_signals view (f i))"
  by (induction A rule: finite_induct) (simp_all add: spec_signals_def)


text \<open>The arithmetic of the wheel: one tick brings every node one step nearer.\<close>

lemma remaining_current: "remaining c c r = nat (10 * r)"
  by (simp add: remaining_def TIME_WHEEL_SIZE_def)

lemma remaining_current_tick:
  assumes "0 < r" "c < TIME_WHEEL_SIZE"
  shows "remaining (Suc c mod TIME_WHEEL_SIZE) c (r - 1) = remaining c c r - 1"
proof -
  have "(int c - int (Suc c mod 10)) mod 10 = 9"
    by (simp add: zmod_int mod_diff_right_eq)
  with assms show ?thesis by (simp add: remaining_def TIME_WHEEL_SIZE_def)
qed

lemma remaining_other_tick:
  assumes "0 \<le> r" "i \<noteq> c" "c < TIME_WHEEL_SIZE" "i < TIME_WHEEL_SIZE"
  shows "0 < remaining c i r" "remaining (Suc c mod TIME_WHEEL_SIZE) i r = remaining c i r - 1"
proof -
  let ?d = "(int i - int c) mod 10"
  have d: "0 < ?d"
    using assms(2-4) unfolding TIME_WHEEL_SIZE_def by presburger
  have "(int i - int (Suc c mod 10)) mod 10 = (?d - 1) mod 10"
    by (simp add: zmod_int mod_diff_right_eq mod_diff_left_eq algebra_simps)
  also have "\<dots> = ?d - 1"
    using d by (intro mod_pos_pos_trivial) auto
  finally have nx: "(int i - int (Suc c mod 10)) mod 10 = ?d - 1" .
  show "0 < remaining c i r"
    using d assms(1) by (simp add: remaining_def TIME_WHEEL_SIZE_def)
  show "remaining (Suc c mod TIME_WHEEL_SIZE) i r = remaining c i r - 1"
    using d assms(1) unfolding remaining_def TIME_WHEEL_SIZE_def of_nat_numeral nx by simp
qed

lemma slot_bag_current_tick:
  assumes "\<forall>(r, u) \<in> set ps. 0 \<le> r" "c < TIME_WHEEL_SIZE"
  shows "slot_bag (Suc c mod TIME_WHEEL_SIZE) c
      (map (\<lambda>(r, u). (r - 1, u)) (filter (\<lambda>(r, u). 0 < r) ps)) = spec_tick (slot_bag c c ps)"
  using assms
  by (induction ps)
    (auto simp: slot_bag_def spec_tick_def remaining_current_tick, auto simp: remaining_current)

lemma slot_bag_other_tick:
  assumes "\<forall>(r, u) \<in> set ps. 0 \<le> r" "i \<noteq> c" "c < TIME_WHEEL_SIZE" "i < TIME_WHEEL_SIZE"
  shows "slot_bag (Suc c mod TIME_WHEEL_SIZE) i ps = spec_tick (slot_bag c i ps)"
  using assms
  by (induction ps) (auto simp: slot_bag_def spec_tick_def remaining_other_tick)

lemma slot_bag_current_signals:
  assumes "\<forall>(r, u) \<in> set ps. 0 \<le> r"
  shows "spec_signals view (slot_bag c c ps) = mset (signals_of view ps)"
  using assms
  by (induction ps)
    (auto simp: slot_bag_def spec_signals_def signals_of_def remaining_current)

lemma slot_bag_other_signals:
  assumes "\<forall>(r, u) \<in> set ps. 0 \<le> r" "i \<noteq> c" "c < TIME_WHEEL_SIZE" "i < TIME_WHEEL_SIZE"
  shows "spec_signals view (slot_bag c i ps) = {#}"
  using assms
  by (induction ps) (auto simp: slot_bag_def spec_signals_def dest: remaining_other_tick(1))

lemma payloads_kept:
  assumes "\<And>a. a \<in> set xs \<Longrightarrow> payload m a \<noteq> None"
    and "\<And>a. a \<in> set xs \<Longrightarrow> payload m' a = Option.bind (payload m a) tick_payload"
  shows "payloads m' (kept m xs) =
    map (\<lambda>(r, u). (r - 1, u)) (filter (\<lambda>(r, u). 0 < r) (payloads m xs))"
  using assms
proof (induction xs)
  case (Cons a xs)
  obtain r u where "payload m a = Some (r, u)" using Cons.prems(1) [of a] by auto
  moreover have "payload m' a = Option.bind (payload m a) tick_payload"
    using Cons.prems(2) by simp
  ultimately show ?case
    using Cons by (simp add: payloads_def kept_def tick_payload_def)
qed (simp add: payloads_def kept_def)

text \<open>Replacing one list of a list of lists by a part of it.\<close>

lemma nth_disjoint:
  assumes "distinct (concat xss)" "i < length xss" "j < length xss" "i \<noteq> j"
  shows "set (xss ! i) \<inter> set (xss ! j) = {}"
  using assms
proof (induction xss arbitrary: i j)
  case (Cons xs xss)
  have "set (xss ! k) \<subseteq> set (concat xss)" if "k < length xss" for k
    using nth_mem [OF that] by auto
  with Cons show ?case by (cases i; cases j) fastforce+
qed simp

lemma concat_update_filter:
  assumes "distinct (concat xss)" "i < length xss"
  shows "distinct (concat (xss[i := filter P (xss ! i)]))"
    and "set (concat (xss[i := filter P (xss ! i)])) =
      {a \<in> set (concat xss). a \<in> set (xss ! i) \<longrightarrow> P a}"
proof -
  have xss: "xss = take i xss @ xss ! i # drop (Suc i) xss"
    using assms(2) by (rule id_take_nth_drop)
  have upd: "xss[i := filter P (xss ! i)] = take i xss @ filter P (xss ! i) # drop (Suc i) xss"
    using assms(2) by (rule upd_conv_take_nth_drop)
  have dist: "distinct (concat (take i xss @ xss ! i # drop (Suc i) xss))"
    using assms(1) xss by simp
  show "distinct (concat (xss[i := filter P (xss ! i)]))"
    unfolding upd using dist by auto
  have "set (concat xss) = set (concat (take i xss @ xss ! i # drop (Suc i) xss))"
    using xss by simp
  then show "set (concat (xss[i := filter P (xss ! i)])) =
      {a \<in> set (concat xss). a \<in> set (xss ! i) \<longrightarrow> P a}"
    unfolding upd using dist by (simp only:) auto
qed

lemma payload_None [simp]: "payload m a = None \<longleftrightarrow> m a = None"
  by (simp add: payload_def)

lemma wheel_rep_payloads:
  assumes "wheel_rep w xss" "i < TIME_WHEEL_SIZE"
  shows "\<forall>(r, u) \<in> set (payloads (tnodes w) (xss ! i)). 0 \<le> r"
    and "a \<in> set (xss ! i) \<Longrightarrow> payload (tnodes w) a \<noteq> None"
proof -
  have al: "tnodes w a \<noteq> None" if "a \<in> set (xss ! i)" for a
    using assms that tseg_alloc by (fastforce simp: wheel_rep_def)
  then show "a \<in> set (xss ! i) \<Longrightarrow> payload (tnodes w) a \<noteq> None" by simp
  show "\<forall>(r, u) \<in> set (payloads (tnodes w) (xss ! i)). 0 \<le> r"
  proof safe
    fix r u assume "(r, u) \<in> set (payloads (tnodes w) (xss ! i))"
    then obtain a where "a \<in> set (xss ! i)" "the (payload (tnodes w) a) = (r, u)"
      by (auto simp: payloads_def)
    with al [of a] have "payload (tnodes w) a = Some (r, u)"
      by (auto simp: payload_def)
    then have "(r, u) \<in> ran (payload (tnodes w))" by (rule ranI)
    then show "0 \<le> r" using assms(1) by (auto simp: wheel_rep_def)
  qed
qed

lemma tick_payload_bind:
  "Option.bind x tick_payload \<noteq> None \<longleftrightarrow> (case x of None \<Rightarrow> False | Some (r, u) \<Rightarrow> 0 < r)"
  by (auto simp: tick_payload_def split: option.splits)

text \<open>Walking the current slot and advancing the hand keeps the representation.\<close>

lemma wheel_rep_ticked:
  assumes rep: "wheel_rep w xss" and c: "c = current w"
    and ticked: "slot_ticked c [] (xss ! c) w w0"
  defines "w' \<equiv> w0\<lparr>current := Suc c mod TIME_WHEEL_SIZE\<rparr>"
    and "xss' \<equiv> xss[c := kept (tnodes w) (xss ! c)]"
  shows "wheel_rep w' xss'" "wheel_bag w' xss' = spec_tick (wheel_bag w xss)"
proof -
  have c10: "c < TIME_WHEEL_SIZE" "c < length xss" and len: "length xss = TIME_WHEEL_SIZE"
    using rep c by (simp_all add: wheel_rep_def)
  have dist: "distinct (concat xss)" and dom: "dom (tnodes w) = set (concat xss)"
    using rep by (simp_all add: wheel_rep_def)
  note t = ticked [unfolded slot_ticked_def, simplified]
  have pay_c: "payload (tnodes w0) a = Option.bind (payload (tnodes w) a) tick_payload"
    if "a \<in> set (xss ! c)" for a using t that by simp
  have pay_o: "payload (tnodes w0) a = payload (tnodes w) a" if "a \<notin> set (xss ! c)" for a
    using t that by simp
  have frame: "set (xss ! i) \<inter> set (xss ! c) = {}" if "i < TIME_WHEEL_SIZE" "i \<noteq> c" for i
    using nth_disjoint [OF dist _ c10(2) that(2)] that(1) len by simp
  have "tlist (tnodes w0) (slot w0 ! i) (xss' ! i)" if "i < TIME_WHEEL_SIZE" for i
  proof (cases "i = c")
    case True
    with t c10 show ?thesis by (simp add: xss'_def)
  next
    case False
    have "tlist (tnodes w) (slot w ! i) (xss ! i)"
      using rep that by (simp add: wheel_rep_def)
    then have "tlist (tnodes w0) (slot w ! i) (xss ! i)"
      using t frame [OF that False] by (subst tseg_cong [where m = "tnodes w"]) auto
    with t False show ?thesis by (simp add: xss'_def)
  qed
  moreover have "dom (tnodes w0) = set (concat xss')"
  proof -
    have "a \<in> dom (tnodes w0) \<longleftrightarrow> a \<in> set (concat xss')" for a
    proof -
      have "a \<in> dom (tnodes w0) \<longleftrightarrow> payload (tnodes w0) a \<noteq> None" by (simp add: domIff)
      also have "\<dots> \<longleftrightarrow> payload (tnodes w) a \<noteq> None \<and> (a \<in> set (xss ! c) \<longrightarrow>
          (case payload (tnodes w) a of None \<Rightarrow> False | Some (r, u) \<Rightarrow> 0 < r))"
        using pay_c [of a] pay_o [of a] tick_payload_bind [of "payload (tnodes w) a"]
        by (cases "a \<in> set (xss ! c)") (auto simp del: payload_None split: option.splits)
      also have "payload (tnodes w) a \<noteq> None \<longleftrightarrow> a \<in> dom (tnodes w)" by (simp add: domIff)
      also have "a \<in> dom (tnodes w) \<and> (a \<in> set (xss ! c) \<longrightarrow>
          (case payload (tnodes w) a of None \<Rightarrow> False | Some (r, u) \<Rightarrow> 0 < r)) \<longleftrightarrow>
          a \<in> set (concat xss')"
        unfolding xss'_def kept_def concat_update_filter(2) [OF dist c10(2)] dom by simp
      finally show ?thesis .
    qed
    then show ?thesis by blast
  qed
  moreover have "\<forall>(r, u) \<in> ran (payload (tnodes w0)). 0 \<le> r"
    using rep t by (fastforce simp: wheel_rep_def ran_def tick_payload_def
        split: if_splits bind_splits)
  ultimately show "wheel_rep w' xss'"
    using rep t c10 concat_update_filter(1) [OF dist c10(2)]
    by (auto simp: wheel_rep_def w'_def xss'_def kept_def)
  have "slot_bag (current w') i (payloads (tnodes w') (xss' ! i)) =
      spec_tick (slot_bag (current w) i (payloads (tnodes w) (xss ! i)))"
    if "i < TIME_WHEEL_SIZE" for i
  proof (cases "i = c")
    case True
    have "payloads (tnodes w0) (kept (tnodes w) (xss ! c)) =
        map (\<lambda>(r, u). (r - 1, u)) (filter (\<lambda>(r, u). 0 < r) (payloads (tnodes w) (xss ! c)))"
      by (rule payloads_kept) (use wheel_rep_payloads(2) [OF rep c10(1)] pay_c in auto)
    with True show ?thesis
      using slot_bag_current_tick [OF wheel_rep_payloads(1) [OF rep c10(1)] c10(1)] c c10(2)
      by (simp add: w'_def xss'_def)
  next
    case False
    have "payloads (tnodes w0) (xss ! i) = payloads (tnodes w) (xss ! i)"
      using frame [OF that False] by (intro payloads_cong pay_o) auto
    with False show ?thesis
      using slot_bag_other_tick [OF wheel_rep_payloads(1) [OF rep that] False c10(1) that] c
      by (simp add: w'_def xss'_def)
  qed
  then show "wheel_bag w' xss' = spec_tick (wheel_bag w xss)"
    unfolding wheel_bag_def by (simp add: spec_tick_sum)
qed


lemma spec_signals_bag:
  assumes "wheel_rep w xss"
  shows "spec_signals view (wheel_bag w xss) =
    mset (signals_of view (payloads (tnodes w) (xss ! current w)))"
proof -
  let ?c = "current w"
  let ?s = "\<lambda>i. spec_signals view (slot_bag ?c i (payloads (tnodes w) (xss ! i)))"
  have c: "?c < TIME_WHEEL_SIZE" using assms by (simp add: wheel_rep_def)
  have "?s i = {#}" if "i \<in> {..<TIME_WHEEL_SIZE} - {?c}" for i
    using that c wheel_rep_payloads(1) [OF assms, of i] by (intro slot_bag_other_signals) auto
  then have "(\<Sum>i < TIME_WHEEL_SIZE. ?s i) = ?s ?c"
    using c by (subst sum.remove [of _ ?c]) auto
  then show ?thesis
    using slot_bag_current_signals [OF wheel_rep_payloads(1) [OF assms c]]
    by (simp add: wheel_bag_def spec_signals_sum)
qed

lemma tick_simulates:
  assumes "simulates w B"
    and "\<forall>(k, u) \<in># B. k = 0 \<longrightarrow> view_ok view pthread_kill u"
  shows "\<exists>w' sigs. tick view pthread_kill w = Some (Inr (w', sigs)) \<and>
    simulates w' (spec_tick B) \<and> mset sigs = spec_signals view B"
proof -
  let ?c = "current w"
  obtain xss where rep: "wheel_rep w xss" and B: "B = wheel_bag w xss"
    using assms(1) by (auto simp: simulates_def)
  have c: "?c < TIME_WHEEL_SIZE" "?c < length (slot w)" "?c < length xss"
    and seg: "tlist (tnodes w) (slot w ! ?c) ([] @ xss ! ?c)" and dist: "distinct (concat xss)"
    using rep by (simp_all add: wheel_rep_def)
  have "distinct ([] @ xss ! ?c)"
    using dist c(3) by (simp add: distinct_concat_iff)
  moreover have "\<forall>(r, u) \<in> set (payloads (tnodes w) (xss ! ?c)). r \<le> 0 \<longrightarrow>
      view_ok view pthread_kill u"
  proof safe
    fix r u
    assume ru: "(r, u) \<in> set (payloads (tnodes w) (xss ! ?c))" and "r \<le> 0"
    then have "(0, u) \<in># slot_bag ?c ?c (payloads (tnodes w) (xss ! ?c))"
      by (force simp: slot_bag_def remaining_current)
    then have "(0, u) \<in># B" using c(1)
      unfolding B wheel_bag_def by (subst sum.remove [of _ ?c]) auto
    with assms(2) show "view_ok view pthread_kill u" by auto
  qed
  ultimately obtain w0 where w0: "tick_loop view pthread_kill (place_of ?c [], w, []) =
       Some (Inr (w0, [] @ signals_of view (payloads (tnodes w) (xss ! ?c))))"
    "slot_ticked ?c [] (xss ! ?c) w w0"
    using tick_loop_slot [OF c(2) seg] by blast
  have "current w0 = ?c" using w0(2) by (simp add: slot_ticked_def)
  then show ?thesis
    using w0(1) wheel_rep_ticked [OF rep refl w0(2)] spec_signals_bag [OF rep] B
    by (auto simp: tick_def simulates_def)
qed


subsection \<open>Arming a timer\<close>

lemma smod_nonneg: "0 \<le> a \<Longrightarrow> 0 < b \<Longrightarrow> a smod b = a mod b" for a b :: int
  by (cases "a = 0") (simp_all add: signed_modulo_int_def signed_divide_int_def minus_div_mult_eq_mod)

lemma sdiv_nonneg: "0 \<le> a \<Longrightarrow> 0 < b \<Longrightarrow> a sdiv b = a div b" for a b :: int
  by (cases "a = 0") (simp_all add: signed_divide_int_def)

lemma pos_wheel: "0 < int TIME_WHEEL_SIZE" "0 < TIME_WHEEL_SIZE"
  by (simp_all add: TIME_WHEEL_SIZE_def)

lemma remaining_armed:
  assumes "0 \<le> len" "c < TIME_WHEEL_SIZE"
  shows "remaining c (nat ((len + int c) mod int TIME_WHEEL_SIZE)) (len div int TIME_WHEEL_SIZE) = nat len"
proof -
  have "((len + int c) mod 10 - int c) mod 10 = len mod 10"
    by (simp add: mod_diff_left_eq)
  then show ?thesis by (simp add: remaining_def TIME_WHEEL_SIZE_def)
qed

lemma concat_update_Cons:
  assumes "i < length xss"
  shows "set (concat (xss[i := a # xss ! i])) = insert a (set (concat xss))"
    and "distinct (concat (xss[i := a # xss ! i])) \<longleftrightarrow> a \<notin> set (concat xss) \<and> distinct (concat xss)"
proof -
  have upd: "xss[i := a # xss ! i] = take i xss @ (a # xss ! i) # drop (Suc i) xss"
    using assms by (rule upd_conv_take_nth_drop)
  have cc: "concat xss = concat (take i xss) @ xss ! i @ concat (drop (Suc i) xss)"
    by (subst id_take_nth_drop [OF assms]) simp
  show "set (concat (xss[i := a # xss ! i])) = insert a (set (concat xss))"
    unfolding upd cc by auto
  show "distinct (concat (xss[i := a # xss ! i])) \<longleftrightarrow> a \<notin> set (concat xss) \<and> distinct (concat xss)"
    unfolding upd cc by auto
qed

lemma wheel_rep_armed:
  fixes ut :: ptr
  assumes rep: "wheel_rep w xss" and i: "i < TIME_WHEEL_SIZE" and r: "0 \<le> r"
    and node: "node \<noteq> NULL" "tnodes w node = None"
  defines "w' \<equiv> w\<lparr>tnodes := (tnodes w)(node \<mapsto> \<lparr>nxt = slot w ! i, rotation = r, tn_ut = ut\<rparr>),
      slot := (slot w)[i := node]\<rparr>"
    and "xss' \<equiv> xss[i := node # xss ! i]"
  shows "wheel_rep w' xss'"
    and "wheel_bag w' xss' = add_mset (remaining (current w) i r, ut) (wheel_bag w xss)"
proof -
  have len: "length xss = TIME_WHEEL_SIZE" "length (slot w) = TIME_WHEEL_SIZE"
    and dist: "distinct (concat xss)" and dom: "dom (tnodes w) = set (concat xss)"
    using rep by (simp_all add: wheel_rep_def)
  have ilen: "i < length xss" using len i by simp
  have fresh: "node \<notin> set (concat xss)" using node(2) dom by (metis domIff)
  then have freshj: "node \<notin> set (xss ! j)" if "j < TIME_WHEEL_SIZE" for j
    using len(1) that nth_mem [of j xss] by auto
  have keep: "payload (tnodes w') a = payload (tnodes w) a" if "a \<noteq> node" for a
    using that by (simp add: payload_def w'_def)
  have old: "tlist (tnodes w') (slot w ! j) (xss ! j)" if "j < TIME_WHEEL_SIZE" for j
  proof -
    have "tlist (tnodes w) (slot w ! j) (xss ! j)" using rep that by (simp add: wheel_rep_def)
    then show ?thesis
      using freshj [OF that] by (subst tseg_cong [where m = "tnodes w"]) (auto simp: w'_def)
  qed
  have "tlist (tnodes w') (slot w' ! j) (xss' ! j)" if "j < TIME_WHEEL_SIZE" for j
    using old [OF that] len i node(1) by (cases "j = i") (simp_all add: w'_def xss'_def)
  moreover have "\<forall>(r, u) \<in> ran (payload (tnodes w')). 0 \<le> r"
  proof -
    have "payload (tnodes w') = (payload (tnodes w))(node \<mapsto> (r, ut))"
      by (auto simp: payload_def w'_def fun_eq_iff)
    moreover have "payload (tnodes w) node = None" using node(2) by simp
    ultimately show ?thesis using rep r by (simp add: wheel_rep_def)
  qed
  moreover have "dom (tnodes w') = set (concat xss')"
    unfolding xss'_def concat_update_Cons(1) [OF ilen] using dom by (auto simp: w'_def)
  moreover have "distinct (concat xss')"
    unfolding xss'_def concat_update_Cons(2) [OF ilen] using dist fresh by simp
  ultimately show "wheel_rep w' xss'"
    using rep by (simp add: wheel_rep_def w'_def xss'_def)
  have other: "payloads (tnodes w') (xss ! j) = payloads (tnodes w) (xss ! j)"
    if "j < TIME_WHEEL_SIZE" for j
    using freshj [OF that] by (intro payloads_cong keep) auto
  have "slot_bag (current w) i (payloads (tnodes w') (xss' ! i)) =
      add_mset (remaining (current w) i r, ut) (slot_bag (current w) i (payloads (tnodes w) (xss ! i)))"
  proof -
    have "payloads (tnodes w') (xss' ! i) = (r, ut) # payloads (tnodes w) (xss ! i)"
      unfolding other [OF i, symmetric] using ilen
      by (simp add: xss'_def payloads_def) (simp add: payload_def w'_def)
    then show ?thesis by (simp add: slot_bag_def)
  qed
  moreover have "(\<Sum>j \<in> {..<TIME_WHEEL_SIZE} - {i}. slot_bag (current w) j (payloads (tnodes w') (xss' ! j))) =
      (\<Sum>j \<in> {..<TIME_WHEEL_SIZE} - {i}. slot_bag (current w) j (payloads (tnodes w) (xss ! j)))"
    using other by (intro sum.cong) (auto simp: xss'_def)
  moreover have "current w' = current w" by (simp add: w'_def)
  ultimately show "wheel_bag w' xss' = add_mset (remaining (current w) i r, ut) (wheel_bag w xss)"
    unfolding wheel_bag_def using i by (simp add: sum.remove [of "{..<TIME_WHEEL_SIZE}" i])
qed

lemma add_timer_simulates:
  assumes "simulates w B" "0 \<le> len" "len < 2 ^ 31 - 10" "node \<noteq> NULL" "tnodes w node = None"
  shows "\<exists>w'. add_timer len ut node w = Inr w' \<and> simulates w' (add_mset (nat len, ut) B)"
proof -
  obtain xss where rep: "wheel_rep w xss" and B: "B = wheel_bag w xss"
    using assms(1) by (auto simp: simulates_def)
  let ?c = "current w" let ?pos = "(len + int ?c) mod int TIME_WHEEL_SIZE"
  have c: "?c < TIME_WHEEL_SIZE" "length (slot w) = TIME_WHEEL_SIZE"
    using rep by (simp_all add: wheel_rep_def)
  have pos: "0 \<le> ?pos" "?pos < int TIME_WHEEL_SIZE" "nat ?pos < TIME_WHEEL_SIZE"
    by (simp_all add: TIME_WHEEL_SIZE_def)
  have "c_int (len + int ?c) = Inr (len + int ?c)"
    using assms(2,3) c(1) by (intro c_int_Inr) (simp_all add: TIME_WHEEL_SIZE_def)
  then have "add_timer len ut node w = Inr (w\<lparr>tnodes := (tnodes w)(node \<mapsto>
      \<lparr>nxt = slot w ! nat ?pos, rotation = len div int TIME_WHEEL_SIZE, tn_ut = ut\<rparr>),
      slot := (slot w)[nat ?pos := node]\<rparr>)"
    using assms(2,4) c(2) by (simp add: add_timer_def smod_nonneg sdiv_nonneg Let_def pos_wheel not_le not_less)
  moreover have r: "0 \<le> len div int TIME_WHEEL_SIZE"
    using assms(2) by (simp add: TIME_WHEEL_SIZE_def)
  ultimately show ?thesis
    using wheel_rep_armed [OF rep pos(3) r assms(4,5), of ut] remaining_armed [OF assms(2) c(1)] B
    unfolding simulates_def by metis
qed

lemma static_wheel_simulates: "simulates (create_timewheel static_wheel) {#}"
proof -
  have "wheel_rep (create_timewheel static_wheel) (replicate TIME_WHEEL_SIZE [])"
    by (auto simp: wheel_rep_def create_timewheel_def static_wheel_def TIME_WHEEL_SIZE_def
        payload_def ran_def)
  moreover have "wheel_bag (create_timewheel static_wheel) (replicate TIME_WHEEL_SIZE []) = {#}"
    by (simp add: wheel_bag_def slot_bag_def payloads_def)
  ultimately show ?thesis by (metis simulates_def)
qed


subsection \<open>The interface of a count-down timer\<close>

text \<open>Running \<open>n\<close> ticks, with the signals of each tick.\<close>

fun run_ticks :: "('w \<Rightarrow> ('w \<times> nat list) res option) \<Rightarrow> nat \<Rightarrow> 'w \<Rightarrow> ('w \<times> nat list list) res option" where
  "run_ticks advance 0 w = Some (Inr (w, []))"
| "run_ticks advance (Suc n) w =
     (case advance w of
        None \<Rightarrow> None
      | Some (Inl e) \<Rightarrow> Some (Inl e)
      | Some (Inr (w', sigs)) \<Rightarrow>
          (case run_ticks advance n w' of
             Some (Inr (w'', sigss)) \<Rightarrow> Some (Inr (w'', sigs # sigss))
           | r \<Rightarrow> r))"

text \<open>The timers of a bag that are due at the tick numbered \<open>j\<close> (from 0), as signals.\<close>

definition signals_at :: "ut_view \<Rightarrow> nat \<Rightarrow> (nat \<times> ptr) multiset \<Rightarrow> nat multiset" where
  "signals_at view j B = (\<Sum>(k, u) \<in># B. if k = j then mset (due_signal view u) else {#})"

lemma signals_at_spec_tick: "signals_at view j (spec_tick B) = signals_at view (Suc j) B"
  by (induction B) (auto simp: signals_at_def spec_tick_def)

lemma signals_at_0: "signals_at view 0 B = spec_signals view B"
  by (simp add: signals_at_def spec_signals_def)

text \<open>
  What the scheduler relies on: a representation of a bag of timers that arming extends and
  advancing counts down.  The consequence is proved from this contract alone.
\<close>

locale countdown_timer =
  fixes sim :: "'w \<Rightarrow> (nat \<times> ptr) multiset \<Rightarrow> bool"
    and fresh :: "'w \<Rightarrow> ptr \<Rightarrow> bool"
    and arm :: "int \<Rightarrow> ptr \<Rightarrow> ptr \<Rightarrow> 'w \<Rightarrow> 'w res"
    and advance :: "ut_view \<Rightarrow> (nat \<Rightarrow> int) \<Rightarrow> 'w \<Rightarrow> ('w \<times> nat list) res option"
  assumes arm_sim: "sim w B \<Longrightarrow> fresh w node \<Longrightarrow> 0 \<le> len \<Longrightarrow> len < 2 ^ 31 - 10 \<Longrightarrow>
      \<exists>w'. arm len ut node w = Inr w' \<and> sim w' (add_mset (nat len, ut) B)"
    and advance_sim: "sim w B \<Longrightarrow> \<forall>(k, u) \<in># B. k = 0 \<longrightarrow> view_ok view pthread_kill u \<Longrightarrow>
      \<exists>w' sigs. advance view pthread_kill w = Some (Inr (w', sigs)) \<and>
        sim w' (spec_tick B) \<and> mset sigs = spec_signals view B"
begin

lemma run_ticks_signals:
  assumes "sim w B" "\<forall>(k, u) \<in># B. view_ok view pthread_kill u"
  shows "\<exists>w' sigss. run_ticks (advance view pthread_kill) n w = Some (Inr (w', sigss)) \<and>
    sim w' ((spec_tick ^^ n) B) \<and> map mset sigss = map (\<lambda>j. signals_at view j B) [0..<n]"
  using assms
proof (induction n arbitrary: w B)
  case (Suc n)
  obtain w1 sigs where w1: "advance view pthread_kill w = Some (Inr (w1, sigs))"
    "sim w1 (spec_tick B)" "mset sigs = spec_signals view B"
    using advance_sim [OF Suc.prems(1)] Suc.prems(2) by fast
  have "\<forall>(k, u) \<in># spec_tick B. view_ok view pthread_kill u"
    using Suc.prems(2) by (auto simp: spec_tick_def)
  from Suc.IH [OF w1(2) this] obtain w2 sigss where
    w2: "run_ticks (advance view pthread_kill) n w1 = Some (Inr (w2, sigss))"
      "sim w2 ((spec_tick ^^ n) (spec_tick B))"
      "map mset sigss = map (\<lambda>j. signals_at view (Suc j) B) [0..<n]"
    by (auto simp: signals_at_spec_tick)
  have "map (\<lambda>j. signals_at view j B) [0..<Suc n] =
      signals_at view 0 B # map (\<lambda>j. signals_at view (Suc j) B) [0..<n]"
    by (simp only: upt_conv_Cons map_Suc_upt [symmetric]) (simp add: comp_def)
  with w1 w2 show ?case
    by (simp add: signals_at_0 funpow_swap1)
qed simp

lemma armed_runs:
  assumes "sim w B" "fresh w node" "0 \<le> len" "len < 2 ^ 31 - 10"
    and "view_ok view pthread_kill ut" "\<forall>(k, u) \<in># B. view_ok view pthread_kill u"
  shows "\<exists>w1 w2 sigss. arm len ut node w = Inr w1 \<and>
    run_ticks (advance view pthread_kill) n w1 = Some (Inr (w2, sigss)) \<and>
    map mset sigss =
      map (\<lambda>j. signals_at view j B + (if j = nat len then mset (due_signal view ut) else {#})) [0..<n]"
proof -
  obtain w1 where w1: "arm len ut node w = Inr w1" "sim w1 (add_mset (nat len, ut) B)"
    using arm_sim [OF assms(1-4)] by blast
  have "\<forall>(k, u) \<in># add_mset (nat len, ut) B. view_ok view pthread_kill u"
    using assms(5,6) by auto
  from run_ticks_signals [OF w1(2) this, of n] w1(1) show ?thesis
    by (auto simp: signals_at_def add.commute)
qed

end

interpretation wheel: countdown_timer simulates "\<lambda>w node. node \<noteq> NULL \<and> tnodes w node = None"
  add_timer tick
proof unfold_locales
  fix w B node ut and len :: int
  assume "simulates w B" "node \<noteq> NULL \<and> tnodes w node = None" "0 \<le> len" "len < 2 ^ 31 - 10"
  then show "\<exists>w'. add_timer len ut node w = Inr w' \<and> simulates w' (add_mset (nat len, ut) B)"
    by (intro add_timer_simulates) auto
next
  fix w B view pthread_kill
  assume "simulates w B" "\<forall>(k, u) \<in># B. k = 0 \<longrightarrow> view_ok view pthread_kill u"
  then show "\<exists>w' sigs. tick view pthread_kill w = Some (Inr (w', sigs)) \<and>
      simulates w' (spec_tick B) \<and> mset sigs = spec_signals view B"
    by (rule tick_simulates)
qed


subsection \<open>Properties\<close>

text \<open>
  C20: The timing wheel refines a bag of count-down timers.  If the wheel represents the bag
  \<open>B\<close> and every uthread whose timer is at zero can be read and signalled, \<^verbatim>\<open>tick\<close>
  terminates without failing, the new wheel represents \<open>B\<close> with the timers at zero taken
  out and the others counted down by one, and the threads it signals are those of the
  timers at zero whose uthread waits for the yield signal.
\<close>

theorem tick_refines_countdown:
  assumes "simulates w B" "\<forall>(k, u) \<in># B. k = 0 \<longrightarrow> view_ok view pthread_kill u"
  shows "\<exists>w' sigs. tick view pthread_kill w = Some (Inr (w', sigs)) \<and>
    simulates w' (spec_tick B) \<and> mset sigs = spec_signals view B"
  using assms by (rule wheel.advance_sim)

theorem tick_refines_countdown_witness:
  "\<exists>w1 w2 w3 sigs sigs'. add_timer 1 7 100 (create_timewheel static_wheel) = Inr w1 \<and>
    tick (\<lambda>_. Inr (1, 42)) (\<lambda>_. 0) w1 = Some (Inr (w2, sigs)) \<and> simulates w2 {#(0, 7)#} \<and> mset sigs = {#} \<and>
    tick (\<lambda>_. Inr (1, 42)) (\<lambda>_. 0) w2 = Some (Inr (w3, sigs')) \<and> simulates w3 {#} \<and> mset sigs' = {#42#}"
proof -
  let ?view = "\<lambda>_. Inr (1, 42)" and ?kill = "\<lambda>_ :: nat. 0 :: int"
  have "tnodes (create_timewheel static_wheel) 100 = None" by (simp add: create_timewheel_def static_wheel_def)
  then obtain w1 where w1: "add_timer 1 7 100 (create_timewheel static_wheel) = Inr w1" "simulates w1 {#(1, 7)#}"
    using wheel.arm_sim [OF static_wheel_simulates, of 100 1 7] by auto
  have ok: "view_ok ?view ?kill u" for u by (simp add: view_ok_def)
  have spec: "spec_tick {#(1, 7)#} = {#(0, 7)#}" "spec_tick {#(0, 7)#} = {#}" "spec_signals ?view {#(1, 7)#} = {#}"
    "spec_signals ?view {#(0, 7)#} = {#42#}"
    by (simp_all add: spec_tick_def spec_signals_def due_signal_def)
  obtain w2 sigs where w2: "tick ?view ?kill w1 = Some (Inr (w2, sigs))" "simulates w2 {#(0, 7)#}" "mset sigs = {#}"
    using tick_refines_countdown [OF w1(2), of ?view ?kill] ok unfolding spec by auto
  obtain w3 sigs' where "tick ?view ?kill w2 = Some (Inr (w3, sigs'))" "simulates w3 {#}" "mset sigs' = {#42#}"
    using tick_refines_countdown [OF w2(2), of ?view ?kill] ok unfolding spec by auto
  with w1(1) w2 show ?thesis by blast
qed

text \<open>
  C21: A timer armed with \<^verbatim>\<open>add_timer(len, ut)\<close> is due at the tick numbered \<open>len\<close>, counted
  from 0 and so at the \<open>len + 1\<close>-st tick, exactly once and neither earlier nor later,
  whatever the position of the hand and whatever other timers are pending, and it does not
  disturb the other timers.
\<close>

theorem add_timer_fires_once:
  assumes "simulates w B" "node \<noteq> NULL" "tnodes w node = None" "0 \<le> len" "len < 2 ^ 31 - 10"
    and "view_ok view pthread_kill ut" "\<forall>(k, u) \<in># B. view_ok view pthread_kill u"
  shows "\<exists>w1 w2 sigss. add_timer len ut node w = Inr w1 \<and>
    run_ticks (tick view pthread_kill) n w1 = Some (Inr (w2, sigss)) \<and>
    map mset sigss =
      map (\<lambda>j. signals_at view j B + (if j = nat len then mset (due_signal view ut) else {#})) [0..<n]"
  using assms by (intro wheel.armed_runs) auto

theorem add_timer_fires_once_witness:
  "\<exists>w1 w2 sigss. add_timer 1 7 100 (create_timewheel static_wheel) = Inr w1 \<and>
    run_ticks (tick (\<lambda>_. Inr (1, 42)) (\<lambda>_. 0)) 3 w1 = Some (Inr (w2, sigss)) \<and>
    map mset sigss = [{#}, {#42#}, {#}]"
proof -
  have ok: "tnodes (create_timewheel static_wheel) 100 = None"
    "view_ok (\<lambda>_. Inr (1, 42)) (\<lambda>_. 0) 7"
    by (simp_all add: create_timewheel_def static_wheel_def view_ok_def)
  have "[0..<3] = [0, 1, 2 :: nat]" by (simp add: upt_rec)
  then show ?thesis
    using add_timer_fires_once [OF static_wheel_simulates _ ok(1) _ _ ok(2), of 1 3]
    by (simp add: signals_at_def due_signal_def)
qed

end
