(* ===== verification/Ut_World.thy ===== *)
theory Ut_World
  imports Ut_RB Ut_Timer
begin

text \<open>
  The data of \<^verbatim>\<open>uthread_inner.h\<close> and the state the library's operations work on.

  The structures keep the fields of the C structures.  Three representations differ: the
  \<^verbatim>\<open>TAILQ\<close>s of \<^verbatim>\<open>sys/queue.h\<close> are lists of addresses kept in the structure that has the head; the
  two \<^verbatim>\<open>RB_ENTRY\<close> fields of all uthreads are the maps \<open>sleep_mem\<close> and \<open>wait_mem\<close>; and the saved
  registers of a uthread (\<^verbatim>\<open>ctx\<close>, with the stack) are its continuation, which the scheduler keeps
  (theory \<open>Ut_Sched\<close>; the registers themselves are in \<open>Ut_Switch\<close>).

  What the code obtains from outside is the argument \<open>os\<close> of the operations: the system
  calls, the clock and the allocator, as functions of a state \<open>'k\<close> of the system.  The value read
  through a pointer to a uthread that has been freed is an argument as well, see \<open>after_free\<close>.
\<close>

subsection \<open>Constants\<close>

definition BIT :: "nat \<Rightarrow> 32 word" where
  "BIT x = push_bit x 1"

definition CLEARBIT :: "nat \<Rightarrow> 32 word" where
  "CLEARBIT x = NOT (push_bit x 1)"

abbreviation (input) UT_ST_NEW :: nat where "UT_ST_NEW \<equiv> 0"
abbreviation (input) UT_ST_READY :: nat where "UT_ST_READY \<equiv> 1"
abbreviation (input) UT_ST_EXITED :: nat where "UT_ST_EXITED \<equiv> 2"
abbreviation (input) UT_ST_SLEEPING :: nat where "UT_ST_SLEEPING \<equiv> 3"
abbreviation (input) UT_ST_DETACHED :: nat where "UT_ST_DETACHED \<equiv> 4"
abbreviation (input) UT_ST_EXPIRED :: nat where "UT_ST_EXPIRED \<equiv> 5"
abbreviation (input) UT_ST_FDEOF :: nat where "UT_ST_FDEOF \<equiv> 6"
abbreviation (input) UT_ST_WAIT_RD :: nat where "UT_ST_WAIT_RD \<equiv> 7"
abbreviation (input) UT_ST_WAIT_WR :: nat where "UT_ST_WAIT_WR \<equiv> 8"

abbreviation (input) UT_EVENT_RD :: nat where "UT_EVENT_RD \<equiv> 0"
abbreviation (input) UT_EVENT_WR :: nat where "UT_EVENT_WR \<equiv> 1"

abbreviation (input) SCHED_ST_IDLE :: nat where "SCHED_ST_IDLE \<equiv> 0"
abbreviation (input) SCHED_ST_RUNNING :: nat where "SCHED_ST_RUNNING \<equiv> 1"
abbreviation (input) P_ST_IDLE :: nat where "P_ST_IDLE \<equiv> 0"
abbreviation (input) P_ST_RUNNING :: nat where "P_ST_RUNNING \<equiv> 1"

definition STACK_SIZE :: nat where "STACK_SIZE = 128 * 1024"
definition MAX_COUNT_SCHED :: nat where "MAX_COUNT_SCHED = 1000"
definition MAX_PROCS :: nat where "MAX_PROCS = 4"
definition MAX_COUNT_UTHREAD :: nat where "MAX_COUNT_UTHREAD = 10000000"

text \<open>The test \<^verbatim>\<open>status & BIT(x)\<close>.\<close>

definition has :: "32 word \<Rightarrow> nat \<Rightarrow> bool" where
  "has st x = (st AND BIT x \<noteq> 0)"

text \<open>Errors of \<^verbatim>\<open>errno.h\<close> and flags of \<^verbatim>\<open>sys/epoll.h\<close> that the code names.\<close>

definition EINTR :: int where "EINTR = 4"
definition EAGAIN :: int where "EAGAIN = 11"
definition EINVAL :: int where "EINVAL = 22"
definition ENFILE :: int where "ENFILE = 23"
definition EMFILE :: int where "EMFILE = 24"
definition EDEADLK :: int where "EDEADLK = 35"
definition ECONNABORTED :: int where "ECONNABORTED = 103"
definition ECONNRESET :: int where "ECONNRESET = 104"
definition ETIMEDOUT :: int where "ETIMEDOUT = 110"
definition EINPROGRESS :: int where "EINPROGRESS = 115"

lemmas errno_defs = EINTR_def EAGAIN_def EINVAL_def ENFILE_def EMFILE_def EDEADLK_def
  ECONNABORTED_def ECONNRESET_def ETIMEDOUT_def EINPROGRESS_def

definition EPOLLIN :: "32 word" where "EPOLLIN = 0x001"
definition EPOLLOUT :: "32 word" where "EPOLLOUT = 0x004"
definition EPOLLHUP :: "32 word" where "EPOLLHUP = 0x010"
definition EPOLLRDHUP :: "32 word" where "EPOLLRDHUP = 0x2000"
definition EPOLLONESHOT :: "32 word" where "EPOLLONESHOT = 0x40000000"

datatype ctl_op = EPOLL_CTL_ADD | EPOLL_CTL_DEL

subsection \<open>The structures\<close>

record uthread =
  ut_id :: nat
  stack :: ptr
  stack_size :: nat
  func :: ptr
  arg :: ptr
  status :: "32 word"
  is_main :: int
  wakeup_time_usec :: "64 word"
  ut_joined :: ptr
  ut_p :: ptr
  retval :: ptr
  fd_wait :: "64 word"
  is_wating_yield_signal :: int

record proc =
  p_id :: int
  tid :: nat
  p_status :: "32 word"
  ready :: "ptr list"
  sleeping :: ptr
  waiting :: ptr
  p_sched :: ptr
  poller_fd :: int
  eventlist :: "(int \<times> 32 word) list"
  num_new_events :: int

record sched =
  sched_id :: int
  sched_status :: "32 word"
  sched_stack :: ptr
  sched_stack_size :: nat
  sched_p :: ptr
  cur_uthread :: ptr

record global_data =
  sched_idle :: "ptr list"
  sched_with_stack :: "ptr list"
  bitmap_sched :: "nat \<Rightarrow> int"
  next_sched_id :: nat
  p_idle :: "ptr list"
  n_uthread :: "32 word"
  bitmap_ut :: "nat \<Rightarrow> int"
  next_ut_id :: nat

text \<open>
  The state: the structures by address, the entries of the two kinds of trees, the timer
  wheel, the other heap blocks (stacks) with their sizes, the words that \<^verbatim>\<open>retval\<close> pointers
  lead to, the last contents of freed uthreads, the value of \<^verbatim>\<open>uthread_sched_key\<close> in the running
  thread, its \<^verbatim>\<open>errno\<close>, the schedulers whose threads have been started, and the state of the
  system.
\<close>

record 'k world =
  uts :: "ptr \<rightharpoonup> uthread"
  ps :: "ptr \<rightharpoonup> proc"
  scheds :: "ptr \<rightharpoonup> sched"
  glob :: global_data
  sleep_mem :: rb_mem
  wait_mem :: rb_mem
  wheel :: timer_wheel
  blocks :: "ptr \<rightharpoonup> nat"
  words :: "ptr \<rightharpoonup> ptr"
  dead :: "ptr \<rightharpoonup> uthread"
  tsd :: ptr
  errno :: int
  spawned :: "ptr list"
  kern :: 'k

subsection \<open>The system outside\<close>

text \<open>
  The calls of the socket and file interfaces that the library makes.  A buffer is given by its
  offset from the caller's buffer and its size, the flags of \<^verbatim>\<open>recv\<close> and its like by their bits.
\<close>

datatype sys_call =
    SysSocket int int int
  | SysFcntl int
  | SysAccept int
  | SysConnect int
  | SysRead int nat nat
  | SysRecv int nat nat "32 word"
  | SysRecvmsg int "32 word"
  | SysRecvfrom int nat "32 word"
  | SysWrite int nat nat
  | SysSend int nat nat "32 word"
  | SysSendmsg int "32 word"
  | SysSendto int nat "32 word"
  | SysWritev int "(nat \<times> nat) list"

text \<open>
  The system: \<^verbatim>\<open>epoll_create\<close>, \<^verbatim>\<open>epoll_ctl\<close> (its result), \<^verbatim>\<open>epoll_wait\<close> (its result, the events it stored and
  \<^verbatim>\<open>errno\<close>), \<^verbatim>\<open>gettimeofday\<close> (seconds and microseconds), \<^verbatim>\<open>malloc\<close> and \<^verbatim>\<open>calloc\<close> (the address, or null),
  \<^verbatim>\<open>posix_memalign\<close> (its result and the address), \<^verbatim>\<open>pthread_create\<close>, \<^verbatim>\<open>pthread_self\<close>, and the other system
  calls (result and \<^verbatim>\<open>errno\<close>).  \<open>after_free\<close> is what a read through a dangling pointer finds,
  as a function of what the uthread held when it was freed.
\<close>

record 'k os =
  os_epoll_create :: "'k \<Rightarrow> int \<times> 'k"
  os_epoll_ctl :: "int \<Rightarrow> ctl_op \<Rightarrow> int \<Rightarrow> 32 word \<Rightarrow> 'k \<Rightarrow> int \<times> 'k"
  os_epoll_wait :: "int \<Rightarrow> int \<Rightarrow> 'k \<Rightarrow> (int \<times> (int \<times> 32 word) list \<times> int) \<times> 'k"
  os_gettimeofday :: "'k \<Rightarrow> (64 word \<times> 64 word) \<times> 'k"
  os_malloc :: "'k \<Rightarrow> ptr \<times> 'k"
  os_memalign :: "'k \<Rightarrow> (int \<times> ptr) \<times> 'k"
  os_pthread_create :: "'k \<Rightarrow> int \<times> 'k"
  os_pthread_self :: "'k \<Rightarrow> nat"
  os_call :: "sys_call \<Rightarrow> 'k \<Rightarrow> (int \<times> int) \<times> 'k"
  after_free :: "uthread \<Rightarrow> uthread"

subsection \<open>Operations on the state\<close>

text \<open>An operation without a switch: the result and the new state, or a crash.\<close>

type_synonym ('s, 'a) op = "'s \<Rightarrow> ('a \<times> 's) res"

definition oret :: "'a \<Rightarrow> ('s, 'a) op" where
  "oret a s = Inr (a, s)"

definition obind :: "('s, 'a) op \<Rightarrow> ('a \<Rightarrow> ('s, 'b) op) \<Rightarrow> ('s, 'b) op" where
  "obind m f s = (case m s of Inl e \<Rightarrow> Inl e | Inr (a, s') \<Rightarrow> f a s')"

definition oseq :: "('s, 'a) op \<Rightarrow> ('s, 'b) op \<Rightarrow> ('s, 'b) op" where
  "oseq m f = obind m (\<lambda>_. f)"

definition oget :: "('s \<Rightarrow> 'a) \<Rightarrow> ('s, 'a) op" where
  "oget f s = Inr (f s, s)"

definition oupd :: "('s \<Rightarrow> 's) \<Rightarrow> ('s, unit) op" where
  "oupd f s = Inr ((), f s)"

definition oassert :: "bool \<Rightarrow> ('s, unit) op" where
  "oassert b s = (if b then Inr ((), s) else Inl AssertFail)"

definition owhen :: "bool \<Rightarrow> ('s, unit) op \<Rightarrow> ('s, unit) op" where
  "owhen b m = (if b then m else oret ())"

text \<open>Reading and updating a structure through a pointer.\<close>

definition ut_get :: "ptr \<Rightarrow> ('k world, uthread) op" where
  "ut_get a w = bnd (deref (uts w) a) (\<lambda>u. Inr (u, w))"

definition ut_upd :: "ptr \<Rightarrow> (uthread \<Rightarrow> uthread) \<Rightarrow> ('k world, unit) op" where
  "ut_upd a f w = bnd (deref (uts w) a) (\<lambda>u. Inr ((), w\<lparr>uts := (uts w)(a \<mapsto> f u)\<rparr>))"

definition p_get :: "ptr \<Rightarrow> ('k world, proc) op" where
  "p_get a w = bnd (deref (ps w) a) (\<lambda>q. Inr (q, w))"

definition p_upd :: "ptr \<Rightarrow> (proc \<Rightarrow> proc) \<Rightarrow> ('k world, unit) op" where
  "p_upd a f w = bnd (deref (ps w) a) (\<lambda>q. Inr ((), w\<lparr>ps := (ps w)(a \<mapsto> f q)\<rparr>))"

definition s_get :: "ptr \<Rightarrow> ('k world, sched) op" where
  "s_get a w = bnd (deref (scheds w) a) (\<lambda>q. Inr (q, w))"

definition s_upd :: "ptr \<Rightarrow> (sched \<Rightarrow> sched) \<Rightarrow> ('k world, unit) op" where
  "s_upd a f w = bnd (deref (scheds w) a) (\<lambda>q. Inr ((), w\<lparr>scheds := (scheds w)(a \<mapsto> f q)\<rparr>))"

text \<open>Reading a uthread that may have been freed.\<close>

definition ut_get_stale :: "'k os \<Rightarrow> ptr \<Rightarrow> ('k world, uthread) op" where
  "ut_get_stale os a w =
     (if a = NULL then Inl NullDeref
      else case uts w a of
        Some u \<Rightarrow> Inr (u, w)
      | None \<Rightarrow> (case dead w a of Some u \<Rightarrow> Inr (after_free os u, w) | None \<Rightarrow> Inl BadAccess))"

text \<open>A call of the system that changes its state; \<open>libc\<close> stores \<^verbatim>\<open>errno\<close> when the call fails.\<close>

definition sys :: "('k \<Rightarrow> 'a \<times> 'k) \<Rightarrow> ('k world, 'a) op" where
  "sys f w = (case f (kern w) of (a, k) \<Rightarrow> Inr (a, w\<lparr>kern := k\<rparr>))"

definition libc :: "'k os \<Rightarrow> sys_call \<Rightarrow> ('k world, int) op" where
  "libc os c =
     obind (sys (os_call os c)) (\<lambda>(r, e).
     oseq (oupd (\<lambda>w. if r = -1 then w\<lparr>errno := e\<rparr> else w)) (oret r))"

text \<open>The result of a tree operation: \<open>None\<close> is an access through a bad pointer in the tree.\<close>

definition of_tree :: "'a option \<Rightarrow> ('s, 'a) op" where
  "of_tree r s = (case r of None \<Rightarrow> Inl TreeCorrupt | Some a \<Rightarrow> Inr (a, s))"

text \<open>Writing an entry of the bitmap of ids: an index out of range is undefined behaviour.\<close>

definition set_bitmap_ut :: "nat \<Rightarrow> int \<Rightarrow> ('k world, unit) op" where
  "set_bitmap_ut i v w =
     (if i < MAX_COUNT_UTHREAD
      then Inr ((), w\<lparr>glob := (glob w)\<lparr>bitmap_ut := (bitmap_ut (glob w))(i := v)\<rparr>\<rparr>)
      else Inl IndexRange)"

text \<open>
  \<^verbatim>\<open>_sched_get\<close>: the scheduler of the running thread.  Names that start with an underscore in the
  sources are written without it.
\<close>

definition sched_get :: "('k world, ptr) op" where
  "sched_get = oget tsd"

subsection \<open>Lemmas\<close>

named_theorems op_simps
  \<open>how the operations on the state run\<close>

lemma obind_simps [op_simps]:
  "obind (oret a) f = f a"
  "m s = Inr (a, s') \<Longrightarrow> obind m f s = f a s'"
  "m s = Inl e \<Longrightarrow> obind m f s = Inl e"
  by (simp_all add: obind_def oret_def fun_eq_iff)

lemma oseq_run [op_simps]:
  "m s = Inr (a, s') \<Longrightarrow> oseq m f s = f s'" "m s = Inl e \<Longrightarrow> oseq m f s = Inl e"
  by (simp_all add: oseq_def obind_def)

lemma obind_Inr_iff:
  "obind m f s = Inr (b, s'') \<longleftrightarrow> (\<exists>a s'. m s = Inr (a, s') \<and> f a s' = Inr (b, s''))"
  by (cases "m s") (auto simp: obind_def)

lemma oseq_Inr_iff:
  "oseq m f s = Inr (b, s'') \<longleftrightarrow> (\<exists>a s'. m s = Inr (a, s') \<and> f s' = Inr (b, s''))"
  by (simp add: oseq_def obind_Inr_iff)

lemma oget_run [op_simps]: "obind (oget g) f s = f (g s) s"
  by (simp add: obind_def oget_def)

lemma oupd_run [op_simps]: "oseq (oupd g) f s = f (g s)" "oupd g s = Inr ((), g s)"
  by (simp_all add: oseq_def obind_def oupd_def)

lemma oassert_run [op_simps]:
  "oseq (oassert True) f = f" "oseq (oassert False) f s = Inl AssertFail"
  "oassert b s = (if b then Inr ((), s) else Inl AssertFail)"
  by (simp_all add: oseq_def obind_def oassert_def fun_eq_iff)

lemma owhen_run [op_simps]:
  "oseq (owhen True m) f = oseq m f" "oseq (owhen False m) f = f"
  "owhen True m = m" "owhen False m = oret ()"
  by (simp_all add: owhen_def oseq_def obind_simps)

lemma oret_run [op_simps]: "oret a s = Inr (a, s)"
  by (simp add: oret_def)

lemma ut_run [op_simps]:
  "a \<noteq> NULL \<Longrightarrow> uts w a = Some u \<Longrightarrow> obind (ut_get a) f w = f u w"
  "a \<noteq> NULL \<Longrightarrow> uts w a = Some u \<Longrightarrow> oseq (ut_upd a g) m w = m (w\<lparr>uts := (uts w)(a \<mapsto> g u)\<rparr>)"
  "a \<noteq> NULL \<Longrightarrow> uts w a = Some u \<Longrightarrow> ut_upd a g w = Inr ((), w\<lparr>uts := (uts w)(a \<mapsto> g u)\<rparr>)"
  by (simp_all add: obind_def oseq_def ut_get_def ut_upd_def)

lemma p_run [op_simps]:
  "a \<noteq> NULL \<Longrightarrow> ps w a = Some q \<Longrightarrow> obind (p_get a) f w = f q w"
  "a \<noteq> NULL \<Longrightarrow> ps w a = Some q \<Longrightarrow> oseq (p_upd a g) m w = m (w\<lparr>ps := (ps w)(a \<mapsto> g q)\<rparr>)"
  "a \<noteq> NULL \<Longrightarrow> ps w a = Some q \<Longrightarrow> p_upd a g w = Inr ((), w\<lparr>ps := (ps w)(a \<mapsto> g q)\<rparr>)"
  by (simp_all add: obind_def oseq_def p_get_def p_upd_def)

lemma s_run [op_simps]:
  "a \<noteq> NULL \<Longrightarrow> scheds w a = Some q \<Longrightarrow> obind (s_get a) f w = f q w"
  "a \<noteq> NULL \<Longrightarrow> scheds w a = Some q \<Longrightarrow> oseq (s_upd a g) m w = m (w\<lparr>scheds := (scheds w)(a \<mapsto> g q)\<rparr>)"
  "a \<noteq> NULL \<Longrightarrow> scheds w a = Some q \<Longrightarrow> s_upd a g w = Inr ((), w\<lparr>scheds := (scheds w)(a \<mapsto> g q)\<rparr>)"
  by (simp_all add: obind_def oseq_def s_get_def s_upd_def)

lemma sched_get_run [op_simps]: "obind sched_get f w = f (tsd w) w"
  by (simp add: sched_get_def oget_run)

lemma of_tree_run [op_simps]:
  "r = Some a \<Longrightarrow> obind (of_tree r) f s = f a s" "r = None \<Longrightarrow> obind (of_tree r) f s = Inl TreeCorrupt"
  by (simp_all add: obind_def of_tree_def)

lemma sys_run [op_simps]: "g (kern w) = (a, k) \<Longrightarrow> obind (sys g) f w = f a (w\<lparr>kern := k\<rparr>)"
  by (simp add: obind_def sys_def)

text \<open>The status bits.\<close>

lemma bit_BIT: "bit (BIT x) n \<longleftrightarrow> n = x \<and> x < 32"
  by (auto simp: BIT_def bit_exp_iff)

lemma has_iff [simp]: "x < 32 \<Longrightarrow> has st x = bit st x"
proof
  assume x: "x < 32"
  show "bit st x" if "has st x"
  proof (rule ccontr)
    assume "\<not> bit st x"
    then have "st AND BIT x = 0" by (intro bit_eqI) (auto simp: bit_and_iff bit_BIT)
    with that show False by (simp add: has_def)
  qed
  show "has st x" if "bit st x"
  proof -
    have "bit (st AND BIT x) x" using x that by (simp add: bit_and_iff bit_BIT)
    then show ?thesis by (auto simp: has_def)
  qed
qed

lemma bit_set_clear [simp]:
  "x < 32 \<Longrightarrow> bit (st OR BIT x) n \<longleftrightarrow> bit st n \<or> n = x"
  "x < 32 \<Longrightarrow> bit (st AND CLEARBIT x) n \<longleftrightarrow> bit st n \<and> n \<noteq> x"
  using bit_imp_le_length [of st n]
  by (auto simp: bit_or_iff bit_and_iff bit_BIT CLEARBIT_def bit_not_iff bit_exp_iff)

lemma bit_BIT_simp [simp]: "x < 32 \<Longrightarrow> bit (BIT x) n \<longleftrightarrow> n = x"
  by (simp add: bit_BIT)

end
