(* ===== verification/Ut_Co.thy ===== *)
theory Ut_Co
  imports Ut_World
begin

text \<open>
  Code that runs on a uthread and may switch to the scheduler in the middle.

  \<^verbatim>\<open>_switch(&sched->ctx, &ut->ctx)\<close> on the uthread's side saves the uthread's registers in
  \<^verbatim>\<open>ut->ctx\<close> and goes on in the scheduler; the call returns when the scheduler switches back.  A
  run of uthread code therefore ends in one of three ways: it returns, it crashes, or it is
  suspended, with the address of the uthread whose \<^verbatim>\<open>ctx\<close> received the registers, the state at the
  switch, and the rest of the run as a function of the state at the switch back.
\<close>

datatype ('s, 'a) outcome =
    Ret 'a 's
  | Fail crash
  | Susp ptr 's "'s \<Rightarrow> ('s, 'a) outcome"

type_synonym ('s, 'a) co = "'s \<Rightarrow> ('s, 'a) outcome"

primrec and_then :: "('s, 'a) outcome \<Rightarrow> ('a \<Rightarrow> ('s, 'b) co) \<Rightarrow> ('s, 'b) outcome" where
  "and_then (Ret a s) f = f a s"
| "and_then (Fail e) f = Fail e"
| "and_then (Susp u s c) f = Susp u s (\<lambda>s'. and_then (c s') f)"

definition cbind :: "('s, 'a) co \<Rightarrow> ('a \<Rightarrow> ('s, 'b) co) \<Rightarrow> ('s, 'b) co" where
  "cbind m f s = and_then (m s) f"

definition cseq :: "('s, 'a) co \<Rightarrow> ('s, 'b) co \<Rightarrow> ('s, 'b) co" where
  "cseq m f = cbind m (\<lambda>_. f)"

definition cret :: "'a \<Rightarrow> ('s, 'a) co" where
  "cret a s = Ret a s"

definition cfail :: "crash \<Rightarrow> ('s, 'a) co" where
  "cfail e s = Fail e"

text \<open>An operation without a switch, and the switch to the scheduler.\<close>

definition lift :: "('s, 'a) op \<Rightarrow> ('s, 'a) co" where
  "lift m s = (case m s of Inl e \<Rightarrow> Fail e | Inr (a, s') \<Rightarrow> Ret a s')"

definition switch_out :: "ptr \<Rightarrow> ('s, unit) co" where
  "switch_out u s = Susp u s (\<lambda>s'. Ret () s')"

subsection \<open>Laws\<close>

lemma and_then_assoc:
  "and_then (and_then m f) g = and_then m (\<lambda>a s. and_then (f a s) g)"
  by (induction m) auto

lemma and_then_Ret: "and_then m Ret = m"
  by (induction m) auto

lemma cbind_assoc: "cbind (cbind m f) g = cbind m (\<lambda>a. cbind (f a) g)"
  by (simp add: cbind_def [abs_def] and_then_assoc)

lemma cbind_cret: "cbind (cret a) f = f a" "cbind m cret = m"
  by (simp_all add: fun_eq_iff cbind_def cret_def [abs_def] and_then_Ret)

lemma cseq_assoc: "cseq (cseq m f) g = cseq m (cseq f g)"
  by (simp add: cseq_def cbind_assoc)

lemma lift_obind: "lift (obind m f) = cbind (lift m) (\<lambda>a. lift (f a))"
  by (auto simp: fun_eq_iff cbind_def lift_def obind_def split: sum.split)

lemma lift_oret: "lift (oret a) = cret a"
  by (simp add: fun_eq_iff lift_def oret_def cret_def)

named_theorems co_simps \<open>how uthread code runs\<close>

lemma lift_run [co_simps]:
  "m s = Inr (a, s') \<Longrightarrow> cbind (lift m) f s = f a s'"
  "m s = Inr (a, s') \<Longrightarrow> cseq (lift m) c s = c s'"
  "m s = Inr (a, s') \<Longrightarrow> lift m s = Ret a s'"
  "m s = Inl e \<Longrightarrow> cbind (lift m) f s = Fail e"
  "m s = Inl e \<Longrightarrow> cseq (lift m) c s = Fail e"
  by (simp_all add: cbind_def cseq_def lift_def)

lemma get_co [co_simps]: "cbind (lift (oget g)) f s = f (g s) s"
  by (simp add: cbind_def lift_def oget_def)

lemma switch_run [co_simps]:
  "cseq (switch_out u) c s = Susp u s c" "cbind (switch_out u) f s = Susp u s (f ())"
  "switch_out u s = Susp u s (\<lambda>s'. Ret () s')"
  by (simp_all add: cseq_def cbind_def switch_out_def)

lemma cseq_Susp:
  assumes "m s = Susp u s' (\<lambda>v. Ret a v)"
  shows "cseq m c s = Susp u s' c"
  unfolding cseq_def cbind_def assms by (simp only: and_then.simps)

lemma cseq_Susp':
  assumes "m s = Susp u s' k"
  shows "cseq m c s = Susp u s' (cseq k c)"
  unfolding cseq_def cbind_def assms by (simp only: and_then.simps)

lemma cret_run [co_simps]: "cret a s = Ret a s" "cbind (cret a) f = f a"
  by (simp_all add: cret_def cbind_cret)

subsection \<open>What holds of every run\<close>

text \<open>
  \<open>safe E Q r\<close>: however the run \<open>r\<close> goes on when other code changes the state by \<open>E\<close> between each
  switch to the scheduler and the switch back, if it returns then \<open>Q\<close> holds of the result and the
  state.  \<open>E\<close> is the rely condition; a crash satisfies every \<open>Q\<close>.
\<close>

primrec safe :: "('s \<Rightarrow> 's \<Rightarrow> bool) \<Rightarrow> ('a \<Rightarrow> 's \<Rightarrow> bool) \<Rightarrow> ('s, 'a) outcome \<Rightarrow> bool" where
  "safe E Q (Ret a s) = Q a s"
| "safe E Q (Fail e) = True"
| "safe E Q (Susp u s c) = (\<forall>s'. E s s' \<longrightarrow> safe E Q (c s'))"

lemma safe_and_then:
  "safe E Q (and_then r f) = safe E (\<lambda>a s. safe E Q (f a s)) r"
  by (induction r) auto

lemma safe_cbind: "safe E (\<lambda>a s. safe E Q (f a s)) (m s) \<Longrightarrow> safe E Q (cbind m f s)"
  by (simp add: cbind_def safe_and_then)

lemma safe_cseq: "safe E (\<lambda>_ s. safe E Q (f s)) (m s) \<Longrightarrow> safe E Q (cseq m f s)"
  by (simp add: cseq_def safe_cbind)

lemma safe_mono: "safe E P r \<Longrightarrow> (\<And>a s. P a s \<Longrightarrow> Q a s) \<Longrightarrow> safe E Q r"
  by (induction r) auto

lemma safe_lift: "(\<And>a s'. m s = Inr (a, s') \<Longrightarrow> Q a s') \<Longrightarrow> safe E Q (lift m s)"
  by (auto simp: lift_def split: sum.split)

lemma safe_cret: "Q a s \<Longrightarrow> safe E Q (cret a s)"
  by (simp add: cret_def)

lemma safe_switch: "(\<And>s'. E s s' \<Longrightarrow> Q () s') \<Longrightarrow> safe E Q (switch_out u s)"
  by (simp add: switch_out_def)

subsection \<open>Yielding\<close>

text \<open>\<^verbatim>\<open>_uthread_yield\<close>, and \<^verbatim>\<open>handler\<close>, which the preemption signal runs on the uthread's stack.\<close>

definition uthread_yield :: "('k world, unit) co" where
  "uthread_yield =
     cbind (lift (
       obind sched_get (\<lambda>s.
       obind (s_get s) (\<lambda>sc.
       oseq (ut_upd (cur_uthread sc) (\<lambda>u. u\<lparr>is_wating_yield_signal := 0\<rparr>))
       (obind sched_get (\<lambda>s'.
       obind (s_get s') (\<lambda>_.
       oret (cur_uthread sc))))))))
     switch_out"

definition handler :: "('k world, unit) co" where
  "handler = uthread_yield"

text \<open>The uthread that the running thread executes.\<close>

definition current_is :: "ptr \<Rightarrow> 'k world \<Rightarrow> bool" where
  "current_is ut w \<longleftrightarrow> tsd w \<noteq> NULL \<and> ut \<noteq> NULL \<and> ut \<in> dom (uts w) \<and>
     (\<exists>sc. scheds w (tsd w) = Some sc \<and> cur_uthread sc = ut)"

lemma yield_suspends:
  assumes "current_is ut w" "uts w ut = Some u"
  shows "uthread_yield w =
    Susp ut (w\<lparr>uts := (uts w)(ut \<mapsto> u\<lparr>is_wating_yield_signal := 0\<rparr>)\<rparr>) (\<lambda>s'. Ret () s')"
proof -
  obtain sc where "scheds w (tsd w) = Some sc" "cur_uthread sc = ut" "tsd w \<noteq> NULL" "ut \<noteq> NULL"
    using assms(1) by (auto simp: current_is_def)
  then show ?thesis
    using assms(2) by (simp add: uthread_yield_def op_simps cbind_def lift_def switch_out_def)
qed

lemma yield_switches:
  assumes "current_is ut w" "uts w ut = Some u"
  shows "\<exists>rest. uthread_yield w = Susp ut (w\<lparr>uts := (uts w)(ut \<mapsto> u\<lparr>is_wating_yield_signal := 0\<rparr>)\<rparr>) rest"
  by (rule exI [of _ "Ret ()"]) (rule yield_suspends [OF assms])

end
