(* ===== verification/Ut_Sleep.thy ===== *)
theory Ut_Sleep
  imports Ut_Co
begin

text \<open>
  The blocking of uthreads: the sleeping tree of a \<^verbatim>\<open>struct p\<close>, ordered by wake-up time, its waiting
  tree, ordered by descriptor and event, and the operations of \<^verbatim>\<open>uthread_sched.c\<close> that put a uthread
  on them and take it off again.
\<close>

subsection \<open>The keys of the waiting tree\<close>

definition FD_KEY :: "int \<Rightarrow> nat \<Rightarrow> 64 word" where
  "FD_KEY fd e = push_bit 32 (word_of_int fd) OR of_nat e"

definition FD_EVENT :: "64 word \<Rightarrow> int" where
  "FD_EVENT f = sint (ucast f :: 32 word)"

definition FD_ONLY :: "64 word \<Rightarrow> int" where
  "FD_ONLY f = sint (signed_drop_bit 32 f)"

subsection \<open>The comparison functions\<close>

definition ut_at :: "(ptr \<rightharpoonup> uthread) \<Rightarrow> ptr \<Rightarrow> uthread option" where
  "ut_at U a = (if a = NULL then None else U a)"

definition uthread_sleep_cmp :: "(ptr \<rightharpoonup> uthread) \<Rightarrow> ptr \<Rightarrow> ptr \<Rightarrow> int option" where
  "uthread_sleep_cmp U u1 u2 = do {
     x \<leftarrow> ut_at U u1;
     y \<leftarrow> ut_at U u2;
     Some (if wakeup_time_usec x < wakeup_time_usec y then -1
           else if wakeup_time_usec x = wakeup_time_usec y then 0 else 1) }"

text \<open>
  The comparison of \<^verbatim>\<open>fd_wait\<close> fields, on two uthreads of the tree and, for \<^verbatim>\<open>RB_FIND\<close>, on the local
  structure \<^verbatim>\<open>find_ut\<close>, of which only this field is set.
\<close>

definition uthread_wait_cmp :: "64 word \<Rightarrow> 64 word \<Rightarrow> int" where
  "uthread_wait_cmp f1 f2 = (if f1 <s f2 then -1 else if f1 = f2 then 0 else 1)"

definition wait_cmp_ut :: "(ptr \<rightharpoonup> uthread) \<Rightarrow> ptr \<Rightarrow> ptr \<Rightarrow> int option" where
  "wait_cmp_ut U u1 u2 = do {
     x \<leftarrow> ut_at U u1;
     y \<leftarrow> ut_at U u2;
     Some (uthread_wait_cmp (fd_wait x) (fd_wait y)) }"

definition wait_cmp_key :: "(ptr \<rightharpoonup> uthread) \<Rightarrow> 64 word \<Rightarrow> ptr \<Rightarrow> int option" where
  "wait_cmp_key U k u2 = do {
     y \<leftarrow> ut_at U u2;
     Some (uthread_wait_cmp k (fd_wait y)) }"

subsection \<open>Sleeping\<close>

definition get_usec_now :: "'k os \<Rightarrow> ('k world, 64 word) op" where
  "get_usec_now os = obind (sys (os_gettimeofday os)) (\<lambda>(sec, usec). oret (sec * 1000000 + usec))"

definition uthread_desched_sleep :: "ptr \<Rightarrow> ('k world, unit) op" where
  "uthread_desched_sleep ut =
     obind (ut_get ut) (\<lambda>u.
     if has (status u) UT_ST_SLEEPING then
       obind (p_get (ut_p u)) (\<lambda>q.
       obind (oget sleep_mem) (\<lambda>m.
       obind (of_tree (RB_REMOVE ut (m, sleeping q))) (\<lambda>(_, m, root).
       oseq (oupd (\<lambda>w. w\<lparr>sleep_mem := m\<rparr>))
       (oseq (p_upd (ut_p u) (\<lambda>q. q\<lparr>sleeping := root\<rparr>))
       (oseq (ut_upd ut (\<lambda>u. u\<lparr>status := status u AND CLEARBIT UT_ST_SLEEPING\<rparr>))
       (ut_upd ut (\<lambda>u. u\<lparr>status := status u OR BIT UT_ST_READY\<rparr>)))))))
     else oret ())"

text \<open>
  \<^verbatim>\<open>_uthread_sched_sleep\<close> up to the yield.  A timeout of 0 stands for \<open>2 ^ 30\<close> seconds: the code
  writes \<^verbatim>\<open>1<<31-1\<close>, which is \<open>1 << 30\<close>.  The assertion fails when another uthread of the same tree
  has the same wake-up time.
\<close>

definition sleep_enter :: "'k os \<Rightarrow> ptr \<Rightarrow> 64 word \<Rightarrow> ('k world, unit) op" where
  "sleep_enter os ut mescs =
     (let mescs = (if mescs = 0 then push_bit 30 1 * 1000 else mescs) in
     obind (get_usec_now os) (\<lambda>now.
     oseq (ut_upd ut (\<lambda>u. u\<lparr>wakeup_time_usec := now + mescs * 1000\<rparr>))
     (obind (ut_get ut) (\<lambda>u.
     obind (p_get (ut_p u)) (\<lambda>q.
     obind (oget (\<lambda>w. RB_INSERT (uthread_sleep_cmp (uts w)) ut (sleep_mem w, sleeping q))) (\<lambda>r.
     obind (of_tree r) (\<lambda>(found, m, root).
     oseq (oupd (\<lambda>w. w\<lparr>sleep_mem := m\<rparr>))
     (oseq (p_upd (ut_p u) (\<lambda>q. q\<lparr>sleeping := root\<rparr>))
     (oseq (oassert (found = NULL))
     (oseq (ut_upd ut (\<lambda>u. u\<lparr>status := status u OR BIT UT_ST_SLEEPING\<rparr>))
     (ut_upd ut (\<lambda>u. u\<lparr>is_wating_yield_signal := 0\<rparr>))))))))))))"

definition uthread_sched_sleep :: "'k os \<Rightarrow> ptr \<Rightarrow> 64 word \<Rightarrow> ('k world, unit) co" where
  "uthread_sched_sleep os ut mescs =
     cseq (lift (sleep_enter os ut mescs))
     (cseq uthread_yield
     (lift (ut_upd ut (\<lambda>u. u\<lparr>status := status u AND CLEARBIT UT_ST_SLEEPING\<rparr>))))"

subsection \<open>Waiting for a descriptor\<close>

definition event_mask :: "nat \<Rightarrow> 32 word" where
  "event_mask e = (if e = UT_EVENT_RD then EPOLLIN else EPOLLOUT) OR EPOLLONESHOT OR EPOLLRDHUP"

text \<open>
  \<^verbatim>\<open>_register_event\<close> up to the call of \<^verbatim>\<open>_uthread_sched_sleep\<close>.  \<open>e\<close> is one of the two constants of
  \<^verbatim>\<open>enum uthread_event\<close>; the result of \<^verbatim>\<open>RB_INSERT\<close> is not looked at.
\<close>

definition wait_status :: "nat \<Rightarrow> nat" where
  "wait_status e = (if e = UT_EVENT_RD then UT_ST_WAIT_RD else UT_ST_WAIT_WR)"

definition wait_enter :: "'k os \<Rightarrow> ptr \<Rightarrow> int \<Rightarrow> nat \<Rightarrow> ('k world, unit) op" where
  "wait_enter os ut sockfd e =
     obind sched_get (\<lambda>s.
     obind (s_get s) (\<lambda>sc.
     obind (p_get (sched_p sc)) (\<lambda>q.
     obind (sys (os_epoll_ctl os (poller_fd q) EPOLL_CTL_ADD sockfd (event_mask e))) (\<lambda>r.
     oseq (oassert (r = 0))
     (oseq (ut_upd ut (\<lambda>u. u\<lparr>status := status u OR BIT (wait_status e)\<rparr>))
     (oseq (ut_upd ut (\<lambda>u. u\<lparr>fd_wait := FD_KEY sockfd e\<rparr>))
     (obind (ut_get ut) (\<lambda>u.
     obind (p_get (ut_p u)) (\<lambda>q.
     obind (oget (\<lambda>w. RB_INSERT (wait_cmp_ut (uts w)) ut (wait_mem w, waiting q))) (\<lambda>r.
     obind (of_tree r) (\<lambda>(_, m, root).
     oseq (oupd (\<lambda>w. w\<lparr>wait_mem := m\<rparr>))
     (p_upd (ut_p u) (\<lambda>q. q\<lparr>waiting := root\<rparr>)))))))))))))"

definition register_event :: "'k os \<Rightarrow> ptr \<Rightarrow> int \<Rightarrow> nat \<Rightarrow> 64 word \<Rightarrow> ('k world, unit) co" where
  "register_event os ut sockfd e timeout =
     cseq (lift (wait_enter os ut sockfd e))
     (cseq (uthread_sched_sleep os ut timeout)
     (lift (oseq (ut_upd ut (\<lambda>u. u\<lparr>fd_wait := -1\<rparr>))
       (ut_upd ut (\<lambda>u. u\<lparr>status := status u AND CLEARBIT (wait_status e)\<rparr>)))))"

text \<open>The uthread that waits for \<open>(fd, e)\<close> is taken off both trees; the result is null if none waits.\<close>

definition uthread_desched_event :: "int \<Rightarrow> nat \<Rightarrow> ('k world, ptr) op" where
  "uthread_desched_event fd e =
     obind sched_get (\<lambda>s.
     obind (s_get s) (\<lambda>sc.
     obind (p_get (sched_p sc)) (\<lambda>q.
     obind (oget (\<lambda>w. RB_FIND (wait_cmp_key (uts w)) (FD_KEY fd e) (wait_mem w, waiting q))) (\<lambda>r.
     obind (of_tree r) (\<lambda>ut.
     if ut \<noteq> NULL then
       obind (oget (\<lambda>w. RB_REMOVE ut (wait_mem w, waiting q))) (\<lambda>r.
       obind (of_tree r) (\<lambda>(_, m, root).
       oseq (oupd (\<lambda>w. w\<lparr>wait_mem := m\<rparr>))
       (oseq (p_upd (sched_p sc) (\<lambda>q. q\<lparr>waiting := root\<rparr>))
       (oseq (uthread_desched_sleep ut)
       (oret ut)))))
     else oret ut)))))"

text \<open>
  The common part of \<^verbatim>\<open>_uthread_cancel_event\<close> and \<^verbatim>\<open>handle_event\<close>: the status bit is cleared and the
  descriptor is no longer watched.  The second test reads and clears \<^verbatim>\<open>BIT(UT_EVENT_WR)\<close>, which is
  the bit of \<^verbatim>\<open>UT_ST_READY\<close>.  When neither bit is set the event structure is not initialised; the
  system ignores it for \<^verbatim>\<open>EPOLL_CTL_DEL\<close> and the model passes 0.
\<close>

definition unwatch :: "'k os \<Rightarrow> ptr \<Rightarrow> int \<Rightarrow> ('k world, unit) op" where
  "unwatch os ut fd =
     obind (ut_get ut) (\<lambda>u.
     let mask = (if has (status u) UT_ST_WAIT_RD then event_mask UT_EVENT_RD
                 else if has (status u) UT_EVENT_WR then event_mask UT_EVENT_WR else 0) in
     oseq (if has (status u) UT_ST_WAIT_RD
           then ut_upd ut (\<lambda>u. u\<lparr>status := status u AND CLEARBIT UT_ST_WAIT_RD\<rparr>)
           else if has (status u) UT_EVENT_WR
           then ut_upd ut (\<lambda>u. u\<lparr>status := status u AND CLEARBIT UT_EVENT_WR\<rparr>)
           else oret ())
     (obind (p_get (ut_p u)) (\<lambda>q.
     obind (sys (os_epoll_ctl os (poller_fd q) EPOLL_CTL_DEL fd mask)) (\<lambda>r.
     oassert (r = 0)))))"

definition uthread_cancel_event :: "'k os \<Rightarrow> ptr \<Rightarrow> ('k world, unit) op" where
  "uthread_cancel_event os ut =
     obind (ut_get ut) (\<lambda>u.
     oseq (unwatch os ut (FD_ONLY (fd_wait u)))
     (oseq (obind (ut_get ut) (\<lambda>u.
        if 0 \<le>s fd_wait u
        then obind (uthread_desched_event (FD_ONLY (fd_wait u)) (nat (FD_EVENT (fd_wait u)))) (\<lambda>_. oret ())
        else oret ()))
     (ut_upd ut (\<lambda>u. u\<lparr>fd_wait := -1\<rparr>))))"

end
