(* ===== verification/Ut_Inv.thy ===== *)
theory Ut_Inv
  imports Ut_Sleep
begin

text \<open>
  The invariant of the scheduler's data.  Every uthread is in exactly one place: in the ready queue
  of its \<^verbatim>\<open>p\<close>, once; in the sleeping tree of its \<^verbatim>\<open>p\<close>, if and only if its status has
  \<^verbatim>\<open>UT_ST_SLEEPING\<close>; or in the hands of a scheduler (taken out of the queue, or running).  The trees
  are red-black trees ordered by the wake-up time and by descriptor and event.
\<close>

subsection \<open>The invariant\<close>

definition skey :: "(ptr \<rightharpoonup> uthread) \<Rightarrow> ptr \<Rightarrow> 64 word" where
  "skey U a = wakeup_time_usec (the (U a))"

definition wkey :: "(ptr \<rightharpoonup> uthread) \<Rightarrow> ptr \<Rightarrow> int" where
  "wkey U a = sint (fd_wait (the (U a)))"

definition asleep :: "(ptr \<rightharpoonup> uthread) \<Rightarrow> ptr set" where
  "asleep U = {a. \<exists>u. U a = Some u \<and> bit (status u) UT_ST_SLEEPING}"

definition of_p :: "(ptr \<rightharpoonup> uthread) \<Rightarrow> ptr \<Rightarrow> ptr set" where
  "of_p U p = {a. \<exists>u. U a = Some u \<and> ut_p u = p}"

text \<open>
  \<open>p_ok U R W sm wm p q\<close>: the queue and the trees of the structure \<open>q\<close> at \<open>p\<close> hold what they should.
  \<open>R\<close> are the uthreads in the hands of schedulers, \<open>W\<close> those that wait for a descriptor.
\<close>

definition p_ok ::
  "(ptr \<rightharpoonup> uthread) \<Rightarrow> ptr set \<Rightarrow> ptr set \<Rightarrow> rb_mem \<Rightarrow> rb_mem \<Rightarrow> ptr \<Rightarrow> proc \<Rightarrow> bool" where
  "p_ok U R W sm wm p q \<longleftrightarrow>
     distinct (ready q) \<and> set (ready q) = of_p U p - asleep U - R \<and>
     (\<exists>xs. rbtree (skey U) sm (sleeping q) xs \<and> set xs = of_p U p \<inter> asleep U) \<and>
     (\<exists>ys. rbtree (wkey U) wm (waiting q) ys \<and> set ys = of_p U p \<inter> W)"

definition core :: "ptr set \<Rightarrow> ptr set \<Rightarrow> 'k world \<Rightarrow> bool" where
  "core R W w \<longleftrightarrow>
     NULL \<notin> dom (uts w) \<and> NULL \<notin> dom (ps w) \<and>
     dom (sleep_mem w) = dom (uts w) \<and> dom (wait_mem w) = dom (uts w) \<and>
     R \<subseteq> dom (uts w) \<and> R \<inter> asleep (uts w) = {} \<and> W \<subseteq> dom (uts w) \<and>
     (\<forall>a u. uts w a = Some u \<longrightarrow> ut_p u \<in> dom (ps w)) \<and>
     (\<forall>p q. ps w p = Some q \<longrightarrow> p_ok (uts w) R W (sleep_mem w) (wait_mem w) p q)"

text \<open>The uthreads that sleep until a descriptor is ready.\<close>

definition waiters :: "(ptr \<rightharpoonup> uthread) \<Rightarrow> ptr set" where
  "waiters U = {a. \<exists>u. U a = Some u \<and> bit (status u) UT_ST_SLEEPING \<and> 0 \<le>s fd_wait u}"

text \<open>The invariant between two operations.\<close>

definition inv_at :: "ptr set \<Rightarrow> 'k world \<Rightarrow> bool" where
  "inv_at R w \<longleftrightarrow> core R (waiters (uts w)) w"

subsection \<open>The comparison functions are comparisons\<close>

lemma in_domD: "A \<subseteq> dom U \<Longrightarrow> NULL \<notin> dom U \<Longrightarrow> b \<in> A \<Longrightarrow> \<exists>v. ut_at U b = Some v \<and> U b = Some v"
  by (cases "b = NULL") (auto simp: ut_at_def)

lemma sleep_cmp_by:
  assumes "A \<subseteq> dom U" "a \<in> dom U" "NULL \<notin> dom U"
  shows "cmp_by (uthread_sleep_cmp U) (skey U) a (skey U a) A"
  unfolding cmp_by_def
proof
  fix b
  assume "b \<in> A"
  then obtain u v where "ut_at U a = Some u" "U a = Some u" "ut_at U b = Some v" "U b = Some v"
    using in_domD [of A U b] in_domD [of "{a}" U a] assms by auto
  then show "\<exists>v. uthread_sleep_cmp U a b = Some v \<and> (v < 0 \<longleftrightarrow> skey U a < skey U b) \<and>
      (0 < v \<longleftrightarrow> skey U b < skey U a)"
    by (auto simp: uthread_sleep_cmp_def skey_def)
qed

lemma wait_cmp_sign:
  "uthread_wait_cmp x y < 0 \<longleftrightarrow> sint x < sint y" "0 < uthread_wait_cmp x y \<longleftrightarrow> sint y < sint x"
proof -
  have "x = y \<longleftrightarrow> sint x = sint y" by (rule word_eq_iff_signed)
  then show "uthread_wait_cmp x y < 0 \<longleftrightarrow> sint x < sint y" "0 < uthread_wait_cmp x y \<longleftrightarrow> sint y < sint x"
    by (auto simp: uthread_wait_cmp_def word_sless_alt)
qed

lemma wait_cmp_ut_by:
  assumes "A \<subseteq> dom U" "a \<in> dom U" "NULL \<notin> dom U"
  shows "cmp_by (wait_cmp_ut U) (wkey U) a (wkey U a) A"
  unfolding cmp_by_def
proof
  fix b
  assume "b \<in> A"
  then obtain u v where "ut_at U a = Some u" "U a = Some u" "ut_at U b = Some v" "U b = Some v"
    using in_domD [of A U b] in_domD [of "{a}" U a] assms by auto
  then show "\<exists>v. wait_cmp_ut U a b = Some v \<and> (v < 0 \<longleftrightarrow> wkey U a < wkey U b) \<and>
      (0 < v \<longleftrightarrow> wkey U b < wkey U a)"
    by (simp add: wait_cmp_ut_def wkey_def wait_cmp_sign)
qed

lemma wait_cmp_key_by:
  assumes "A \<subseteq> dom U" "NULL \<notin> dom U"
  shows "cmp_by (wait_cmp_key U) (wkey U) k (sint k) A"
  unfolding cmp_by_def
proof
  fix b
  assume "b \<in> A"
  then obtain v where "ut_at U b = Some v" "U b = Some v"
    using in_domD [of A U b] assms by auto
  then show "\<exists>v. wait_cmp_key U k b = Some v \<and> (v < 0 \<longleftrightarrow> sint k < wkey U b) \<and>
      (0 < v \<longleftrightarrow> wkey U b < sint k)"
    by (simp add: wait_cmp_key_def wkey_def wait_cmp_sign)
qed

subsection \<open>The keys of the waiting tree\<close>

lemma FD_KEY_int:
  assumes "- (2 ^ 31) \<le> fd" "fd < 2 ^ 31" "e < 2 ^ 32"
  shows "sint (FD_KEY fd e) = fd * 2 ^ 32 + int e"
proof -
  have e: "take_bit 32 (int e) = int e" using assms(3) by (simp add: take_bit_int_eq_self)
  have "push_bit 32 fd OR int e = fd * 2 ^ 32 + int e"
  proof -
    have "push_bit 32 fd AND int e = 0"
      by (rule bit_eqI) (metis bit_and_iff bit_push_bit_iff bit_take_bit_iff e bit_0_eq bot_apply
          bot_bool_def not_le)
    then show ?thesis by (simp add: push_bit_eq_mult flip: disjunctive_add_eq_or)
  qed
  moreover have "FD_KEY fd e = word_of_int (push_bit 32 fd OR int e)"
    by (simp add: FD_KEY_def of_int_or_eq push_bit_eq_mult)
  ultimately have "FD_KEY fd e = word_of_int (fd * 2 ^ 32 + int e)" by metis
  then have "sint (FD_KEY fd e) = signed_take_bit 63 (fd * 2 ^ 32 + int e)"
    by (simp only: signed_of_int) simp
  also have "\<dots> = fd * 2 ^ 32 + int e"
    using assms by (intro signed_take_bit_int_eq_self) auto
  finally show ?thesis .
qed

lemma FD_KEY_roundtrip:
  assumes "- (2 ^ 31) \<le> fd" "fd < 2 ^ 31" "e < 2 ^ 31"
  shows "FD_ONLY (FD_KEY fd e) = fd" "FD_EVENT (FD_KEY fd e) = int e"
proof -
  have s: "sint (FD_KEY fd e) = fd * 2 ^ 32 + int e" using assms by (intro FD_KEY_int) auto
  show "FD_ONLY (FD_KEY fd e) = fd"
    using assms(3) by (simp add: FD_ONLY_def sint_signed_drop_bit_eq s drop_bit_eq_div)
  have "(ucast (FD_KEY fd e) :: 32 word) = word_of_int (sint (FD_KEY fd e))"
    by (rule bit_word_eqI) (simp add: bit_simps)
  also have "\<dots> = word_of_int (int e)"
    unfolding s word_of_int_eq_iff take_bit_eq_mod by simp
  finally have "FD_EVENT (FD_KEY fd e) = signed_take_bit 31 (int e)"
    by (simp only: FD_EVENT_def sint_sbintrunc') simp
  also have "\<dots> = int e" using assms(3) by (intro signed_take_bit_int_eq_self) auto
  finally show "FD_EVENT (FD_KEY fd e) = int e" .
qed

subsection \<open>Changing a uthread\<close>

lemma upd_keeps:
  assumes "U a = Some u" "ut_p u' = ut_p u"
  shows "dom (U(a \<mapsto> u')) = dom U" "of_p (U(a \<mapsto> u')) = of_p U"
    "wakeup_time_usec u' = wakeup_time_usec u \<Longrightarrow> skey (U(a \<mapsto> u')) = skey U"
    "fd_wait u' = fd_wait u \<Longrightarrow> wkey (U(a \<mapsto> u')) = wkey U"
    "asleep (U(a \<mapsto> u')) =
       (if bit (status u') UT_ST_SLEEPING then insert a (asleep U) else asleep U - {a})"
  using assms by (auto simp: of_p_def skey_def wkey_def asleep_def fun_eq_iff)

lemma skey_other: "a \<noteq> b \<Longrightarrow> skey (U(a \<mapsto> u)) b = skey U b"
  by (simp add: skey_def)

lemma wkey_other: "a \<noteq> b \<Longrightarrow> wkey (U(a \<mapsto> u)) b = wkey U b"
  by (simp add: wkey_def)

lemma of_p_disjoint: "p \<noteq> p' \<Longrightarrow> of_p U p \<inter> of_p U p' = {}"
  by (auto simp: of_p_def)

text \<open>
  Two facts of \<open>core\<close> for a uthread: it has a \<^verbatim>\<open>p\<close>, and what \<open>p_ok\<close> says of it.
\<close>

lemma coreD:
  assumes "core R W w" "uts w a = Some u"
  shows "a \<noteq> NULL" "\<exists>q. ut_p u \<noteq> NULL \<and> ps w (ut_p u) = Some q \<and>
    p_ok (uts w) R W (sleep_mem w) (wait_mem w) (ut_p u) q" "a \<in> of_p (uts w) (ut_p u)"
proof -
  show "a \<noteq> NULL" using assms by (cases "a = NULL") (auto simp: core_def)
  show "a \<in> of_p (uts w) (ut_p u)" using assms by (auto simp: of_p_def)
  have d: "ut_p u \<in> dom (ps w)" "NULL \<notin> dom (ps w)"
    using assms unfolding core_def by blast+
  then have "ut_p u \<noteq> NULL" by metis
  with d assms(1) show "\<exists>q. ut_p u \<noteq> NULL \<and> ps w (ut_p u) = Some q \<and>
      p_ok (uts w) R W (sleep_mem w) (wait_mem w) (ut_p u) q"
    unfolding core_def by blast
qed

text \<open>
  The other \<^verbatim>\<open>p\<close>s do not notice when a uthread of \<open>p\<close> changes, or the entries of the uthreads of \<open>p\<close>.
\<close>

lemma p_ok_other:
  assumes "p_ok U R W sm wm p' q" "p' \<noteq> p" "a \<in> of_p U p" "ut_p u' = p"
    and sm: "same_outside (of_p U p) sm sm'" and wm: "same_outside (of_p U p) wm wm'"
    and R: "R' - {a} = R - {a}" and W: "W' - {a} = W - {a}"
  shows "p_ok (U(a \<mapsto> u')) R' W' sm' wm' p' q"
proof -
  obtain u where u: "U a = Some u" "ut_p u = p" using assms(3) by (auto simp: of_p_def)
  have of_p: "of_p (U(a \<mapsto> u')) = of_p U" using upd_keeps(2) [of U a u u'] u assms(4) by simp
  have a: "a \<notin> of_p U p'" using of_p_disjoint [OF assms(2)] assms(3) by auto
  have as: "of_p U p' \<inter> asleep (U(a \<mapsto> u')) = of_p U p' \<inter> asleep U"
    "of_p U p' - asleep (U(a \<mapsto> u')) - R' = of_p U p' - asleep U - R"
    using a R upd_keeps(5) [of U a u u'] u assms(4) by auto
  have W': "of_p U p' \<inter> W' = of_p U p' \<inter> W" using a W by auto
  obtain xs ys where t: "rbtree (skey U) sm (sleeping q) xs" "set xs = of_p U p' \<inter> asleep U"
    "rbtree (wkey U) wm (waiting q) ys" "set ys = of_p U p' \<inter> W"
    using assms(1) by (auto simp: p_ok_def)
  have dj: "set xs \<inter> of_p U p = {}" "set ys \<inter> of_p U p = {}"
    using t(2,4) of_p_disjoint [OF assms(2)] by auto
  have "rbtree (skey (U(a \<mapsto> u'))) sm' (sleeping q) xs"
    by (rule rbtree_rekey [OF rbtree_frame [OF t(1) sm dj(1)]]) (use t(2) a in \<open>auto intro!: skey_other\<close>)
  moreover have "rbtree (wkey (U(a \<mapsto> u'))) wm' (waiting q) ys"
    by (rule rbtree_rekey [OF rbtree_frame [OF t(3) wm dj(2)]]) (use t(4) a in \<open>auto intro!: wkey_other\<close>)
  ultimately show ?thesis
    using assms(1) t(2,4) unfolding p_ok_def of_p as W' by auto
qed

end
