(* ===== verification/Ut_Block.thy ===== *)
theory Ut_Block
  imports Ut_Inv
begin

text \<open>
  The operations of \<open>Ut_Sleep\<close> keep the invariant: going to sleep, being woken, starting and
  ending to wait for a descriptor.  Each lemma says that the operation does not crash and what it
  does.
\<close>

subsection \<open>Waking\<close>

lemma core_parts:
  assumes "core R W w"
  shows "NULL \<notin> dom (uts w)" "NULL \<notin> dom (ps w)" "dom (sleep_mem w) = dom (uts w)"
    "dom (wait_mem w) = dom (uts w)" "R \<subseteq> dom (uts w)" "R \<inter> asleep (uts w) = {}" "W \<subseteq> dom (uts w)"
    "\<And>a u. uts w a = Some u \<Longrightarrow> ut_p u \<in> dom (ps w)"
    "\<And>p q. ps w p = Some q \<Longrightarrow> p_ok (uts w) R W (sleep_mem w) (wait_mem w) p q"
  using assms unfolding core_def by blast+

definition woken :: "uthread \<Rightarrow> uthread" where
  "woken u = u\<lparr>status := (status u AND CLEARBIT UT_ST_SLEEPING) OR BIT UT_ST_READY\<rparr>"

lemma woken_simps [simp]:
  "ut_p (woken u) = ut_p u" "wakeup_time_usec (woken u) = wakeup_time_usec u" "fd_wait (woken u) = fd_wait u"
  "bit (status (woken u)) n \<longleftrightarrow> bit (status u) n \<and> n \<noteq> UT_ST_SLEEPING \<or> n = UT_ST_READY"
  by (auto simp: woken_def)

lemma desched_sleep_awake:
  "ut \<noteq> NULL \<Longrightarrow> uts w ut = Some u \<Longrightarrow> \<not> bit (status u) UT_ST_SLEEPING \<Longrightarrow>
   uthread_desched_sleep ut w = Inr ((), w)"
  by (simp add: uthread_desched_sleep_def op_simps)

lemma desched_sleep_asleep:
  assumes c: "core R W w" and u: "uts w ut = Some u" "bit (status u) UT_ST_SLEEPING"
  shows "\<exists>q sm root. ps w (ut_p u) = Some q \<and>
    uthread_desched_sleep ut w = Inr ((), w\<lparr>uts := (uts w)(ut \<mapsto> woken u), sleep_mem := sm,
      ps := (ps w)(ut_p u \<mapsto> q\<lparr>sleeping := root\<rparr>)\<rparr>) \<and>
    core (insert ut R) W (w\<lparr>uts := (uts w)(ut \<mapsto> woken u), sleep_mem := sm,
      ps := (ps w)(ut_p u \<mapsto> q\<lparr>sleeping := root\<rparr>)\<rparr>)"
proof -
  let ?U = "uts w" and ?p = "ut_p u" and ?U' = "(uts w)(ut \<mapsto> woken u)"
  note parts = core_parts [OF c]
  obtain q where q: "?p \<noteq> NULL" "ps w ?p = Some q" "p_ok ?U R W (sleep_mem w) (wait_mem w) ?p q"
    using coreD(2) [OF c u(1)] by blast
  obtain xs where xs: "rbtree (skey ?U) (sleep_mem w) (sleeping q) xs" "set xs = of_p ?U ?p \<inter> asleep ?U"
    using q(3) by (auto simp: p_ok_def)
  have ut: "ut \<noteq> NULL" "ut \<in> of_p ?U ?p" "ut \<in> asleep ?U" "ut \<in> set xs"
    using coreD(1,3) [OF c u(1)] u xs(2) by (auto simp: asleep_def)
  obtain sm root where del: "RB_REMOVE ut (sleep_mem w, sleeping q) = Some (ut, sm, root)"
    "rbtree (skey ?U) sm root (remove1 ut xs)" "same_outside (set xs) (sleep_mem w) sm"
    using rbtree_remove [OF xs(1) ut(4)] by blast
  let ?q = "q\<lparr>sleeping := root\<rparr>"
  let ?w = "w\<lparr>uts := ?U', sleep_mem := sm, ps := (ps w)(?p \<mapsto> ?q)\<rparr>"
  have run: "uthread_desched_sleep ut w = Inr ((), ?w)"
    using u ut(1) q(1,2) del(1) by (simp add: uthread_desched_sleep_def op_simps woken_def)
  note upd = upd_keeps [where U = "uts w" and a = ut and u = u and u' = "woken u", OF u(1), simplified]
  have xs': "set (remove1 ut xs) = set xs - {ut}"
    using sorted_by_distinct [OF rbtree_sorted [OF xs(1)]] by simp
  have sub: "set xs \<subseteq> of_p ?U ?p" using xs(2) by auto
  note sm = same_outside_mono [OF del(3) sub]
  have p: "p_ok ?U' (insert ut R) W sm (wait_mem w) ?p ?q"
    using q(3) del(2) xs' xs(2) ut(3) by (auto simp: p_ok_def upd)
  have other: "p_ok ?U' (insert ut R) W sm (wait_mem w) p' q'" if "ps w p' = Some q'" "p' \<noteq> ?p" for p' q'
    by (rule p_ok_other [OF parts(9) [OF that(1)] that(2) ut(2) _ sm]) auto
  have "dom sm = dom (uts w)" using sm parts(3) by (simp add: same_outside_def)
  then have "core (insert ut R) W ?w"
    unfolding core_def using parts u q(2) p other ut by (auto simp: upd)
  with run q(2) show ?thesis by blast
qed

subsection \<open>Going to sleep\<close>

definition wake_at :: "64 word \<times> 64 word \<Rightarrow> 64 word \<Rightarrow> 64 word" where
  "wake_at now mescs = (case now of (sec, usec) \<Rightarrow>
     sec * 1000000 + usec + (if mescs = 0 then push_bit 30 1 * 1000 else mescs) * 1000)"

definition slept :: "64 word \<Rightarrow> uthread \<Rightarrow> uthread" where
  "slept t u = u\<lparr>wakeup_time_usec := t, status := status u OR BIT UT_ST_SLEEPING,
     is_wating_yield_signal := 0\<rparr>"

lemma slept_simps [simp]:
  "ut_p (slept t u) = ut_p u" "wakeup_time_usec (slept t u) = t" "fd_wait (slept t u) = fd_wait u"
  "bit (status (slept t u)) n \<longleftrightarrow> bit (status u) n \<or> n = UT_ST_SLEEPING"
  by (auto simp: slept_def)

text \<open>The state of the sleeping tree when \<^verbatim>\<open>RB_INSERT\<close> is called: the new wake-up time is stored.\<close>

lemma sleep_tree_before:
  assumes c: "core (insert ut R) W w" and u: "uts w ut = Some u" and q: "ps w (ut_p u) = Some q"
  shows "\<exists>xs. rbtree (skey ((uts w)(ut \<mapsto> u\<lparr>wakeup_time_usec := t\<rparr>))) (sleep_mem w) (sleeping q) xs \<and>
    set xs = of_p (uts w) (ut_p u) \<inter> asleep (uts w) \<and> ut \<notin> set xs \<and>
    cmp_by (uthread_sleep_cmp ((uts w)(ut \<mapsto> u\<lparr>wakeup_time_usec := t\<rparr>)))
      (skey ((uts w)(ut \<mapsto> u\<lparr>wakeup_time_usec := t\<rparr>))) ut t (set xs)"
proof -
  let ?U = "uts w" and ?U1 = "(uts w)(ut \<mapsto> u\<lparr>wakeup_time_usec := t\<rparr>)"
  note parts = core_parts [OF c]
  obtain xs where xs: "rbtree (skey ?U) (sleep_mem w) (sleeping q) xs"
    "set xs = of_p ?U (ut_p u) \<inter> asleep ?U"
    using parts(9) [OF q] by (auto simp: p_ok_def)
  have ut: "ut \<notin> set xs" using parts(6) xs(2) by auto
  have "rbtree (skey ?U1) (sleep_mem w) (sleeping q) xs"
    by (rule rbtree_rekey [OF xs(1)]) (use ut in \<open>auto intro!: skey_other\<close>)
  moreover have "cmp_by (uthread_sleep_cmp ?U1) (skey ?U1) ut (skey ?U1 ut) (set xs)"
    by (rule sleep_cmp_by) (use parts(1) u xs(2) in \<open>auto simp: asleep_def\<close>)
  ultimately show ?thesis using xs(2) ut by (auto simp: skey_def)
qed

lemma sleep_enter_same_time:
  assumes c: "core (insert ut R) W w" and u: "uts w ut = Some u"
    and now: "os_gettimeofday os (kern w) = (now, k)"
    and b: "b \<in> of_p (uts w) (ut_p u) \<inter> asleep (uts w)" "skey (uts w) b = wake_at now ms"
  shows "sleep_enter os ut ms w = Inl AssertFail"
proof -
  let ?t = "wake_at now ms" let ?U1 = "(uts w)(ut \<mapsto> u\<lparr>wakeup_time_usec := ?t\<rparr>)"
  obtain q where q: "ut_p u \<noteq> NULL" "ps w (ut_p u) = Some q" using coreD(2) [OF c u] by blast
  obtain xs where xs: "rbtree (skey ?U1) (sleep_mem w) (sleeping q) xs"
    "set xs = of_p (uts w) (ut_p u) \<inter> asleep (uts w)" "ut \<notin> set xs"
    "cmp_by (uthread_sleep_cmp ?U1) (skey ?U1) ut ?t (set xs)"
    using sleep_tree_before [OF c u q(2), of ?t] by blast
  have b': "b \<in> set xs" "b \<noteq> ut" "b \<noteq> NULL" "skey ?U1 b = skey ?U1 ut"
    using b xs(2,3) coreD(1) [OF c] by (auto simp: skey_def asleep_def)
  have "cmp_by (uthread_sleep_cmp ?U1) (skey ?U1) ut (skey ?U1 ut) (set xs)"
    using xs(4) by (simp add: skey_def)
  from rbtree_insert_present [OF xs(1) this b'(1,4)]
  have "RB_INSERT (uthread_sleep_cmp ?U1) ut (sleep_mem w, sleeping q) = Some (b, sleep_mem w, sleeping q)" .
  then show ?thesis
    using u q now b'(3) coreD(1) [OF c u]
    by (cases now) (simp add: sleep_enter_def get_usec_now_def op_simps wake_at_def Let_def del: neq0_conv)
qed

lemma sleep_enter_core:
  assumes c: "core (insert ut R) W w" and R: "ut \<notin> R" and u: "uts w ut = Some u"
    and now: "os_gettimeofday os (kern w) = (now, k)"
    and new: "\<forall>b \<in> of_p (uts w) (ut_p u) \<inter> asleep (uts w). skey (uts w) b \<noteq> wake_at now ms"
  shows "\<exists>q sm root. ps w (ut_p u) = Some q \<and>
    sleep_enter os ut ms w = Inr ((), w\<lparr>kern := k, uts := (uts w)(ut \<mapsto> slept (wake_at now ms) u),
      sleep_mem := sm, ps := (ps w)(ut_p u \<mapsto> q\<lparr>sleeping := root\<rparr>)\<rparr>) \<and>
    core R W (w\<lparr>kern := k, uts := (uts w)(ut \<mapsto> slept (wake_at now ms) u),
      sleep_mem := sm, ps := (ps w)(ut_p u \<mapsto> q\<lparr>sleeping := root\<rparr>)\<rparr>)"
proof -
  let ?t = "wake_at now ms" let ?U = "uts w" and ?p = "ut_p u"
  let ?U1 = "(uts w)(ut \<mapsto> u\<lparr>wakeup_time_usec := ?t\<rparr>)" and ?U' = "(uts w)(ut \<mapsto> slept ?t u)"
  note parts = core_parts [OF c]
  obtain q where q: "?p \<noteq> NULL" "ps w ?p = Some q"
    "p_ok ?U (insert ut R) W (sleep_mem w) (wait_mem w) ?p q" using coreD(2) [OF c u] by blast
  obtain xs where xs: "rbtree (skey ?U1) (sleep_mem w) (sleeping q) xs"
    "set xs = of_p ?U ?p \<inter> asleep ?U" "ut \<notin> set xs"
    "cmp_by (uthread_sleep_cmp ?U1) (skey ?U1) ut ?t (set xs)"
    using sleep_tree_before [OF c u q(2), of ?t] by blast
  have ut: "ut \<noteq> NULL" "ut \<in> of_p ?U ?p" "ut \<notin> asleep ?U"
    using coreD(1,3) [OF c u] parts(6) by auto
  have k: "skey ?U1 ut = ?t" by (simp add: skey_def)
  have "\<forall>x \<in> set xs. skey ?U1 x \<noteq> skey ?U1 ut"
    using new xs(2,3) unfolding k by (auto simp: skey_def)
  moreover have "rb_slot (sleep_mem w) ut" using parts(3) u ut(1) by (auto simp: rb_slot_def entry_def)
  ultimately obtain sm root where ins:
    "RB_INSERT (uthread_sleep_cmp ?U1) ut (sleep_mem w, sleeping q) = Some (NULL, sm, root)"
    "rbtree (skey ?U1) sm root (insort_key (skey ?U1) ut xs)"
    "same_outside (insert ut (set xs)) (sleep_mem w) sm"
    using rbtree_insert [OF xs(1), of ut "uthread_sleep_cmp ?U1"] xs(4) unfolding k by blast
  let ?q = "q\<lparr>sleeping := root\<rparr>"
  let ?w = "w\<lparr>kern := k, uts := ?U', sleep_mem := sm, ps := (ps w)(?p \<mapsto> ?q)\<rparr>"
  have run: "sleep_enter os ut ms w = Inr ((), ?w)"
    using u ut(1) q(1,2) ins(1) now
    by (cases now) (simp add: sleep_enter_def get_usec_now_def op_simps wake_at_def slept_def Let_def)
  note upd = upd_keeps [where U = "uts w" and a = ut and u = u and u' = "slept ?t u", OF u, simplified]
  have sub: "insert ut (set xs) \<subseteq> of_p ?U ?p" using xs(2) ut(2) by auto
  note sm = same_outside_mono [OF ins(3) sub]
  have "skey ?U' = skey ?U1" by (auto simp: skey_def)
  then have p: "p_ok ?U' R W sm (wait_mem w) ?p ?q"
    using q(3) ins(2) xs(2) ut by (auto simp: p_ok_def upd set_insort_key)
  have other: "p_ok ?U' R W sm (wait_mem w) p' q'" if "ps w p' = Some q'" "p' \<noteq> ?p" for p' q'
    by (rule p_ok_other [OF parts(9) [OF that(1)] that(2) ut(2) _ sm]) auto
  have "dom sm = dom (uts w)" using sm parts(3) by (simp add: same_outside_def)
  then have "core R W ?w"
    unfolding core_def using parts u q(2) p other R by (auto simp: upd)
  with run q(2) show ?thesis by blast
qed

subsection \<open>Waiting for a descriptor\<close>

definition registered :: "int \<Rightarrow> nat \<Rightarrow> uthread \<Rightarrow> uthread" where
  "registered fd e u = u\<lparr>status := status u OR BIT (wait_status e), fd_wait := FD_KEY fd e\<rparr>"

lemma registered_simps [simp]:
  "ut_p (registered fd e u) = ut_p u" "wakeup_time_usec (registered fd e u) = wakeup_time_usec u"
  "fd_wait (registered fd e u) = FD_KEY fd e"
  "bit (status (registered fd e u)) n \<longleftrightarrow> bit (status u) n \<or> n = wait_status e"
  by (auto simp: registered_def wait_status_def)

lemma wait_enter_refused:
  assumes "scheds w (tsd w) = Some sc" "tsd w \<noteq> NULL" "ps w (sched_p sc) = Some q" "sched_p sc \<noteq> NULL"
    and "os_epoll_ctl os (poller_fd q) EPOLL_CTL_ADD fd (event_mask e) (kern w) = (r, k)" "r \<noteq> 0"
  shows "wait_enter os ut fd e w = Inl AssertFail"
  using assms by (simp add: wait_enter_def op_simps del: neq0_conv)

lemma wait_enter_core:
  assumes c: "core R W w" and u: "uts w ut = Some u" and W: "ut \<notin> W"
    and s: "scheds w (tsd w) = Some sc" "tsd w \<noteq> NULL" "ps w (sched_p sc) = Some qs" "sched_p sc \<noteq> NULL"
    and ctl: "os_epoll_ctl os (poller_fd qs) EPOLL_CTL_ADD fd (event_mask e) (kern w) = (0, k)"
    and new: "\<forall>b \<in> of_p (uts w) (ut_p u) \<inter> W. wkey (uts w) b \<noteq> sint (FD_KEY fd e)"
  shows "\<exists>q wm root. ps w (ut_p u) = Some q \<and>
    wait_enter os ut fd e w = Inr ((), w\<lparr>kern := k, uts := (uts w)(ut \<mapsto> registered fd e u),
      wait_mem := wm, ps := (ps w)(ut_p u \<mapsto> q\<lparr>waiting := root\<rparr>)\<rparr>) \<and>
    core R (insert ut W) (w\<lparr>kern := k, uts := (uts w)(ut \<mapsto> registered fd e u),
      wait_mem := wm, ps := (ps w)(ut_p u \<mapsto> q\<lparr>waiting := root\<rparr>)\<rparr>)"
proof -
  let ?U = "uts w" and ?p = "ut_p u" and ?U' = "(uts w)(ut \<mapsto> registered fd e u)"
  note parts = core_parts [OF c]
  obtain q where q: "?p \<noteq> NULL" "ps w ?p = Some q" "p_ok ?U R W (sleep_mem w) (wait_mem w) ?p q"
    using coreD(2) [OF c u] by blast
  obtain ys where ys: "rbtree (wkey ?U) (wait_mem w) (waiting q) ys" "set ys = of_p ?U ?p \<inter> W"
    using q(3) by (auto simp: p_ok_def)
  have ut: "ut \<noteq> NULL" "ut \<in> of_p ?U ?p" "ut \<notin> set ys"
    using coreD(1,3) [OF c u] W ys(2) by auto
  have ys': "rbtree (wkey ?U') (wait_mem w) (waiting q) ys"
    by (rule rbtree_rekey [OF ys(1)]) (use ut in \<open>auto intro!: wkey_other\<close>)
  have k: "wkey ?U' ut = sint (FD_KEY fd e)" by (simp add: wkey_def)
  have "\<forall>x \<in> set ys. wkey ?U' x \<noteq> wkey ?U' ut"
    using new ys(2) ut(3) unfolding k by (auto simp: wkey_def)
  moreover have "rb_slot (wait_mem w) ut" using parts(4) u ut(1) by (auto simp: rb_slot_def entry_def)
  moreover have "cmp_by (wait_cmp_ut ?U') (wkey ?U') ut (wkey ?U' ut) (set ys)"
    by (rule wait_cmp_ut_by) (use parts(1,7) u ys(2) in \<open>auto\<close>)
  ultimately obtain wm root where ins:
    "RB_INSERT (wait_cmp_ut ?U') ut (wait_mem w, waiting q) = Some (NULL, wm, root)"
    "rbtree (wkey ?U') wm root (insort_key (wkey ?U') ut ys)"
    "same_outside (insert ut (set ys)) (wait_mem w) wm"
    using rbtree_insert [OF ys', of ut "wait_cmp_ut ?U'"] by blast
  let ?q = "q\<lparr>waiting := root\<rparr>"
  let ?w = "w\<lparr>kern := k, uts := ?U', wait_mem := wm, ps := (ps w)(?p \<mapsto> ?q)\<rparr>"
  have run: "wait_enter os ut fd e w = Inr ((), ?w)"
    using u ut(1) q(1,2) ins(1) s ctl by (simp add: wait_enter_def op_simps registered_def)
  note upd = upd_keeps [where U = "uts w" and a = ut and u = u and u' = "registered fd e u", OF u, simplified]
  have as: "asleep ?U' = asleep ?U" using u unfolding upd by (auto simp: asleep_def wait_status_def)
  have sub: "insert ut (set ys) \<subseteq> of_p ?U ?p" using ys(2) ut(2) by auto
  note wm = same_outside_mono [OF ins(3) sub]
  have p: "p_ok ?U' R (insert ut W) (sleep_mem w) wm ?p ?q"
    using q(3) ins(2) ys(2) ut by (auto simp: p_ok_def upd(1-4) as set_insort_key)
  have other: "p_ok ?U' R (insert ut W) (sleep_mem w) wm p' q'" if "ps w p' = Some q'" "p' \<noteq> ?p" for p' q'
    by (rule p_ok_other [OF parts(9) [OF that(1)] that(2) ut(2) _ _ wm]) auto
  have "dom wm = dom (uts w)" using wm parts(4) by (simp add: same_outside_def)
  then have "core R (insert ut W) ?w"
    unfolding core_def using parts u q(2) p other as by (auto simp: upd(1-4))
  with run q(2) show ?thesis by blast
qed

text \<open>A uthread leaves the waiting tree.\<close>

lemma wait_remove_core:
  assumes c: "core R W w" and u: "uts w ut = Some u" and W: "ut \<in> W" and q: "ps w (ut_p u) = Some q"
  shows "\<exists>wm root. RB_REMOVE ut (wait_mem w, waiting q) = Some (ut, wm, root) \<and>
    core R (W - {ut}) (w\<lparr>wait_mem := wm, ps := (ps w)(ut_p u \<mapsto> q\<lparr>waiting := root\<rparr>)\<rparr>)"
proof -
  let ?U = "uts w" and ?p = "ut_p u"
  note parts = core_parts [OF c]
  note qok = parts(9) [OF q]
  obtain ys where ys: "rbtree (wkey ?U) (wait_mem w) (waiting q) ys" "set ys = of_p ?U ?p \<inter> W"
    using qok by (auto simp: p_ok_def)
  have ut: "ut \<in> of_p ?U ?p" "ut \<in> set ys" using coreD(3) [OF c u] W ys(2) by auto
  obtain wm root where del: "RB_REMOVE ut (wait_mem w, waiting q) = Some (ut, wm, root)"
    "rbtree (wkey ?U) wm root (remove1 ut ys)" "same_outside (set ys) (wait_mem w) wm"
    using rbtree_remove [OF ys(1) ut(2)] by blast
  let ?q = "q\<lparr>waiting := root\<rparr>"
  have ys': "set (remove1 ut ys) = set ys - {ut}"
    using sorted_by_distinct [OF rbtree_sorted [OF ys(1)]] by simp
  have sub: "set ys \<subseteq> of_p ?U ?p" using ys(2) by auto
  note wm = same_outside_mono [OF del(3) sub]
  have p: "p_ok ?U R (W - {ut}) (sleep_mem w) wm ?p ?q"
    using qok del(2) ys' ys(2) by (auto simp: p_ok_def)
  have triv: "?U(ut \<mapsto> u) = ?U" using u by (simp add: fun_upd_idem)
  have other: "p_ok ?U R (W - {ut}) (sleep_mem w) wm p' q'" if "ps w p' = Some q'" "p' \<noteq> ?p" for p' q'
    by (rule p_ok_other [where u' = u, OF parts(9) [OF that(1)] that(2) ut(1) refl _ wm, unfolded triv]) auto
  have "dom wm = dom (uts w)" using wm parts(4) by (simp add: same_outside_def)
  then have "core R (W - {ut}) (w\<lparr>wait_mem := wm, ps := (ps w)(?p \<mapsto> ?q)\<rparr>)"
    unfolding core_def using parts q p other by auto
  with del(1) show ?thesis by blast
qed

lemma desched_event_none:
  assumes c: "core R W w"
    and s: "scheds w (tsd w) = Some sc" "tsd w \<noteq> NULL" "ps w (sched_p sc) = Some q" "sched_p sc \<noteq> NULL"
    and none: "\<forall>a \<in> of_p (uts w) (sched_p sc) \<inter> W. wkey (uts w) a \<noteq> sint (FD_KEY fd e)"
  shows "uthread_desched_event fd e w = Inr (NULL, w)"
proof -
  note parts = core_parts [OF c]
  obtain ys where ys: "rbtree (wkey (uts w)) (wait_mem w) (waiting q) ys"
    "set ys = of_p (uts w) (sched_p sc) \<inter> W"
    using parts(9) [OF s(3)] by (auto simp: p_ok_def)
  have cmp: "cmp_by (wait_cmp_key (uts w)) (wkey (uts w)) (FD_KEY fd e) (sint (FD_KEY fd e)) (set ys)"
    by (rule wait_cmp_key_by) (use parts(1,7) ys(2) in auto)
  have "filter (\<lambda>x. wkey (uts w) x = sint (FD_KEY fd e)) ys = []"
    using none ys(2) by (auto simp: filter_empty_conv)
  then have "RB_FIND (wait_cmp_key (uts w)) (FD_KEY fd e) (wait_mem w, waiting q) = Some NULL"
    using rbtree_find(1) [OF ys(1) cmp] by simp
  then show ?thesis using s by (simp add: uthread_desched_event_def op_simps)
qed

lemma filter_unique:
  "distinct xs \<Longrightarrow> a \<in> set xs \<Longrightarrow> P a \<Longrightarrow> (\<And>b. b \<in> set xs \<Longrightarrow> P b \<Longrightarrow> b = a) \<Longrightarrow> filter P xs = [a]"
proof (induction xs)
  case (Cons x xs)
  show ?case
  proof (cases "x = a")
    case True
    have "filter P xs = []"
      unfolding filter_empty_conv using Cons.prems(1,4) True by (metis distinct.simps(2) list.set_intros(2))
    with True Cons.prems(3) show ?thesis by simp
  next
    case False
    then have "\<not> P x" using Cons.prems(4) [of x] by auto
    moreover have "filter P xs = [a]"
    proof (rule Cons.IH)
      show "distinct xs" "a \<in> set xs" "P a" using False Cons.prems(1-3) by auto
      show "b = a" if "b \<in> set xs" "P b" for b using Cons.prems(4) [of b] that by simp
    qed
    ultimately show ?thesis by simp
  qed
qed simp

lemma desched_event_found:
  assumes c: "core R W w" and W: "W \<subseteq> asleep (uts w)"
    and s: "scheds w (tsd w) = Some sc" "tsd w \<noteq> NULL" "ut_p u = sched_p sc"
    and u: "uts w ut = Some u" "ut \<in> W" "fd_wait u = FD_KEY fd e"
  shows "\<exists>q sm wm sr wr. ps w (ut_p u) = Some q \<and>
    uthread_desched_event fd e w = Inr (ut, w\<lparr>uts := (uts w)(ut \<mapsto> woken u), sleep_mem := sm, wait_mem := wm,
      ps := (ps w)(ut_p u \<mapsto> q\<lparr>waiting := wr, sleeping := sr\<rparr>)\<rparr>) \<and>
    core (insert ut R) (W - {ut}) (w\<lparr>uts := (uts w)(ut \<mapsto> woken u), sleep_mem := sm, wait_mem := wm,
      ps := (ps w)(ut_p u \<mapsto> q\<lparr>waiting := wr, sleeping := sr\<rparr>)\<rparr>)"
proof -
  let ?U = "uts w" and ?p = "ut_p u"
  note parts = core_parts [OF c]
  obtain q where q: "?p \<noteq> NULL" "ps w ?p = Some q" "p_ok ?U R W (sleep_mem w) (wait_mem w) ?p q"
    using coreD(2) [OF c u(1)] by blast
  obtain ys where ys: "rbtree (wkey ?U) (wait_mem w) (waiting q) ys" "set ys = of_p ?U ?p \<inter> W"
    using q(3) by (auto simp: p_ok_def)
  have ut: "ut \<noteq> NULL" "ut \<in> set ys" "wkey ?U ut = sint (FD_KEY fd e)"
    using coreD(1,3) [OF c u(1)] u ys(2) by (auto simp: wkey_def)
  have sorted: "sorted_by (wkey ?U) ys" by (rule rbtree_sorted [OF ys(1)])
  have only: "filter (\<lambda>x. wkey ?U x = sint (FD_KEY fd e)) ys = [ut]"
    using sorted_by_distinct [OF sorted] ut(2,3)
  proof (rule filter_unique)
    fix b
    assume "b \<in> set ys" "wkey ?U b = sint (FD_KEY fd e)"
    then show "b = ut" using sorted_by_inj [OF sorted, of b ut] ut(2,3) by simp
  qed
  have cmp: "cmp_by (wait_cmp_key ?U) (wkey ?U) (FD_KEY fd e) (sint (FD_KEY fd e)) (set ys)"
    by (rule wait_cmp_key_by) (use parts(1,7) ys(2) in auto)
  have find: "RB_FIND (wait_cmp_key ?U) (FD_KEY fd e) (wait_mem w, waiting q) = Some ut"
    using rbtree_find(1) [OF ys(1) cmp] only by simp
  obtain wm wr where del: "RB_REMOVE ut (wait_mem w, waiting q) = Some (ut, wm, wr)"
    "core R (W - {ut}) (w\<lparr>wait_mem := wm, ps := (ps w)(?p \<mapsto> q\<lparr>waiting := wr\<rparr>)\<rparr>)"
    using wait_remove_core [OF c u(1,2) q(2)] by blast
  let ?w1 = "w\<lparr>wait_mem := wm, ps := (ps w)(?p \<mapsto> q\<lparr>waiting := wr\<rparr>)\<rparr>"
  have "bit (status u) UT_ST_SLEEPING" using W u by (auto simp: asleep_def)
  then obtain sm sr where wake: "uthread_desched_sleep ut ?w1 = Inr ((), ?w1\<lparr>uts := ?U(ut \<mapsto> woken u),
      sleep_mem := sm, ps := (ps ?w1)(?p \<mapsto> q\<lparr>waiting := wr, sleeping := sr\<rparr>)\<rparr>)"
    "core (insert ut R) (W - {ut}) (?w1\<lparr>uts := ?U(ut \<mapsto> woken u),
      sleep_mem := sm, ps := (ps ?w1)(?p \<mapsto> q\<lparr>waiting := wr, sleeping := sr\<rparr>)\<rparr>)"
    using desched_sleep_asleep [OF del(2), of ut u] u(1) by auto
  have "uthread_desched_event fd e w = Inr (ut, w\<lparr>uts := ?U(ut \<mapsto> woken u), sleep_mem := sm, wait_mem := wm,
      ps := (ps w)(?p \<mapsto> q\<lparr>waiting := wr, sleeping := sr\<rparr>)\<rparr>)"
    using s q(1,2) ut(1) find del(1) wake(1) unfolding uthread_desched_event_def
    by (simp add: op_simps)
  moreover have "?w1\<lparr>uts := ?U(ut \<mapsto> woken u), sleep_mem := sm,
      ps := (ps ?w1)(?p \<mapsto> q\<lparr>waiting := wr, sleeping := sr\<rparr>)\<rparr> =
    w\<lparr>uts := ?U(ut \<mapsto> woken u), sleep_mem := sm, wait_mem := wm,
      ps := (ps w)(?p \<mapsto> q\<lparr>waiting := wr, sleeping := sr\<rparr>)\<rparr>"
    by simp
  ultimately show ?thesis using wake(2) q(2) by metis
qed

subsection \<open>The operations between two switches\<close>

lemma waiters_upd:
  assumes "U ut = Some u"
  shows "waiters (U(ut \<mapsto> u')) =
    (if bit (status u') UT_ST_SLEEPING \<and> 0 \<le>s fd_wait u' then insert ut (waiters U) else waiters U - {ut})"
  using assms by (auto simp: waiters_def)

lemma waiters_asleep: "waiters U \<subseteq> asleep U"
  by (auto simp: waiters_def asleep_def)

lemma current_isD:
  assumes "current_is ut w"
  shows "\<exists>sc. scheds w (tsd w) = Some sc \<and> cur_uthread sc = ut" "tsd w \<noteq> NULL" "ut \<noteq> NULL"
  using assms by (auto simp: current_is_def)

lemma yield_idem:
  assumes "current_is ut w" "uts w ut = Some u" "is_wating_yield_signal u = 0"
  shows "uthread_yield w = Susp ut w (\<lambda>v. Ret () v)"
proof -
  have "u\<lparr>is_wating_yield_signal := 0\<rparr> = u" using assms(3) by (cases u) simp
  then have "(uts w)(ut \<mapsto> u\<lparr>is_wating_yield_signal := 0\<rparr>) = uts w"
    using assms(2) by (simp add: fun_upd_idem)
  then have same: "w\<lparr>uts := (uts w)(ut \<mapsto> u\<lparr>is_wating_yield_signal := 0\<rparr>)\<rparr> = w" by simp
  show ?thesis using yield_suspends [OF assms(1,2)] unfolding same .
qed

text \<open>What is left of \<^verbatim>\<open>_uthread_sched_sleep\<close> when the uthread runs again.\<close>

definition sleep_leave :: "ptr \<Rightarrow> ('k world, unit) op" where
  "sleep_leave ut = ut_upd ut (\<lambda>u. u\<lparr>status := status u AND CLEARBIT UT_ST_SLEEPING\<rparr>)"

lemma sched_sleep_run:
  assumes "sleep_enter os ut ms w = Inr ((), w')" "current_is ut w'" "uts w' ut = Some u'"
    and "is_wating_yield_signal u' = 0"
  shows "uthread_sched_sleep os ut ms w = Susp ut w' (lift (sleep_leave ut))"
  unfolding uthread_sched_sleep_def lift_run(2) [of "sleep_enter os ut ms", OF assms(1)] sleep_leave_def
  by (rule cseq_Susp) (rule yield_idem [OF assms(2-4)])

lemma slept_signal [simp]: "is_wating_yield_signal (slept t u) = 0"
  by (simp add: slept_def)

text \<open>The operations on the trees of \<open>p\<close> change nothing else but uthreads and the system.\<close>

definition trees_only :: "ptr \<Rightarrow> 'k world \<Rightarrow> 'k world \<Rightarrow> bool" where
  "trees_only p w w' \<longleftrightarrow> scheds w' = scheds w \<and> glob w' = glob w \<and> blocks w' = blocks w \<and> tsd w' = tsd w \<and>
     wheel w' = wheel w \<and>
     (\<exists>q sr wr. ps w p = Some q \<and> ps w' = (ps w)(p \<mapsto> q\<lparr>sleeping := sr, waiting := wr\<rparr>))"

lemma trees_onlyI:
  assumes "ps w p = Some q" "ps w' = (ps w)(p \<mapsto> q')"
    and "q' = q\<lparr>sleeping := sr\<rparr> \<or> q' = q\<lparr>waiting := wr\<rparr> \<or> q' = q\<lparr>waiting := wr, sleeping := sr\<rparr>"
    and "scheds w' = scheds w" "glob w' = glob w" "blocks w' = blocks w" "tsd w' = tsd w" "wheel w' = wheel w"
  shows "trees_only p w w'"
proof -
  have "q' = q\<lparr>sleeping := sleeping q', waiting := waiting q'\<rparr>" using assms(3) by (cases q) auto
  then have "ps w' = (ps w)(p \<mapsto> q\<lparr>sleeping := sleeping q', waiting := waiting q'\<rparr>)" using assms(2) by simp
  with assms(1,4-) show ?thesis unfolding trees_only_def by blast
qed

lemma trees_only_trans:
  assumes "trees_only p w w1" "trees_only p w1 w2"
  shows "trees_only p w w2"
proof -
  obtain q sr wr sr' wr' where q: "ps w p = Some q" "ps w1 = (ps w)(p \<mapsto> q\<lparr>sleeping := sr, waiting := wr\<rparr>)"
    "ps w2 = (ps w1)(p \<mapsto> q\<lparr>sleeping := sr, waiting := wr, sleeping := sr', waiting := wr'\<rparr>)"
    using assms unfolding trees_only_def by fastforce
  then have "ps w2 = (ps w)(p \<mapsto> q\<lparr>sleeping := sr', waiting := wr'\<rparr>)" by simp
  with q(1) assms show ?thesis unfolding trees_only_def by auto
qed

lemma sched_sleep_core:
  assumes c: "core (insert ut R) W w" and R: "ut \<notin> R" and cur: "current_is ut w" and u: "uts w ut = Some u"
    and now: "os_gettimeofday os (kern w) = (now, k)"
    and new: "\<forall>b \<in> of_p (uts w) (ut_p u) \<inter> asleep (uts w). skey (uts w) b \<noteq> wake_at now ms"
  shows "\<exists>w'. uthread_sched_sleep os ut ms w = Susp ut w' (lift (sleep_leave ut)) \<and> core R W w' \<and>
    uts w' = (uts w)(ut \<mapsto> slept (wake_at now ms) u) \<and> scheds w' = scheds w \<and> kern w' = k \<and>
    trees_only (ut_p u) w w'"
proof -
  obtain q sm root where q: "ps w (ut_p u) = Some q" and e: "sleep_enter os ut ms w = Inr ((), w\<lparr>kern := k,
      uts := (uts w)(ut \<mapsto> slept (wake_at now ms) u), sleep_mem := sm,
      ps := (ps w)(ut_p u \<mapsto> q\<lparr>sleeping := root\<rparr>)\<rparr>)"
    "core R W (w\<lparr>kern := k, uts := (uts w)(ut \<mapsto> slept (wake_at now ms) u), sleep_mem := sm,
      ps := (ps w)(ut_p u \<mapsto> q\<lparr>sleeping := root\<rparr>)\<rparr>)"
    using sleep_enter_core [OF c R u now new] by blast
  let ?w = "w\<lparr>kern := k, uts := (uts w)(ut \<mapsto> slept (wake_at now ms) u), sleep_mem := sm,
      ps := (ps w)(ut_p u \<mapsto> q\<lparr>sleeping := root\<rparr>)\<rparr>"
  have "current_is ut ?w" using cur by (auto simp: current_is_def)
  then have run: "uthread_sched_sleep os ut ms w = Susp ut ?w (lift (sleep_leave ut))"
    by (rule sched_sleep_run [where u' = "slept (wake_at now ms) u", OF e(1)]) simp_all
  have "trees_only (ut_p u) w ?w" by (rule trees_onlyI [where q' = "q\<lparr>sleeping := root\<rparr>" and sr = root, OF q]) simp_all
  with run e(2) show ?thesis by (intro exI [of _ ?w]) simp
qed

lemma wait_key_nonneg: "0 \<le> fd \<Longrightarrow> fd < 2 ^ 31 \<Longrightarrow> e < 2 ^ 31 \<Longrightarrow> 0 \<le>s FD_KEY fd e"
  using FD_KEY_int [of fd e] by (simp add: word_sle_eq)

text \<open>What is left of \<^verbatim>\<open>_register_event\<close> when the uthread runs again.\<close>

definition register_leave :: "ptr \<Rightarrow> nat \<Rightarrow> ('k world, unit) co" where
  "register_leave ut e = cseq (lift (sleep_leave ut))
     (lift (oseq (ut_upd ut (\<lambda>u. u\<lparr>fd_wait := -1\<rparr>))
       (ut_upd ut (\<lambda>u. u\<lparr>status := status u AND CLEARBIT (wait_status e)\<rparr>))))"

lemma register_event_core:
  assumes inv: "inv_at (insert ut R) w" and R: "ut \<notin> R" and cur: "current_is ut w" and u: "uts w ut = Some u"
    and s: "scheds w (tsd w) = Some sc" "ps w (sched_p sc) = Some qs" "sched_p sc \<noteq> NULL"
    and fd: "0 \<le> fd" "fd < 2 ^ 31" "e < 2"
    and ctl: "os_epoll_ctl os (poller_fd qs) EPOLL_CTL_ADD fd (event_mask e) (kern w) = (0, k1)"
    and key: "\<forall>b \<in> of_p (uts w) (ut_p u) \<inter> waiters (uts w). wkey (uts w) b \<noteq> sint (FD_KEY fd e)"
    and now: "os_gettimeofday os k1 = (now, k2)"
    and new: "\<forall>b \<in> of_p (uts w) (ut_p u) \<inter> asleep (uts w). skey (uts w) b \<noteq> wake_at now ms"
  shows "\<exists>w'. register_event os ut fd e ms w = Susp ut w' (register_leave ut e) \<and> inv_at R w' \<and>
    uts w' = (uts w)(ut \<mapsto> slept (wake_at now ms) (registered fd e u)) \<and> scheds w' = scheds w \<and> kern w' = k2 \<and>
    trees_only (ut_p u) w w'"
proof -
  have c: "core (insert ut R) (waiters (uts w)) w" using inv by (simp add: inv_at_def)
  note parts = core_parts [OF c]
  have asl: "ut \<notin> asleep (uts w)" "ut \<notin> waiters (uts w)" using parts(6) waiters_asleep by auto
  let ?u = "registered fd e u"
  obtain q wm root where q: "ps w (ut_p u) = Some q" and e: "wait_enter os ut fd e w = Inr ((), w\<lparr>kern := k1, uts := (uts w)(ut \<mapsto> ?u),
      wait_mem := wm, ps := (ps w)(ut_p u \<mapsto> q\<lparr>waiting := root\<rparr>)\<rparr>)"
    "core (insert ut R) (insert ut (waiters (uts w))) (w\<lparr>kern := k1, uts := (uts w)(ut \<mapsto> ?u),
      wait_mem := wm, ps := (ps w)(ut_p u \<mapsto> q\<lparr>waiting := root\<rparr>)\<rparr>)"
    using wait_enter_core [OF c u asl(2) s(1) current_isD(2) [OF cur] s(2,3) ctl key] by blast
  let ?w1 = "w\<lparr>kern := k1, uts := (uts w)(ut \<mapsto> ?u), wait_mem := wm,
      ps := (ps w)(ut_p u \<mapsto> q\<lparr>waiting := root\<rparr>)\<rparr>"
  have cur1: "current_is ut ?w1" using cur by (auto simp: current_is_def)
  note upd = upd_keeps [where U = "uts w" and a = ut and u = u and u' = ?u, OF u, simplified]
  have as: "asleep (uts ?w1) = asleep (uts w)"
    using u asl(1) by (auto simp: asleep_def wait_status_def)
  have "\<forall>b \<in> of_p (uts ?w1) (ut_p ?u) \<inter> asleep (uts ?w1). skey (uts ?w1) b \<noteq> wake_at now ms"
    unfolding as using new by (simp add: upd(2,3))
  from sched_sleep_core [OF e(2) R cur1 _ _ this, of os k2] now obtain w' where
    w': "uthread_sched_sleep os ut ms ?w1 = Susp ut w' (lift (sleep_leave ut))"
      "core R (insert ut (waiters (uts w))) w'" "uts w' = (uts w)(ut \<mapsto> slept (wake_at now ms) ?u)" "scheds w' = scheds w"
      "kern w' = k2" "trees_only (ut_p u) ?w1 w'"
    by auto
  have "trees_only (ut_p u) w ?w1" by (rule trees_onlyI [where q' = "q\<lparr>waiting := root\<rparr>" and wr = root, OF q]) simp_all
  then have only: "trees_only (ut_p u) w w'" by (rule trees_only_trans [OF _ w'(6)])
  have "waiters (uts w') = insert ut (waiters (uts w))"
    unfolding w'(3) using u fd wait_key_nonneg [of fd e] by (simp add: waiters_upd)
  then have "inv_at R w'" using w'(2) by (simp add: inv_at_def)
  moreover have "register_event os ut fd e ms w = Susp ut w' (register_leave ut e)"
    unfolding register_event_def lift_run(2) [of "wait_enter os ut fd e", OF e(1)] register_leave_def
    by (rule cseq_Susp' [where m = "uthread_sched_sleep os ut ms", OF w'(1)])
  ultimately show ?thesis using w'(3-5) only by blast
qed

end
