(* ===== verification/Ut_Uthread.thy ===== *)
theory Ut_Uthread
  imports Ut_Sleep
begin

text \<open>
  \<^verbatim>\<open>uthread.c\<close>: creation, execution, exit and joining of uthreads, the hand-over of a \<^verbatim>\<open>struct p\<close> for
  disk operations, and \<^verbatim>\<open>_runtime_init\<close> of \<^verbatim>\<open>uthread_sched.c\<close>, which the first creation calls.

  The mutex of the global data is taken and released inside one operation; an operation of
  the model is one atomic step, so the lock does not appear.
\<close>

subsection \<open>Allocation\<close>

text \<open>A structure as \<^verbatim>\<open>calloc\<close> returns it.\<close>

definition zero_uthread :: uthread where
  "zero_uthread = \<lparr>ut_id = 0, stack = NULL, stack_size = 0, func = NULL, arg = NULL, status = 0,
     is_main = 0, wakeup_time_usec = 0, ut_joined = NULL, ut_p = NULL, retval = NULL, fd_wait = 0,
     is_wating_yield_signal = 0\<rparr>"

definition zero_entry :: rb_entry where
  "zero_entry = \<lparr>rbe_left = NULL, rbe_right = NULL, rbe_parent = NULL, rbe_color = RB_BLACK\<rparr>"

definition calloc_uthread :: "'k os \<Rightarrow> ('k world, ptr) op" where
  "calloc_uthread os =
     obind (sys (os_malloc os)) (\<lambda>a.
     oseq (owhen (a \<noteq> NULL) (oupd (\<lambda>w. w\<lparr>uts := (uts w)(a \<mapsto> zero_uthread),
       sleep_mem := (sleep_mem w)(a \<mapsto> zero_entry), wait_mem := (wait_mem w)(a \<mapsto> zero_entry)\<rparr>)))
     (oret a))"

text \<open>\<^verbatim>\<open>free\<close> of a uthread; its last contents stay visible to dangling pointers.\<close>

definition free_uthread :: "ptr \<Rightarrow> ('k world, unit) op" where
  "free_uthread a =
     obind (ut_get a) (\<lambda>u.
     oupd (\<lambda>w. w\<lparr>uts := (uts w)(a := None), sleep_mem := (sleep_mem w)(a := None),
       wait_mem := (wait_mem w)(a := None), dead := (dead w)(a \<mapsto> u)\<rparr>))"

definition free_block :: "ptr \<Rightarrow> ('k world, unit) op" where
  "free_block a w =
     (if a = NULL then Inr ((), w)
      else if a \<in> dom (blocks w) then Inr ((), w\<lparr>blocks := (blocks w)(a := None)\<rparr>)
      else Inl BadAccess)"

definition count_uthread :: "32 word \<Rightarrow> ('k world, unit) op" where
  "count_uthread d = oupd (\<lambda>w. w\<lparr>glob := (glob w)\<lparr>n_uthread := n_uthread (glob w) + d\<rparr>\<rparr>)"

definition uthread_free :: "ptr \<Rightarrow> ('k world, unit) op" where
  "uthread_free ut =
     obind (ut_get ut) (\<lambda>u.
     oseq (free_block (stack u))
     (oseq (free_uthread ut)
     (count_uthread (-1))))"

definition uthread_free_main :: "ptr \<Rightarrow> ('k world, unit) op" where
  "uthread_free_main ut = oseq (free_uthread ut) (count_uthread (-1))"

subsection \<open>Starting the runtime\<close>

text \<open>
  The arrays \<^verbatim>\<open>all_sched\<close> and \<^verbatim>\<open>all_p\<close>: the addresses of their elements, in the maps \<open>scheds\<close> and
  \<open>ps\<close>.  No element is at address 0.
\<close>

definition all_sched :: "nat \<Rightarrow> ptr" where
  "all_sched i = 1 + i"

definition all_p :: "nat \<Rightarrow> ptr" where
  "all_p i = 1 + i"

text \<open>One turn of the loop of \<^verbatim>\<open>_runtime_init\<close>; \<open>False\<close> when the allocation of the stack fails.\<close>

definition runtime_init_turn :: "'k os \<Rightarrow> nat \<Rightarrow> ('k world, bool) op" where
  "runtime_init_turn os i =
     obind (sys (os_malloc os)) (\<lambda>a.
     oseq (s_upd (all_sched i) (\<lambda>s. s\<lparr>sched_stack := a\<rparr>))
     (if a = NULL then oret False
      else
       oseq (oupd (\<lambda>w. w\<lparr>blocks := (blocks w)(a \<mapsto> STACK_SIZE)\<rparr>))
       (oseq (s_upd (all_sched i) (\<lambda>s. s\<lparr>sched_id := int i, sched_status := BIT SCHED_ST_IDLE,
          sched_stack_size := STACK_SIZE\<rparr>))
       (oseq (oupd (\<lambda>w. w\<lparr>glob := (glob w)\<lparr>bitmap_sched := (bitmap_sched (glob w))(i := 1),
          sched_idle := sched_idle (glob w) @ [all_sched i],
          sched_with_stack := sched_with_stack (glob w) @ [all_sched i]\<rparr>\<rparr>))
       (obind (oget (\<lambda>w. os_pthread_self os (kern w))) (\<lambda>self.
        oseq (p_upd (all_p i) (\<lambda>q. q\<lparr>p_id := int i, p_status := BIT P_ST_IDLE, tid := self,
          ready := [], sleeping := RB_INIT, waiting := RB_INIT\<rparr>))
       (oseq (oupd (\<lambda>w. w\<lparr>glob := (glob w)\<lparr>p_idle := p_idle (glob w) @ [all_p i]\<rparr>\<rparr>))
       (oret True))))))))"

text \<open>The turns \<open>i, ..., i + n - 1\<close>.\<close>

fun runtime_init_loop :: "'k os \<Rightarrow> nat \<Rightarrow> nat \<Rightarrow> ('k world, bool) op" where
  "runtime_init_loop os i 0 = oret True"
| "runtime_init_loop os i (Suc n) =
     obind (runtime_init_turn os i) (\<lambda>ok. if ok then runtime_init_loop os (Suc i) n else oret False)"

text \<open>
  The global data at program start, and \<^verbatim>\<open>_runtime_init\<close>.  The thread of the timer wheel, which
  \<^verbatim>\<open>pthread_create\<close> starts at the end, resets the position of the wheel before it arms the interval
  timer; the model does this at its creation.
\<close>

definition zero_glob :: global_data where
  "zero_glob = \<lparr>sched_idle = [], sched_with_stack = [], bitmap_sched = (\<lambda>_. 0), next_sched_id = 0,
     p_idle = [], n_uthread = 0, bitmap_ut = (\<lambda>_. 0), next_ut_id = 0\<rparr>"

definition runtime_init :: "'k os \<Rightarrow> ('k world, int) op" where
  "runtime_init os =
     oseq (oupd (\<lambda>w. w\<lparr>glob := (glob w)\<lparr>sched_idle := [], sched_with_stack := [], bitmap_sched := (\<lambda>_. 0),
       next_sched_id := MAX_PROCS, p_idle := [], bitmap_ut := (\<lambda>_. 0), next_ut_id := 0\<rparr>\<rparr>))
     (obind (runtime_init_loop os 0 MAX_PROCS) (\<lambda>ok.
      if \<not> ok then oget errno
      else
       obind (oget (\<lambda>w. first_of (sched_idle (glob w)))) (\<lambda>fs.
       oseq (oupd (\<lambda>w. w\<lparr>glob := (glob w)\<lparr>sched_idle := remove1 fs (sched_idle (glob w))\<rparr>\<rparr>))
       (oseq (s_upd fs (\<lambda>s. s\<lparr>sched_status := BIT SCHED_ST_RUNNING\<rparr>))
       (obind (oget (\<lambda>w. first_of (p_idle (glob w)))) (\<lambda>fp.
        oseq (s_upd fs (\<lambda>s. s\<lparr>sched_p := fp\<rparr>))
       (oseq (oupd (\<lambda>w. w\<lparr>glob := (glob w)\<lparr>p_idle := remove1 fp (p_idle (glob w))\<rparr>\<rparr>))
       (oseq (p_upd fp (\<lambda>q. q\<lparr>p_status := BIT P_ST_RUNNING\<rparr>))
       (oseq (p_upd fp (\<lambda>q. q\<lparr>p_sched := fs\<rparr>))
       (obind (sys (os_epoll_create os)) (\<lambda>fd.
        oseq (p_upd fp (\<lambda>q. q\<lparr>poller_fd := fd\<rparr>))
       (oseq (oupd (\<lambda>w. w\<lparr>tsd := fs\<rparr>))
       (obind (sys (os_pthread_create os)) (\<lambda>_.
        oseq (oupd (\<lambda>w. w\<lparr>wheel := create_timewheel (wheel w)\<rparr>))
       (oret 0)))))))))))))))"

text \<open>The uthread of \<^verbatim>\<open>main\<close>; the switch makes the code after the call run as that uthread.\<close>

definition main_enter :: "'k os \<Rightarrow> ('k world, ptr) op" where
  "main_enter os =
     obind sched_get (\<lambda>s.
     obind (calloc_uthread os) (\<lambda>ut.
     if ut = NULL then oret NULL
     else
       oseq (set_bitmap_ut 0 1)
       (oseq (oupd (\<lambda>w. w\<lparr>glob := (glob w)\<lparr>next_ut_id := next_ut_id (glob w) + 1\<rparr>\<rparr>))
       (obind (s_get s) (\<lambda>sc.
        oseq (ut_upd ut (\<lambda>u. u\<lparr>is_main := 1, ut_id := 0, status := BIT UT_ST_READY, ut_joined := NULL,
          ut_p := sched_p sc, fd_wait := -1, is_wating_yield_signal := 1\<rparr>))
       (oseq (p_upd (sched_p sc) (\<lambda>q. q\<lparr>ready := ready q @ [ut]\<rparr>))
       (oseq (count_uthread 1)
       (oret ut))))))))"

definition uthread_create_main :: "'k os \<Rightarrow> ('k world, int) co" where
  "uthread_create_main os =
     cbind (lift (main_enter os)) (\<lambda>ut.
     if ut = NULL then lift (oget errno)
     else cseq (switch_out ut) (cret 0))"

subsection \<open>Creating a uthread\<close>

text \<open>
  The loop that moves \<^verbatim>\<open>next_ut_id\<close> on.  Its condition compares the new value with 1; it does not
  look at the bitmap.
\<close>

function bump_id :: "nat \<Rightarrow> nat" where
  "bump_id n = (let n' = (n + 1) mod MAX_COUNT_UTHREAD in if n' = 1 then bump_id n' else n')"
  by auto

termination
proof (relation "measure (\<lambda>n. if (n + 1) mod MAX_COUNT_UTHREAD = 1 then 1 else 0)")
  fix n x
  assume "x = (n + 1) mod MAX_COUNT_UTHREAD" "x = 1"
  have "(n + 1) mod MAX_COUNT_UTHREAD = 1" using \<open>x = (n + 1) mod MAX_COUNT_UTHREAD\<close> \<open>x = 1\<close> by metis
  moreover have "(x + 1) mod MAX_COUNT_UTHREAD \<noteq> 1"
    unfolding \<open>x = 1\<close> by (simp add: MAX_COUNT_UTHREAD_def)
  ultimately show "(x, n) \<in> measure (\<lambda>n. if (n + 1) mod MAX_COUNT_UTHREAD = 1 then 1 else 0)"
    by simp
qed simp

text \<open>
  The part of \<^verbatim>\<open>uthread_create\<close> that creates the uthread asked for: its result and the pointer stored
  through \<^verbatim>\<open>new_ut\<close> (null when it is not written).  When the stack cannot be allocated the structure
  is freed, but \<^verbatim>\<open>n_uthread\<close> and the bitmap keep the changes.
\<close>

definition create_ut :: "'k os \<Rightarrow> ptr \<Rightarrow> ptr \<Rightarrow> ptr \<Rightarrow> ('k world, int \<times> ptr) op" where
  "create_ut os s f a =
     obind (calloc_uthread os) (\<lambda>ut.
     if ut = NULL then oret (-1, NULL)
     else
       oseq (count_uthread 1)
       (obind (oget (\<lambda>w. next_ut_id (glob w))) (\<lambda>i.
        oseq (ut_upd ut (\<lambda>u. u\<lparr>ut_id := i\<rparr>))
       (oseq (set_bitmap_ut i 1)
       (oseq (oupd (\<lambda>w. w\<lparr>glob := (glob w)\<lparr>next_ut_id := bump_id (next_ut_id (glob w))\<rparr>\<rparr>))
       (obind (sys (os_memalign os)) (\<lambda>(r, stk).
        if r \<noteq> 0 then oseq (free_uthread ut) (oret (-1, NULL))
        else
         oseq (oupd (\<lambda>w. w\<lparr>blocks := (blocks w)(stk \<mapsto> STACK_SIZE)\<rparr>))
         (obind (s_get s) (\<lambda>sc.
          oseq (ut_upd ut (\<lambda>u. u\<lparr>stack := stk, stack_size := STACK_SIZE, status := BIT UT_ST_NEW,
            func := f, arg := a, is_main := 0, wakeup_time_usec := 0, ut_joined := NULL,
            ut_p := sched_p sc, fd_wait := -1, is_wating_yield_signal := 1\<rparr>))
         (oseq (p_upd (sched_p sc) (\<lambda>q. q\<lparr>ready := ready q @ [ut]\<rparr>))
         (oret (0, ut))))))))))))"

text \<open>\<^verbatim>\<open>sched\<close> is read before a possible switch and used after it.\<close>

definition uthread_create :: "'k os \<Rightarrow> ptr \<Rightarrow> ptr \<Rightarrow> ('k world, int \<times> ptr) co" where
  "uthread_create os f a =
     cbind (lift sched_get) (\<lambda>s.
     if s = NULL then
       cbind (lift (oseq (runtime_init os) sched_get)) (\<lambda>s.
       if s = NULL then cret (-1, NULL)
       else cseq (uthread_create_main os) (lift (create_ut os s f a)))
     else lift (create_ut os s f a))"

subsection \<open>Running a uthread\<close>

text \<open>
  \<^verbatim>\<open>_uthread_exec\<close>; \<open>prog\<close> gives the code behind a function pointer.  Nothing is on the stack to
  return to: the switch back that would let the last yield return jumps to address 0.
\<close>

definition uthread_exec :: "(ptr \<Rightarrow> ptr \<Rightarrow> ('k world, unit) co) \<Rightarrow> ptr \<Rightarrow> ('k world, unit) co" where
  "uthread_exec prog ut =
     cbind (lift (ut_get ut)) (\<lambda>u.
     cseq (prog (func u) (arg u))
     (cseq (lift (ut_upd ut (\<lambda>u. u\<lparr>status := status u OR BIT UT_ST_EXITED\<rparr>)))
     (cseq uthread_yield
     (cfail NullDeref))))"

definition uthread_init :: "ptr \<Rightarrow> ('k world, unit) op" where
  "uthread_init ut = ut_upd ut (\<lambda>u. u\<lparr>status := BIT UT_ST_READY\<rparr>)"

text \<open>The state of the whole machine: the world and the continuations of the uthreads.\<close>

type_synonym 'k machine = "'k world \<times> (ptr \<rightharpoonup> ('k world, unit) co)"

definition on_world :: "('k world, 'a) op \<Rightarrow> ('k machine, 'a) op" where
  "on_world m s = (case m (fst s) of Inl e \<Rightarrow> Inl e | Inr (a, w) \<Rightarrow> Inr (a, w, snd s))"

text \<open>
  \<^verbatim>\<open>_switch(&ut->ctx, &sched->ctx)\<close> on the scheduler's side: the uthread runs until it switches
  back; its registers are saved in the \<^verbatim>\<open>ctx\<close> of the uthread it names.
\<close>

definition switch_to :: "ptr \<Rightarrow> ('k machine, unit) op" where
  "switch_to ut s =
     (case snd s ut of
        None \<Rightarrow> Inl BadAccess
      | Some c \<Rightarrow>
          (case c (fst s) of
             Ret _ _ \<Rightarrow> Inl NullDeref
           | Fail e \<Rightarrow> Inl e
           | Susp u w c' \<Rightarrow> Inr ((), w, (snd s)(u \<mapsto> c'))))"

text \<open>\<^verbatim>\<open>_uthread_resume\<close> before the switch.\<close>

definition resume_enter ::
  "'k os \<Rightarrow> (ptr \<Rightarrow> ptr \<Rightarrow> ('k world, unit) co) \<Rightarrow> ptr \<Rightarrow> ptr \<Rightarrow> ('k machine, unit) op" where
  "resume_enter os prog s ut =
     obind (on_world (ut_get ut)) (\<lambda>u.
     oseq (owhen (has (status u) UT_ST_NEW)
       (oseq (on_world (uthread_init ut)) (oupd (\<lambda>(w, k). (w, k(ut \<mapsto> uthread_exec prog ut))))))
     (on_world
       (oseq (s_upd s (\<lambda>sc. sc\<lparr>cur_uthread := ut\<rparr>))
       (oseq (ut_upd ut (\<lambda>u. u\<lparr>is_wating_yield_signal := 1\<rparr>))
       (obind (sys (os_malloc os)) (\<lambda>node.
        \<lambda>w. bnd (add_timer 1 ut node (wheel w)) (\<lambda>wh. Inr ((), w\<lparr>wheel := wh\<rparr>))))))))"

text \<open>
  \<^verbatim>\<open>_uthread_resume\<close> after the switch.  The test of \<^verbatim>\<open>UT_ST_DETACHED\<close> and the \<^verbatim>\<open>id\<close> are read from the
  uthread that has just been freed.
\<close>

definition wake_joiner :: "ptr \<Rightarrow> ('k world, unit) op" where
  "wake_joiner j =
     oseq (uthread_desched_sleep j)
     (obind (ut_get j) (\<lambda>u. p_upd (ut_p u) (\<lambda>q. q\<lparr>ready := ready q @ [j]\<rparr>)))"

definition resume_leave :: "'k os \<Rightarrow> ptr \<Rightarrow> ptr \<Rightarrow> ('k world, int) op" where
  "resume_leave os s ut =
     oseq (s_upd s (\<lambda>sc. sc\<lparr>cur_uthread := NULL\<rparr>))
     (obind (ut_get ut) (\<lambda>u.
      if has (status u) UT_ST_EXITED then
        oseq (owhen (ut_joined u \<noteq> NULL) (wake_joiner (ut_joined u)))
        (oseq (if is_main u \<noteq> 0 then uthread_free_main ut else uthread_free ut)
        (obind (ut_get_stale os ut) (\<lambda>u.
         oseq (owhen (has (status u) UT_ST_DETACHED) (set_bitmap_ut (ut_id u) 0))
        (oret 0))))
      else if has (status u) UT_ST_SLEEPING then oret 0
      else obind (s_get s) (\<lambda>sc.
        oseq (p_upd (sched_p sc) (\<lambda>q. q\<lparr>ready := ready q @ [ut]\<rparr>))
        (oret 0))))"

definition uthread_resume ::
  "'k os \<Rightarrow> (ptr \<Rightarrow> ptr \<Rightarrow> ('k world, unit) co) \<Rightarrow> ptr \<Rightarrow> ('k machine, int) op" where
  "uthread_resume os prog ut =
     obind (on_world sched_get) (\<lambda>s.
     oseq (resume_enter os prog s ut)
     (oseq (switch_to ut)
     (on_world (resume_leave os s ut))))"

subsection \<open>Ending and joining\<close>

definition current_ut :: "('k world, ptr) op" where
  "current_ut = obind sched_get (\<lambda>s. obind (s_get s) (\<lambda>sc. oret (cur_uthread sc)))"

definition main_end :: "('k world, unit) co" where
  "main_end =
     cseq (lift (obind current_ut (\<lambda>ut. ut_upd ut (\<lambda>u. u\<lparr>status := status u OR BIT UT_ST_EXITED\<rparr>))))
     uthread_yield"

text \<open>\<^verbatim>\<open>uthread_self\<close>: \<open>None\<close> stands for \<^verbatim>\<open>-1\<close>.\<close>

definition uthread_self :: "('k world, ptr option) op" where
  "uthread_self =
     obind sched_get (\<lambda>s.
     if s = NULL then oret None
     else obind (s_get s) (\<lambda>sc. oret (Some (cur_uthread sc))))"

definition exit_enter :: "ptr \<Rightarrow> ('k world, unit) op" where
  "exit_enter rv =
     obind current_ut (\<lambda>ut.
     oseq (ut_upd ut (\<lambda>u. u\<lparr>status := status u OR BIT UT_ST_EXITED\<rparr>))
     (obind (ut_get ut) (\<lambda>u.
     owhen (rv \<noteq> NULL \<and> ut_joined u \<noteq> NULL \<and> retval u \<noteq> NULL)
       (\<lambda>w. if retval u \<in> dom (words w)
            then Inr ((), w\<lparr>words := (words w)(retval u \<mapsto> rv)\<rparr>) else Inl BadAccess))))"

definition uthread_exit :: "ptr \<Rightarrow> ('k world, unit) co" where
  "uthread_exit rv = cseq (lift (exit_enter rv)) uthread_yield"

definition uthread_detach :: "ptr \<Rightarrow> ('k world, int) op" where
  "uthread_detach ut =
     oseq (ut_upd ut (\<lambda>u. u\<lparr>status := status u OR BIT UT_ST_DETACHED\<rparr>)) (oret 0)"

text \<open>
  The tests of \<^verbatim>\<open>uthread_join\<close>: \<open>Some r\<close> when it returns \<open>r\<close> at once.  A pointer to a uthread that
  has exited is dangling: it was freed when the scheduler saw its exit.
\<close>

definition join_tests :: "'k os \<Rightarrow> ptr \<Rightarrow> ptr \<Rightarrow> ('k world, int option) op" where
  "join_tests os cur ut =
     (if ut = cur then oseq (oupd (\<lambda>w. w\<lparr>errno := EDEADLK\<rparr>)) (oret (Some (-1)))
      else obind (ut_get_stale os ut) (\<lambda>u.
        if has (status u) UT_ST_DETACHED \<or> ut_joined u \<noteq> NULL
        then oseq (oupd (\<lambda>w. w\<lparr>errno := EINVAL\<rparr>)) (oret (Some (-1)))
        else if has (status u) UT_ST_EXITED
        then oseq (set_bitmap_ut (ut_id u) 1) (oret (Some 0))
        else oret None))"

definition join_leave :: "'k os \<Rightarrow> ptr \<Rightarrow> ptr \<Rightarrow> ptr \<Rightarrow> ('k world, int) op" where
  "join_leave os cur ut rv =
     obind (ut_get cur) (\<lambda>c.
     if has (status c) UT_ST_EXPIRED
     then oseq (ut_upd ut (\<lambda>u. u\<lparr>ut_joined := NULL\<rparr>))
       (oseq (ut_upd ut (\<lambda>u. u\<lparr>retval := rv\<rparr>))
       (oret 1))
     else obind (ut_get_stale os ut) (\<lambda>u. oseq (set_bitmap_ut (ut_id u) 0) (oret 0)))"

definition uthread_join :: "'k os \<Rightarrow> ptr \<Rightarrow> ptr \<Rightarrow> ('k world, int) co" where
  "uthread_join os ut rv =
     cbind (lift current_ut) (\<lambda>cur.
     cbind (lift (join_tests os cur ut)) (\<lambda>r.
     case r of
       Some v \<Rightarrow> cret v
     | None \<Rightarrow>
         cseq (lift (oseq (ut_upd ut (\<lambda>u. u\<lparr>ut_joined := cur\<rparr>)) (ut_upd ut (\<lambda>u. u\<lparr>retval := rv\<rparr>))))
         (cseq (uthread_sched_sleep os cur 10000)
         (lift (join_leave os cur ut rv)))))"

subsection \<open>Disk operations\<close>

text \<open>
  The common part of \<^verbatim>\<open>pthread_disk_read\<close> and \<^verbatim>\<open>pthread_disk_write\<close>: when other uthreads are ready, the
  \<^verbatim>\<open>struct p\<close> is handed to an idle scheduler, for which a thread is started.
\<close>

definition hand_over :: "'k os \<Rightarrow> ('k world, unit) op" where
  "hand_over os =
     obind sched_get (\<lambda>cs.
     obind (s_get cs) (\<lambda>sc.
     oseq (ut_upd (cur_uthread sc) (\<lambda>u. u\<lparr>is_wating_yield_signal := 0\<rparr>))
     (if sched_p sc = NULL then oret ()
      else obind (p_get (sched_p sc)) (\<lambda>q.
        if ready q = [] then oret ()
        else
          obind (oget (\<lambda>w. first_of (sched_idle (glob w)))) (\<lambda>ns.
          obind (s_get ns) (\<lambda>_.
          oseq (oupd (\<lambda>w. w\<lparr>glob := (glob w)\<lparr>sched_idle := remove1 ns (sched_idle (glob w))\<rparr>\<rparr>))
          (oseq (s_upd ns (\<lambda>s. s\<lparr>sched_p := sched_p sc\<rparr>))
          (oseq (p_upd (sched_p sc) (\<lambda>q. q\<lparr>p_sched := ns\<rparr>))
          (oseq (s_upd cs (\<lambda>s. s\<lparr>sched_p := NULL\<rparr>))
          (obind (sys (os_pthread_create os)) (\<lambda>r.
           oseq (oassert (r = 0))
          (oupd (\<lambda>w. w\<lparr>spawned := spawned w @ [ns]\<rparr>)))))))))))))"

definition pthread_disk_read :: "'k os \<Rightarrow> int \<Rightarrow> nat \<Rightarrow> ('k world, int) op" where
  "pthread_disk_read os fd nbytes =
     oseq (hand_over os) (libc os (SysRead fd 0 nbytes))"

definition pthread_disk_write :: "'k os \<Rightarrow> int \<Rightarrow> nat \<Rightarrow> ('k world, int) op" where
  "pthread_disk_write os fd nbytes =
     oseq (hand_over os) (libc os (SysWrite fd 0 nbytes))"

end
