(* ===== verification/Ut_Place.thy ===== *)
theory Ut_Place
  imports Ut_Block Ut_Uthread
begin

text \<open>
  How a uthread moves between its places: created, put into a ready queue, taken out of it, freed;
  and the changes that the invariant does not notice.
\<close>

lemma core_fields:
  assumes "core R W w" "uts w' = uts w" "ps w' = ps w" "sleep_mem w' = sleep_mem w" "wait_mem w' = wait_mem w"
  shows "core R W w'"
  using assms unfolding core_def by simp

text \<open>A change of a uthread that keeps its \<^verbatim>\<open>p\<close>, its keys and whether it sleeps.\<close>

definition like :: "uthread \<Rightarrow> uthread \<Rightarrow> bool" where
  "like u u' \<longleftrightarrow> ut_p u' = ut_p u \<and> wakeup_time_usec u' = wakeup_time_usec u \<and> fd_wait u' = fd_wait u \<and>
     (bit (status u') UT_ST_SLEEPING \<longleftrightarrow> bit (status u) UT_ST_SLEEPING)"

lemma like_upd:
  assumes "U a = Some u" "like u u'"
  shows "dom (U(a \<mapsto> u')) = dom U" "of_p (U(a \<mapsto> u')) = of_p U" "skey (U(a \<mapsto> u')) = skey U"
    "wkey (U(a \<mapsto> u')) = wkey U" "asleep (U(a \<mapsto> u')) = asleep U" "waiters (U(a \<mapsto> u')) = waiters U"
  using assms upd_keeps [of U a u u'] by (auto simp: like_def asleep_def waiters_def)

lemma core_like:
  assumes c: "core R W w" and u: "uts w a = Some u" "like u u'"
  shows "core R W (w\<lparr>uts := (uts w)(a \<mapsto> u')\<rparr>)"
proof -
  note upd = like_upd [where U = "uts w" and a = a and u = u and u' = u', OF u]
  have p: "ut_p u' = ut_p u" using u(2) by (simp add: like_def)
  have "p_ok ((uts w)(a \<mapsto> u')) R W sm wm p q = p_ok (uts w) R W sm wm p q" for sm wm p q
    by (simp add: p_ok_def upd)
  then show ?thesis
    using core_parts [OF c] u(1) p unfolding core_def by (auto simp: upd)
qed

lemma core_p_like:
  assumes c: "core R W w" and q: "ps w p = Some q"
    "ready q' = ready q" "sleeping q' = sleeping q" "waiting q' = waiting q"
  shows "core R W (w\<lparr>ps := (ps w)(p \<mapsto> q')\<rparr>)"
  using core_parts [OF c] q unfolding core_def by (auto simp: p_ok_def)

text \<open>Queueing and dequeueing.\<close>

lemma core_ready:
  assumes c: "core (insert a R) W w" and a: "a \<notin> R" "uts w a = Some u" "ps w (ut_p u) = Some q"
  shows "core R W (w\<lparr>ps := (ps w)(ut_p u \<mapsto> q\<lparr>ready := ready q @ [a]\<rparr>)\<rparr>)"
proof -
  note parts = core_parts [OF c]
  have aa: "a \<in> of_p (uts w) (ut_p u)" "a \<notin> asleep (uts w)" using coreD(3) [OF c a(2)] parts(6) by auto
  have p: "p_ok (uts w) R W (sleep_mem w) (wait_mem w) (ut_p u) (q\<lparr>ready := ready q @ [a]\<rparr>)"
    using parts(9) [OF a(3)] aa a(1) by (auto simp: p_ok_def)
  have other: "p_ok (uts w) R W (sleep_mem w) (wait_mem w) p' q'" if "ps w p' = Some q'" "p' \<noteq> ut_p u" for p' q'
  proof -
    have "a \<notin> of_p (uts w) p'" using that(2) a(2) by (auto simp: of_p_def)
    then show ?thesis using parts(9) [OF that(1)] by (auto simp: p_ok_def)
  qed
  show ?thesis using parts a p other unfolding core_def by auto
qed

lemma core_take:
  assumes c: "core R W w" and a: "ps w p = Some q" "a \<in> set (ready q)"
  shows "core (insert a R) W (w\<lparr>ps := (ps w)(p \<mapsto> q\<lparr>ready := remove1 a (ready q)\<rparr>)\<rparr>)"
    "\<exists>u. uts w a = Some u \<and> ut_p u = p" "a \<notin> R" "a \<notin> asleep (uts w)"
proof -
  note parts = core_parts [OF c]
  note qok = parts(9) [OF a(1)]
  have aa: "a \<in> of_p (uts w) p" "a \<notin> asleep (uts w)" "a \<notin> R" using qok a(2) by (auto simp: p_ok_def)
  then show u: "\<exists>u. uts w a = Some u \<and> ut_p u = p" "a \<notin> R" "a \<notin> asleep (uts w)" by (auto simp: of_p_def)
  have p: "p_ok (uts w) (insert a R) W (sleep_mem w) (wait_mem w) p (q\<lparr>ready := remove1 a (ready q)\<rparr>)"
    using qok by (auto simp: p_ok_def)
  have other: "p_ok (uts w) (insert a R) W (sleep_mem w) (wait_mem w) p' q'" if "ps w p' = Some q'" "p' \<noteq> p" for p' q'
  proof -
    have "a \<notin> of_p (uts w) p'" using that(2) u(1) by (auto simp: of_p_def)
    then show ?thesis using parts(9) [OF that(1)] by (auto simp: p_ok_def)
  qed
  show "core (insert a R) W (w\<lparr>ps := (ps w)(p \<mapsto> q\<lparr>ready := remove1 a (ready q)\<rparr>)\<rparr>)"
    using parts a(1) aa u(1) p other unfolding core_def by auto
qed

text \<open>Creating and freeing.\<close>

lemma core_new:
  assumes c: "core R W w" and a: "a \<noteq> NULL" "uts w a = None"
    and u: "ut_p u \<in> dom (ps w)" "\<not> bit (status u) UT_ST_SLEEPING"
  shows "core (insert a R) W (w\<lparr>uts := (uts w)(a \<mapsto> u), sleep_mem := (sleep_mem w)(a \<mapsto> e),
    wait_mem := (wait_mem w)(a \<mapsto> e')\<rparr>)"
proof -
  note parts = core_parts [OF c]
  let ?U = "(uts w)(a \<mapsto> u)"
  have as: "asleep ?U = asleep (uts w)" "a \<notin> asleep (uts w)" using a u(2) by (auto simp: asleep_def)
  have "p_ok ?U (insert a R) W ((sleep_mem w)(a \<mapsto> e)) ((wait_mem w)(a \<mapsto> e')) p q"
    if pq: "ps w p = Some q" for p q
  proof -
    have of_p: "of_p ?U p - {a} = of_p (uts w) p" "a \<notin> of_p (uts w) p" using a by (auto simp: of_p_def)
    have aW: "a \<notin> asleep (uts w)" "a \<notin> W" using a(2) parts(7) by (auto simp: asleep_def)
    obtain xs ys where t: "rbtree (skey (uts w)) (sleep_mem w) (sleeping q) xs"
      "set xs = of_p (uts w) p \<inter> asleep (uts w)" "rbtree (wkey (uts w)) (wait_mem w) (waiting q) ys"
      "set ys = of_p (uts w) p \<inter> W"
      using parts(9) [OF pq] by (auto simp: p_ok_def)
    have na: "a \<notin> set xs" "a \<notin> set ys" using t(2,4) of_p(2) by auto
    have "rbtree (skey ?U) ((sleep_mem w)(a \<mapsto> e)) (sleeping q) xs"
      by (rule rbtree_rekey [OF rbtree_cong [OF t(1)]]) (use na in \<open>auto simp: skey_def\<close>)
    moreover have "rbtree (wkey ?U) ((wait_mem w)(a \<mapsto> e')) (waiting q) ys"
      by (rule rbtree_rekey [OF rbtree_cong [OF t(3)]]) (use na in \<open>auto simp: wkey_def\<close>)
    moreover have "of_p ?U p \<inter> asleep (uts w) = set xs" "of_p ?U p \<inter> W = set ys"
      "of_p ?U p - asleep (uts w) - insert a R = of_p (uts w) p - asleep (uts w) - R"
      using t(2,4) of_p aW by auto
    ultimately show ?thesis using parts(9) [OF pq] unfolding p_ok_def as(1) by auto
  qed
  then show ?thesis using parts a u as unfolding core_def by auto
qed

lemma core_free:
  assumes c: "core (insert a R) W w" and a: "a \<notin> R" "a \<notin> W"
  shows "core R W (w\<lparr>uts := (uts w)(a := None), sleep_mem := (sleep_mem w)(a := None),
    wait_mem := (wait_mem w)(a := None), dead := d\<rparr>)"
proof -
  note parts = core_parts [OF c]
  let ?U = "(uts w)(a := None)"
  have na: "a \<notin> asleep (uts w)" using parts(6) by auto
  then have as: "asleep ?U = asleep (uts w)" by (auto simp: asleep_def)
  have "p_ok ?U R W ((sleep_mem w)(a := None)) ((wait_mem w)(a := None)) p q"
    if pq: "ps w p = Some q" for p q
  proof -
    have of_p: "of_p ?U p = of_p (uts w) p - {a}" by (auto simp: of_p_def)
    obtain xs ys where t: "rbtree (skey (uts w)) (sleep_mem w) (sleeping q) xs"
      "set xs = of_p (uts w) p \<inter> asleep (uts w)" "rbtree (wkey (uts w)) (wait_mem w) (waiting q) ys"
      "set ys = of_p (uts w) p \<inter> W"
      using parts(9) [OF pq] by (auto simp: p_ok_def)
    have nn: "a \<notin> set xs" "a \<notin> set ys" using t(2,4) na a(2) by auto
    have "rbtree (skey ?U) ((sleep_mem w)(a := None)) (sleeping q) xs"
      by (rule rbtree_rekey [OF rbtree_cong [OF t(1)]]) (use nn in \<open>auto simp: skey_def\<close>)
    moreover have "rbtree (wkey ?U) ((wait_mem w)(a := None)) (waiting q) ys"
      by (rule rbtree_rekey [OF rbtree_cong [OF t(3)]]) (use nn in \<open>auto simp: wkey_def\<close>)
    moreover have "of_p ?U p \<inter> asleep (uts w) = set xs" "of_p ?U p \<inter> W = set ys"
      "of_p ?U p - asleep (uts w) - R = of_p (uts w) p - asleep (uts w) - insert a R"
      using t(2,4) of_p na a by auto
    ultimately show ?thesis using parts(9) [OF pq] unfolding p_ok_def as by auto
  qed
  then show ?thesis using parts a as unfolding core_def by auto
qed

end
