(* ===== verification/Ut_Resume.thy ===== *)
theory Ut_Resume
  imports Ut_Place
begin

text \<open>
  \<^verbatim>\<open>_uthread_resume\<close>: what it does before the switch to the uthread and what it does after the switch
  back, in the three cases of a uthread that exits, that sleeps, and that merely yields.
\<close>

lemma on_world_run [op_simps]:
  "m w = Inr (a, w') \<Longrightarrow> obind (on_world m) f (w, k) = f a (w', k)"
  "m w = Inr (a, w') \<Longrightarrow> oseq (on_world m) g (w, k) = g (w', k)"
  "m w = Inr (a, w') \<Longrightarrow> on_world m (w, k) = Inr (a, w', k)"
  "m w = Inl e \<Longrightarrow> obind (on_world m) f (w, k) = Inl e"
  "m w = Inl e \<Longrightarrow> oseq (on_world m) g (w, k) = Inl e"
  "m w = Inl e \<Longrightarrow> on_world m (w, k) = Inl e"
  by (simp_all add: on_world_def obind_def oseq_def)

lemma get_run [op_simps]:
  "a \<noteq> NULL \<Longrightarrow> uts w a = Some u \<Longrightarrow> ut_get a w = Inr (u, w)"
  "a \<noteq> NULL \<Longrightarrow> ps w a = Some q \<Longrightarrow> p_get a w = Inr (q, w)"
  "a \<noteq> NULL \<Longrightarrow> scheds w a = Some sc \<Longrightarrow> s_get a w = Inr (sc, w)"
  "sched_get w = Inr (tsd w, w)"
  by (simp_all add: ut_get_def p_get_def s_get_def sched_get_def oget_def)

subsection \<open>Before the switch\<close>

definition started :: "uthread \<Rightarrow> uthread" where
  "started u = u\<lparr>status := (if bit (status u) UT_ST_NEW then BIT UT_ST_READY else status u),
     is_wating_yield_signal := 1\<rparr>"

lemma like_started: "\<not> bit (status u) UT_ST_SLEEPING \<Longrightarrow> like u (started u)"
  by (auto simp: like_def started_def)

lemma resume_enter_core:
  assumes c: "core R W w" and ut: "ut \<in> R" "uts w ut = Some u"
    and s: "s \<noteq> NULL" "scheds w s = Some sc"
    and m: "os_malloc os (kern w) = (n, kn)" "add_timer 1 ut n (wheel w) = Inr wh"
  shows "\<exists>w' k'. resume_enter os prog s ut (w, k) = Inr ((), w', k') \<and> core R W w' \<and>
    uts w' = (uts w)(ut \<mapsto> started u) \<and> scheds w' = (scheds w)(s \<mapsto> sc\<lparr>cur_uthread := ut\<rparr>) \<and>
    ps w' = ps w \<and> tsd w' = tsd w \<and> glob w' = glob w \<and> blocks w' = blocks w \<and>
    w' = w\<lparr>uts := (uts w)(ut \<mapsto> started u), scheds := (scheds w)(s \<mapsto> sc\<lparr>cur_uthread := ut\<rparr>), kern := kn, wheel := wh\<rparr> \<and>
    k' = (if bit (status u) UT_ST_NEW then k(ut \<mapsto> uthread_exec prog ut) else k)"
proof -
  have ut0: "ut \<noteq> NULL" by (rule coreD(1) [OF c ut(2)])
  have "\<not> bit (status u) UT_ST_SLEEPING" using core_parts(6) [OF c] ut by (auto simp: asleep_def)
  note like = like_started [OF this]
  let ?w = "w\<lparr>uts := (uts w)(ut \<mapsto> started u), scheds := (scheds w)(s \<mapsto> sc\<lparr>cur_uthread := ut\<rparr>),
    kern := kn, wheel := wh\<rparr>"
  have run: "resume_enter os prog s ut (w, k) =
    Inr ((), ?w, if bit (status u) UT_ST_NEW then k(ut \<mapsto> uthread_exec prog ut) else k)"
    using ut0 ut(2) s m
    by (cases "bit (status u) UT_ST_NEW")
      (simp_all add: resume_enter_def uthread_init_def started_def op_simps)
  have "core R W ?w" by (rule core_fields [OF core_like [OF c ut(2) like]]) simp_all
  with run show ?thesis by fastforce
qed

subsection \<open>After the switch\<close>

text \<open>The uthread has yielded: it goes to the end of the ready queue.\<close>

lemma resume_leave_yield:
  assumes c: "core (insert ut R) W w" and ut: "ut \<notin> R" "uts w ut = Some u"
    and s: "s \<noteq> NULL" "scheds w s = Some sc" "sched_p sc = ut_p u"
    and st: "\<not> bit (status u) UT_ST_EXITED"
  shows "\<exists>q w'. ps w (ut_p u) = Some q \<and> resume_leave os s ut w = Inr (0, w') \<and> core R W w' \<and>
    ps w' = (ps w)(ut_p u \<mapsto> q\<lparr>ready := ready q @ [ut]\<rparr>) \<and> uts w' = uts w \<and> glob w' = glob w \<and>
    scheds w' = (scheds w)(s \<mapsto> sc\<lparr>cur_uthread := NULL\<rparr>) \<and>
    w' = w\<lparr>scheds := (scheds w)(s \<mapsto> sc\<lparr>cur_uthread := NULL\<rparr>), ps := (ps w)(ut_p u \<mapsto> q\<lparr>ready := ready q @ [ut]\<rparr>)\<rparr>"
proof -
  have ut0: "ut \<noteq> NULL" by (rule coreD(1) [OF c ut(2)])
  obtain q where q: "ut_p u \<noteq> NULL" "ps w (ut_p u) = Some q" using coreD(2) [OF c ut(2)] by blast
  have nsl: "\<not> bit (status u) UT_ST_SLEEPING" using core_parts(6) [OF c] ut by (auto simp: asleep_def)
  let ?w = "w\<lparr>scheds := (scheds w)(s \<mapsto> sc\<lparr>cur_uthread := NULL\<rparr>),
    ps := (ps w)(ut_p u \<mapsto> q\<lparr>ready := ready q @ [ut]\<rparr>)\<rparr>"
  have "resume_leave os s ut w = Inr (0, ?w)"
    using ut0 ut(2) s q st nsl by (simp add: resume_leave_def op_simps)
  moreover have "core R W ?w" by (rule core_fields [OF core_ready [OF c ut q(2)]]) simp_all
  ultimately show ?thesis using q(2) by fastforce
qed

text \<open>The uthread sleeps: it stays in the trees and in no queue.\<close>

lemma resume_leave_sleep:
  assumes c: "core R W w" and ut: "uts w ut = Some u" "bit (status u) UT_ST_SLEEPING"
    and s: "s \<noteq> NULL" "scheds w s = Some sc" and st: "\<not> bit (status u) UT_ST_EXITED"
  shows "\<exists>w'. resume_leave os s ut w = Inr (0, w') \<and> core R W w' \<and>
    ps w' = ps w \<and> uts w' = uts w \<and> glob w' = glob w \<and> scheds w' = (scheds w)(s \<mapsto> sc\<lparr>cur_uthread := NULL\<rparr>)"
proof -
  have ut0: "ut \<noteq> NULL" by (rule coreD(1) [OF c ut(1)])
  let ?w = "w\<lparr>scheds := (scheds w)(s \<mapsto> sc\<lparr>cur_uthread := NULL\<rparr>)\<rparr>"
  have "resume_leave os s ut w = Inr (0, ?w)"
    using ut0 ut s st by (simp add: resume_leave_def op_simps)
  moreover have "core R W ?w" by (rule core_fields [OF c]) simp_all
  ultimately show ?thesis by fastforce
qed

text \<open>The joiner of an exiting uthread is woken: it leaves the sleeping tree and becomes ready.\<close>

lemma wake_joiner_core:
  assumes c: "core R W w" and j: "uts w j = Some v" "bit (status v) UT_ST_SLEEPING" "j \<notin> R"
  shows "\<exists>q w'. ps w (ut_p v) = Some q \<and> wake_joiner j w = Inr ((), w') \<and> core R W w' \<and>
    uts w' = (uts w)(j \<mapsto> woken v) \<and> glob w' = glob w \<and> scheds w' = scheds w \<and> blocks w' = blocks w \<and>
    (\<exists>q'. ps w' = (ps w)(ut_p v \<mapsto> q') \<and> ready q' = ready q @ [j])"
proof -
  have j0: "j \<noteq> NULL" by (rule coreD(1) [OF c j(1)])
  obtain q sm root where d: "ps w (ut_p v) = Some q"
    "uthread_desched_sleep j w = Inr ((), w\<lparr>uts := (uts w)(j \<mapsto> woken v), sleep_mem := sm,
      ps := (ps w)(ut_p v \<mapsto> q\<lparr>sleeping := root\<rparr>)\<rparr>)"
    "core (insert j R) W (w\<lparr>uts := (uts w)(j \<mapsto> woken v), sleep_mem := sm,
      ps := (ps w)(ut_p v \<mapsto> q\<lparr>sleeping := root\<rparr>)\<rparr>)"
    using desched_sleep_asleep [OF c j(1,2)] by blast
  let ?w1 = "w\<lparr>uts := (uts w)(j \<mapsto> woken v), sleep_mem := sm,
      ps := (ps w)(ut_p v \<mapsto> q\<lparr>sleeping := root\<rparr>)\<rparr>"
  let ?q = "q\<lparr>sleeping := root, ready := ready q @ [j]\<rparr>"
  let ?w = "?w1\<lparr>ps := (ps ?w1)(ut_p v \<mapsto> ?q)\<rparr>"
  have "ut_p v \<noteq> NULL" using coreD(2) [OF c j(1)] by blast
  then have "wake_joiner j w = Inr ((), ?w)"
    using j0 d(2) by (simp add: wake_joiner_def op_simps)
  moreover have "core R W ?w" using core_ready [OF d(3) j(3), of "woken v" "q\<lparr>sleeping := root\<rparr>"] by simp
  ultimately show ?thesis using d(1) by fastforce
qed

text \<open>The joiner as \<^verbatim>\<open>_uthread_resume\<close> finds it: there is none, or it sleeps.\<close>

definition joiner_ok :: "ptr set \<Rightarrow> 'k world \<Rightarrow> ptr \<Rightarrow> bool" where
  "joiner_ok R w j \<longleftrightarrow> j = NULL \<or> j \<notin> R \<and> j \<in> asleep (uts w)"

definition after_wake :: "(ptr \<rightharpoonup> uthread) \<Rightarrow> ptr \<Rightarrow> ptr \<rightharpoonup> uthread" where
  "after_wake U j = (if j = NULL then U else U(j \<mapsto> woken (the (U j))))"

lemma wake_joiner_when:
  assumes c: "core R W w" and j: "joiner_ok R w j"
  shows "\<exists>w'. owhen (j \<noteq> NULL) (wake_joiner j) w = Inr ((), w') \<and> core R W w' \<and>
    uts w' = after_wake (uts w) j \<and> glob w' = glob w \<and> scheds w' = scheds w \<and> blocks w' = blocks w \<and>
    (j \<noteq> NULL \<longrightarrow> (\<exists>v q. uts w j = Some v \<and> ps w' (ut_p v) = Some q \<and> j \<in> set (ready q)))"
proof (cases "j = NULL")
  case True
  with c show ?thesis by (simp add: op_simps after_wake_def)
next
  case False
  then obtain v where v: "uts w j = Some v" "bit (status v) UT_ST_SLEEPING" "j \<notin> R"
    using j by (auto simp: joiner_ok_def asleep_def)
  obtain q :: proc and w' q' where w': "wake_joiner j w = Inr ((), w')" "core R W w'" "uts w' = (uts w)(j \<mapsto> woken v)"
    "glob w' = glob w" "scheds w' = scheds w" "blocks w' = blocks w"
    "ps w' = (ps w)(ut_p v \<mapsto> q')" "ready q' = ready q @ [j]"
    using wake_joiner_core [OF c v] by blast
  have "ps w' (ut_p v) = Some q'" "j \<in> set (ready q')" using w'(7,8) by auto
  with w' v(1) False show ?thesis
    by (simp add: op_simps after_wake_def)
qed

text \<open>What \<^verbatim>\<open>free\<close> needs: the stack of a uthread other than \<^verbatim>\<open>main\<close> is an allocated block.\<close>

definition stack_ok :: "'k world \<Rightarrow> uthread \<Rightarrow> bool" where
  "stack_ok w u \<longleftrightarrow> is_main u \<noteq> 0 \<or> stack u = NULL \<or> stack u \<in> dom (blocks w)"

lemma free_core:
  assumes c: "core (insert ut R) W w" and ut: "ut \<notin> R" "ut \<notin> W" "uts w ut = Some u" and st: "stack_ok w u"
  shows "\<exists>w'. (if is_main u \<noteq> 0 then uthread_free_main ut else uthread_free ut) w = Inr ((), w') \<and> core R W w' \<and>
    uts w' = (uts w)(ut := None) \<and> dead w' = (dead w)(ut \<mapsto> u) \<and> ps w' = ps w \<and> scheds w' = scheds w \<and>
    glob w' = (glob w)\<lparr>n_uthread := n_uthread (glob w) - 1\<rparr>"
proof -
  have ut0: "ut \<noteq> NULL" by (rule coreD(1) [OF c ut(3)])
  let ?w = "\<lambda>b. w\<lparr>uts := (uts w)(ut := None), sleep_mem := (sleep_mem w)(ut := None),
    wait_mem := (wait_mem w)(ut := None), dead := (dead w)(ut \<mapsto> u), blocks := b,
    glob := (glob w)\<lparr>n_uthread := n_uthread (glob w) - 1\<rparr>\<rparr>"
  have core: "core R W (?w b)" for b by (rule core_fields [OF core_free [OF c ut(1,2)]]) simp_all
  obtain b where "(if is_main u \<noteq> 0 then uthread_free_main ut else uthread_free ut) w = Inr ((), ?w b)"
  proof (cases "is_main u \<noteq> 0")
    case True
    then have "uthread_free_main ut w = Inr ((), ?w (blocks w))"
      using ut0 ut(3) by (simp add: uthread_free_main_def free_uthread_def count_uthread_def op_simps)
    with True that [of "blocks w"] show ?thesis by simp
  next
    case False
    let ?b = "if stack u = NULL then blocks w else (blocks w)(stack u := None)"
    have "free_block (stack u) w = Inr ((), w\<lparr>blocks := ?b\<rparr>)"
      using st False by (auto simp: stack_ok_def free_block_def)
    then have "uthread_free ut w = Inr ((), ?w ?b)"
      using ut0 ut(3) by (simp add: uthread_free_def free_uthread_def count_uthread_def op_simps)
    with False that [of ?b] show ?thesis by simp
  qed
  with core [of b] show ?thesis by fastforce
qed

lemma resume_leave_exit:
  assumes c: "core (insert ut R) W w" and ut: "ut \<notin> R" "ut \<notin> W" "uts w ut = Some u"
    and s: "s \<noteq> NULL" "scheds w s = Some sc" and ex: "bit (status u) UT_ST_EXITED"
    and j: "joiner_ok (insert ut R) w (ut_joined u)" and st: "stack_ok w u"
    and af: "bit (status (after_free os u)) UT_ST_DETACHED \<longrightarrow> ut_id (after_free os u) < MAX_COUNT_UTHREAD"
  shows "\<exists>w'. resume_leave os s ut w = Inr (0, w') \<and> core R W w' \<and>
    uts w' = (after_wake (uts w) (ut_joined u))(ut := None) \<and>
    n_uthread (glob w') = n_uthread (glob w) - 1 \<and>
    scheds w' = (scheds w)(s \<mapsto> sc\<lparr>cur_uthread := NULL\<rparr>) \<and>
    (ut_joined u \<noteq> NULL \<longrightarrow>
      (\<exists>v q. uts w (ut_joined u) = Some v \<and> ps w' (ut_p v) = Some q \<and> ut_joined u \<in> set (ready q)))"
proof -
  let ?j = "ut_joined u"
  have ut0: "ut \<noteq> NULL" by (rule coreD(1) [OF c ut(3)])
  let ?w0 = "w\<lparr>scheds := (scheds w)(s \<mapsto> sc\<lparr>cur_uthread := NULL\<rparr>)\<rparr>"
  have c0: "core (insert ut R) W ?w0" by (rule core_fields [OF c]) simp_all
  have "joiner_ok (insert ut R) ?w0 ?j" using j by (simp add: joiner_ok_def)
  from wake_joiner_when [OF c0 this] obtain w1 where w1: "owhen (?j \<noteq> NULL) (wake_joiner ?j) ?w0 = Inr ((), w1)"
    "core (insert ut R) W w1" "uts w1 = after_wake (uts w) ?j" "glob w1 = glob w"
    "scheds w1 = (scheds w)(s \<mapsto> sc\<lparr>cur_uthread := NULL\<rparr>)" "blocks w1 = blocks w"
    "?j \<noteq> NULL \<longrightarrow> (\<exists>v q. uts w ?j = Some v \<and> ps w1 (ut_p v) = Some q \<and> ?j \<in> set (ready q))"
    by auto
  have "?j \<noteq> ut" using j core_parts(6) [OF c] ut0 by (auto simp: joiner_ok_def)
  then have u1: "uts w1 ut = Some u" using w1(3) ut(3) by (simp add: after_wake_def)
  have "stack_ok w1 u" using st w1(6) by (simp add: stack_ok_def)
  from free_core [OF w1(2) ut(1,2) u1 this] obtain w2 where
    w2: "(if is_main u \<noteq> 0 then uthread_free_main ut else uthread_free ut) w1 = Inr ((), w2)" "core R W w2"
      "uts w2 = (uts w1)(ut := None)" "dead w2 = (dead w1)(ut \<mapsto> u)" "ps w2 = ps w1" "scheds w2 = scheds w1"
      "glob w2 = (glob w1)\<lparr>n_uthread := n_uthread (glob w1) - 1\<rparr>"
    by blast
  let ?v = "after_free os u"
  let ?w3 = "if bit (status ?v) UT_ST_DETACHED
    then w2\<lparr>glob := (glob w2)\<lparr>bitmap_ut := (bitmap_ut (glob w2))(ut_id ?v := 0)\<rparr>\<rparr> else w2"
  have stale: "ut_get_stale os ut w2 = Inr (?v, w2)" using ut0 w2(3,4) by (simp add: ut_get_stale_def)
  have run: "resume_leave os s ut w = Inr (0, ?w3)"
    using ut0 ut(3) s ex w1(1) w2(1) stale af
    by (simp add: resume_leave_def op_simps set_bitmap_ut_def del: neq0_conv)
  have "core R W ?w3" by (rule core_fields [OF w2(2)]) auto
  moreover have "uts ?w3 = (after_wake (uts w) ?j)(ut := None)" "scheds ?w3 = scheds w1" "ps ?w3 = ps w1"
    "n_uthread (glob ?w3) = n_uthread (glob w) - 1"
    using w1(3,4) w2(3,5,6,7) by auto
  ultimately show ?thesis using run w1(5,7) by (intro exI [of _ ?w3]) simp
qed

subsection \<open>The whole of \<^verbatim>\<open>_uthread_resume\<close>\<close>

text \<open>
  The state in which a uthread may switch back to the scheduler \<open>s\<close>: it has exited, and the
  joiner sleeps on it; or it sleeps; or it is still in hand and its scheduler still has its \<^verbatim>\<open>p\<close>.
\<close>

definition may_switch :: "'k os \<Rightarrow> ptr \<Rightarrow> ptr set \<Rightarrow> ptr \<Rightarrow> 'k world \<Rightarrow> bool" where
  "may_switch os s R ut w \<longleftrightarrow>
     (\<exists>sc u. scheds w s = Some sc \<and> uts w ut = Some u \<and>
       (if bit (status u) UT_ST_EXITED then
          inv_at (insert ut R) w \<and> joiner_ok (insert ut R) w (ut_joined u) \<and>
          ut_joined u \<notin> waiters (uts w) \<and> stack_ok w u \<and>
          (bit (status (after_free os u)) UT_ST_DETACHED \<longrightarrow> ut_id (after_free os u) < MAX_COUNT_UTHREAD)
        else if bit (status u) UT_ST_SLEEPING then inv_at R w
        else inv_at (insert ut R) w \<and> sched_p sc = ut_p u))"

lemma waiters_after_exit:
  assumes "ut \<notin> waiters U" "j \<notin> waiters U" "j = NULL \<or> j \<in> dom U"
  shows "waiters ((after_wake U j)(ut := None)) = waiters U"
  using assms by (auto simp: waiters_def after_wake_def)

lemma resume_leave_inv:
  assumes m: "may_switch os s R ut w" and s: "s \<noteq> NULL" and R: "ut \<notin> R"
  shows "\<exists>w'. resume_leave os s ut w = Inr (0, w') \<and> inv_at R w'"
proof -
  obtain sc u where su: "scheds w s = Some sc" "uts w ut = Some u" using m by (auto simp: may_switch_def)
  note m' = m [unfolded may_switch_def su, simplified]
  show ?thesis
  proof (cases "bit (status u) UT_ST_EXITED")
    case True
    let ?j = "ut_joined u"
    have c: "core (insert ut R) (waiters (uts w)) w" and j: "joiner_ok (insert ut R) w ?j" "?j \<notin> waiters (uts w)"
      and st: "stack_ok w u"
      and af: "bit (status (after_free os u)) UT_ST_DETACHED \<longrightarrow> ut_id (after_free os u) < MAX_COUNT_UTHREAD"
      using m' True by (auto simp: inv_at_def)
    have nw: "ut \<notin> waiters (uts w)" using core_parts(6) [OF c] waiters_asleep by auto
    obtain w' where w': "resume_leave os s ut w = Inr (0, w')" "core R (waiters (uts w)) w'"
      "uts w' = (after_wake (uts w) ?j)(ut := None)"
      using resume_leave_exit [OF c R nw su(2) s su(1) True j(1) st af] by blast
    have "?j = NULL \<or> ?j \<in> dom (uts w)" using j(1) by (auto simp: joiner_ok_def asleep_def)
    then have "waiters (uts w') = waiters (uts w)" unfolding w'(3) using nw j(2) by (rule waiters_after_exit [rotated 2])
    with w'(1,2) show ?thesis by (auto simp: inv_at_def)
  next
    case False
    show ?thesis
    proof (cases "bit (status u) UT_ST_SLEEPING")
      case True
      with False m' have "core R (waiters (uts w)) w" by (simp add: inv_at_def)
      from resume_leave_sleep [OF this su(2) True s su(1) False, of os] show ?thesis
        by (auto simp: inv_at_def)
    next
      case nsl: False
      with False m' have "core (insert ut R) (waiters (uts w)) w" "sched_p sc = ut_p u" by (auto simp: inv_at_def)
      from resume_leave_yield [OF this(1) R su(2) s su(1) this(2) False, of os] show ?thesis
        by (auto simp: inv_at_def)
    qed
  qed
qed

lemma waiters_started: "\<not> bit (status u) UT_ST_SLEEPING \<Longrightarrow> U ut = Some u \<Longrightarrow>
   waiters (U(ut \<mapsto> started u)) = waiters U"
  using like_upd(6) [OF _ like_started] by blast

text \<open>
  The uthread, resumed in the state that \<open>resume_enter\<close> produces, runs to a switch back in a state as
  above.
\<close>

lemma uthread_resume_inv:
  assumes inv: "inv_at (insert ut R) w" and R: "ut \<notin> R" and u: "uts w ut = Some u"
    and s: "tsd w \<noteq> NULL" "scheds w (tsd w) = Some sc"
    and m: "os_malloc os (kern w) = (n, kn)" "add_timer 1 ut n (wheel w) = Inr wh"
    and c: "(if bit (status u) UT_ST_NEW then Some (uthread_exec prog ut) else k ut) = Some c"
    and seg: "\<And>w1. inv_at (insert ut R) w1 \<Longrightarrow> current_is ut w1 \<Longrightarrow> tsd w1 = tsd w \<Longrightarrow>
      uts w1 = (uts w)(ut \<mapsto> started u) \<Longrightarrow> ps w1 = ps w \<Longrightarrow>
      scheds w1 = (scheds w)(tsd w \<mapsto> sc\<lparr>cur_uthread := ut\<rparr>) \<Longrightarrow> glob w1 = glob w \<Longrightarrow> blocks w1 = blocks w \<Longrightarrow>
      \<exists>w2 c'. c w1 = Susp ut w2 c' \<and> may_switch os (tsd w) R ut w2"
  shows "\<exists>w' c'. uthread_resume os prog ut (w, k) = Inr (0, w', k(ut \<mapsto> c')) \<and> inv_at R w'"
proof -
  have c0: "core (insert ut R) (waiters (uts w)) w" using inv by (simp add: inv_at_def)
  obtain w1 k1 where e: "resume_enter os prog (tsd w) ut (w, k) = Inr ((), w1, k1)"
    "core (insert ut R) (waiters (uts w)) w1" "uts w1 = (uts w)(ut \<mapsto> started u)"
    "scheds w1 = (scheds w)(tsd w \<mapsto> sc\<lparr>cur_uthread := ut\<rparr>)" "ps w1 = ps w" "tsd w1 = tsd w"
    "glob w1 = glob w" "blocks w1 = blocks w"
    "k1 = (if bit (status u) UT_ST_NEW then k(ut \<mapsto> uthread_exec prog ut) else k)"
    using resume_enter_core [OF c0 _ u s m, of prog k] by auto
  have "ut \<notin> asleep (uts w)" using core_parts(6) [OF c0] by auto
  then have "waiters (uts w1) = waiters (uts w)" unfolding e(3) using u
    by (intro waiters_started) (auto simp: asleep_def)
  then have "inv_at (insert ut R) w1" using e(2) by (simp add: inv_at_def)
  moreover have "current_is ut w1"
    using s(1) e(3,4,6) coreD(1) [OF c0 u] by (auto simp: current_is_def)
  ultimately obtain w2 c' where seg': "c w1 = Susp ut w2 c'" "may_switch os (tsd w) R ut w2"
    using seg e(3-8) by blast
  have k1: "k1 ut = Some c" "k1(ut \<mapsto> c') = k(ut \<mapsto> c')" using e(9) c by (auto split: if_splits)
  have sw: "switch_to ut (w1, k1) = Inr ((), w2, k(ut \<mapsto> c'))"
    using k1 seg'(1) by (simp add: switch_to_def)
  obtain w' where "resume_leave os (tsd w) ut w2 = Inr (0, w')" "inv_at R w'"
    using resume_leave_inv [OF seg'(2) s(1) R] by blast
  with e(1) sw show ?thesis by (auto simp: uthread_resume_def op_simps)
qed

end
