(* ===== verification/Ut_Socket.thy ===== *)
theory Ut_Socket
  imports Ut_Uthread
begin

text \<open>
  \<^verbatim>\<open>uthread_socket.c\<close>: the socket and file operations that block the uthread and not the thread.

  Each operation tries the system call, and when it would block registers the descriptor with
  \<^verbatim>\<open>_register_event\<close> and tries again when the uthread runs again.  The loops get the number \<open>n\<close> of
  turns they may take; a loop that needs more ends in \<open>OutOfFuel\<close>.

  Some operations reach the system call through \<^verbatim>\<open>dlsym(RTLD_NEXT, ...)\<close>; they use \<open>libc\<close>.  The others
  call the function by its name, and what the name stands for depends on what the program is
  linked with: these operations have it as the argument \<open>call\<close>.
\<close>

definition MSG_NOSIGNAL :: "32 word" where "MSG_NOSIGNAL = 0x4000"

text \<open>The pointers \<^verbatim>\<open>sys_read\<close> and \<^verbatim>\<open>sys_write\<close> are declared with the result type \<^verbatim>\<open>int\<close>.\<close>

definition as_int :: "int \<Rightarrow> int" where
  "as_int r = signed_take_bit 31 r"

subsection \<open>Connections\<close>

definition uthread_socket :: "'k os \<Rightarrow> int \<Rightarrow> int \<Rightarrow> int \<Rightarrow> ('k world, int) op" where
  "uthread_socket os domain type protocol =
     obind (libc os (SysSocket domain type protocol)) (\<lambda>fd.
     oseq (oassert (fd \<noteq> -1))
     (obind (libc os (SysFcntl fd)) (\<lambda>r.
     oseq (oassert (r \<noteq> -1))
     (oret fd))))"

fun accept_loop :: "'k os \<Rightarrow> ptr \<Rightarrow> int \<Rightarrow> nat \<Rightarrow> ('k world, int) co" where
  "accept_loop os ut sockfd 0 = cfail OutOfFuel"
| "accept_loop os ut sockfd (Suc n) =
     cbind (lift (libc os (SysAccept sockfd))) (\<lambda>res.
     if res = -1 then
       cbind (lift (oget errno)) (\<lambda>e.
       if e = EAGAIN \<or> e = ENFILE \<or> e = EMFILE
       then cseq (register_event os ut sockfd UT_EVENT_RD 0) (accept_loop os ut sockfd n)
       else if e = ECONNABORTED then accept_loop os ut sockfd n
       else cret (-1))
     else cret res)"

definition uthread_accept :: "'k os \<Rightarrow> nat \<Rightarrow> int \<Rightarrow> ('k world, int) co" where
  "uthread_accept os n sockfd = cbind (lift current_ut) (\<lambda>ut. accept_loop os ut sockfd n)"

fun connect_loop :: "'k os \<Rightarrow> ptr \<Rightarrow> int \<Rightarrow> nat \<Rightarrow> ('k world, int) co" where
  "connect_loop os ut sockfd 0 = cfail OutOfFuel"
| "connect_loop os ut sockfd (Suc n) =
     cbind (lift (libc os (SysConnect sockfd))) (\<lambda>res.
     if res = -1 then
       cbind (lift (oget errno)) (\<lambda>e.
       if e = EAGAIN \<or> e = EINPROGRESS
       then cseq (register_event os ut sockfd UT_EVENT_WR 0)
         (cbind (lift (ut_get ut)) (\<lambda>u.
          if has (status u) UT_ST_EXPIRED
          then cseq (lift (oupd (\<lambda>w. w\<lparr>errno := ETIMEDOUT\<rparr>))) (cret (-1))
          else connect_loop os ut sockfd n))
       else cret (-1))
     else cret res)"

definition uthread_connect :: "'k os \<Rightarrow> nat \<Rightarrow> int \<Rightarrow> ('k world, int) co" where
  "uthread_connect os n sockfd = cbind (lift current_ut) (\<lambda>ut. connect_loop os ut sockfd n)"

subsection \<open>Receiving\<close>

text \<open>
  The loop that \<^verbatim>\<open>uthread_read\<close>, \<^verbatim>\<open>uthread_recv\<close>, \<^verbatim>\<open>uthread_recvmsg\<close> and \<^verbatim>\<open>uthread_recvfrom\<close> share: \<open>rd\<close> is
  the call that reads, \<open>timeout\<close> the time in milliseconds after which the wait expires.
\<close>

fun recv_loop :: "'k os \<Rightarrow> ('k world, int) co \<Rightarrow> 64 word \<Rightarrow> ptr \<Rightarrow> int \<Rightarrow> nat \<Rightarrow> ('k world, int) co" where
  "recv_loop os rd timeout ut fd 0 = cfail OutOfFuel"
| "recv_loop os rd timeout ut fd (Suc n) =
     cbind (lift (ut_get ut)) (\<lambda>u.
     if has (status u) UT_ST_FDEOF then cret (-1)
     else
       cbind (lift (libc os (SysFcntl fd))) (\<lambda>r.
       cseq (lift (oassert (r \<noteq> -1)))
       (cbind rd (\<lambda>ret.
        cbind (lift (oget errno)) (\<lambda>e.
        if ret = -1 \<and> e \<noteq> EAGAIN then cret (-1)
        else if ret = -1
        then cseq (register_event os ut fd UT_EVENT_RD timeout)
          (cbind (lift (ut_get ut)) (\<lambda>u.
           if has (status u) UT_ST_EXPIRED then cret (-2)
           else recv_loop os rd timeout ut fd n))
        else if 0 \<le> ret then cret ret
        else recv_loop os rd timeout ut fd n)))))"

definition uthread_read :: "'k os \<Rightarrow> nat \<Rightarrow> int \<Rightarrow> nat \<Rightarrow> nat \<Rightarrow> ('k world, int) co" where
  "uthread_read os n fd buf len =
     cbind (lift current_ut) (\<lambda>ut.
     recv_loop os (cbind (lift (libc os (SysRead fd buf len))) (\<lambda>r. cret (as_int r))) 1000 ut fd n)"

definition uthread_recv ::
  "'k os \<Rightarrow> (sys_call \<Rightarrow> ('k world, int) co) \<Rightarrow> nat \<Rightarrow> int \<Rightarrow> nat \<Rightarrow> nat \<Rightarrow> 32 word \<Rightarrow> ('k world, int) co" where
  "uthread_recv os call n fd buf len flags =
     cbind (lift current_ut) (\<lambda>ut.
     recv_loop os (call (SysRecv fd buf len (flags OR MSG_NOSIGNAL))) 0 ut fd n)"

definition uthread_recvmsg ::
  "'k os \<Rightarrow> (sys_call \<Rightarrow> ('k world, int) co) \<Rightarrow> nat \<Rightarrow> int \<Rightarrow> 32 word \<Rightarrow> ('k world, int) co" where
  "uthread_recvmsg os call n fd flags =
     cbind (lift current_ut) (\<lambda>ut.
     recv_loop os (call (SysRecvmsg fd (flags OR MSG_NOSIGNAL))) 0 ut fd n)"

definition uthread_recvfrom ::
  "'k os \<Rightarrow> (sys_call \<Rightarrow> ('k world, int) co) \<Rightarrow> nat \<Rightarrow> int \<Rightarrow> nat \<Rightarrow> 32 word \<Rightarrow> ('k world, int) co" where
  "uthread_recvfrom os call n fd len flags =
     cbind (lift current_ut) (\<lambda>ut.
     recv_loop os (call (SysRecvfrom fd len (flags OR MSG_NOSIGNAL))) 0 ut fd n)"

text \<open>
  The loop of \<^verbatim>\<open>uthread_recv_exact\<close> and \<^verbatim>\<open>uthread_read_exact\<close>: \<open>rd off len\<close> is the call for \<open>len\<close> bytes at
  the offset \<open>off\<close> of the buffer.
\<close>

fun exact_loop ::
  "'k os \<Rightarrow> (nat \<Rightarrow> nat \<Rightarrow> ('k world, int) co) \<Rightarrow> ptr \<Rightarrow> int \<Rightarrow> 64 word \<Rightarrow> 64 word \<Rightarrow> nat \<Rightarrow> ('k world, int) co" where
  "exact_loop os rd ut fd len recvd 0 = cfail OutOfFuel"
| "exact_loop os rd ut fd len recvd (Suc n) =
     (if recvd = len then cret (sint recvd)
      else
        cbind (lift (ut_get ut)) (\<lambda>u.
        if has (status u) UT_ST_FDEOF then cret (-1)
        else
          cbind (rd (unat recvd) (unat (len - recvd))) (\<lambda>ret.
          cbind (lift (oget errno)) (\<lambda>e.
          if ret = 0 then cret (sint recvd)
          else if 0 < ret then exact_loop os rd ut fd len (recvd + word_of_int ret) n
          else if ret = -1 \<and> e \<noteq> EAGAIN then cret (-1)
          else if ret = -1
          then cseq (register_event os ut fd UT_EVENT_RD 0)
            (cbind (lift (ut_get ut)) (\<lambda>u.
             if has (status u) UT_ST_EXPIRED then cret (-2)
             else exact_loop os rd ut fd len recvd n))
          else exact_loop os rd ut fd len recvd n))))"

definition uthread_recv_exact ::
  "'k os \<Rightarrow> (sys_call \<Rightarrow> ('k world, int) co) \<Rightarrow> nat \<Rightarrow> int \<Rightarrow> nat \<Rightarrow> 64 word \<Rightarrow> 32 word \<Rightarrow> ('k world, int) co" where
  "uthread_recv_exact os call n fd buf len flags =
     cbind (lift current_ut) (\<lambda>ut.
     exact_loop os (\<lambda>off l. call (SysRecv fd (buf + off) l (flags OR MSG_NOSIGNAL))) ut fd len 0 n)"

definition uthread_read_exact ::
  "'k os \<Rightarrow> (sys_call \<Rightarrow> ('k world, int) co) \<Rightarrow> nat \<Rightarrow> int \<Rightarrow> nat \<Rightarrow> 64 word \<Rightarrow> ('k world, int) co" where
  "uthread_read_exact os call n fd buf len =
     cbind (lift current_ut) (\<lambda>ut. exact_loop os (\<lambda>off l. call (SysRead fd (buf + off) l)) ut fd len 0 n)"

subsection \<open>Sending\<close>

text \<open>The loop of \<^verbatim>\<open>uthread_write\<close> and \<^verbatim>\<open>uthread_send\<close>, with the call that sends in \<open>wr\<close>.\<close>

fun send_loop ::
  "'k os \<Rightarrow> (nat \<Rightarrow> nat \<Rightarrow> ('k world, int) co) \<Rightarrow> ptr \<Rightarrow> int \<Rightarrow> 64 word \<Rightarrow> 64 word \<Rightarrow> nat \<Rightarrow> ('k world, int) co" where
  "send_loop os wr ut fd len sent 0 = cfail OutOfFuel"
| "send_loop os wr ut fd len sent (Suc n) =
     (if sent = len then cret (sint sent)
      else
        cbind (lift (ut_get ut)) (\<lambda>u.
        if has (status u) UT_ST_FDEOF then cret (-1)
        else
          cbind (wr (unat sent) (unat (len - sent))) (\<lambda>ret.
          cbind (lift (oget errno)) (\<lambda>e.
          if ret = 0 then cret (sint sent)
          else if 0 < ret then send_loop os wr ut fd len (sent + word_of_int ret) n
          else if ret = -1 \<and> e \<noteq> EAGAIN then cret (-1)
          else if ret = -1
          then cseq (register_event os ut fd UT_EVENT_WR 0) (send_loop os wr ut fd len sent n)
          else send_loop os wr ut fd len sent n))))"

definition uthread_write :: "'k os \<Rightarrow> nat \<Rightarrow> int \<Rightarrow> nat \<Rightarrow> 64 word \<Rightarrow> ('k world, int) co" where
  "uthread_write os n fd buf len =
     cbind (lift current_ut) (\<lambda>ut.
     send_loop os (\<lambda>off l. cbind (lift (libc os (SysWrite fd (buf + off) l))) (\<lambda>r. cret (as_int r))) ut fd len 0 n)"

definition uthread_send ::
  "'k os \<Rightarrow> (sys_call \<Rightarrow> ('k world, int) co) \<Rightarrow> nat \<Rightarrow> int \<Rightarrow> nat \<Rightarrow> 64 word \<Rightarrow> 32 word \<Rightarrow> ('k world, int) co" where
  "uthread_send os call n fd buf len flags =
     cbind (lift current_ut) (\<lambda>ut.
     send_loop os (\<lambda>off l. call (SysSend fd (buf + off) l (flags OR MSG_NOSIGNAL))) ut fd len 0 n)"

text \<open>The loop of \<^verbatim>\<open>uthread_sendmsg\<close> and \<^verbatim>\<open>uthread_sendto\<close>.\<close>

fun sendmsg_loop :: "'k os \<Rightarrow> ('k world, int) co \<Rightarrow> ptr \<Rightarrow> int \<Rightarrow> nat \<Rightarrow> ('k world, int) co" where
  "sendmsg_loop os wr ut fd 0 = cfail OutOfFuel"
| "sendmsg_loop os wr ut fd (Suc n) =
     cbind (lift (ut_get ut)) (\<lambda>u.
     if has (status u) UT_ST_FDEOF then cret (-1)
     else
       cbind wr (\<lambda>ret.
       cbind (lift (oget errno)) (\<lambda>e.
       if 0 \<le> ret then cret ret
       else if ret = -1 \<and> e \<noteq> EAGAIN then cret (-1)
       else if ret = -1
       then cseq (register_event os ut fd UT_EVENT_WR 0) (sendmsg_loop os wr ut fd n)
       else sendmsg_loop os wr ut fd n)))"

definition uthread_sendmsg ::
  "'k os \<Rightarrow> (sys_call \<Rightarrow> ('k world, int) co) \<Rightarrow> nat \<Rightarrow> int \<Rightarrow> 32 word \<Rightarrow> ('k world, int) co" where
  "uthread_sendmsg os call n fd flags =
     cbind (lift current_ut) (\<lambda>ut. sendmsg_loop os (call (SysSendmsg fd (flags OR MSG_NOSIGNAL))) ut fd n)"

definition uthread_sendto ::
  "'k os \<Rightarrow> (sys_call \<Rightarrow> ('k world, int) co) \<Rightarrow> nat \<Rightarrow> int \<Rightarrow> nat \<Rightarrow> 32 word \<Rightarrow> ('k world, int) co" where
  "uthread_sendto os call n fd len flags =
     cbind (lift current_ut) (\<lambda>ut. sendmsg_loop os (call (SysSendto fd len (flags OR MSG_NOSIGNAL))) ut fd n)"

subsection \<open>Vectors\<close>

text \<open>
  The inner loop of \<^verbatim>\<open>uthread_writev\<close>, which accounts for \<open>n\<close> bytes sent: the elements from the index
  \<open>i\<close> on as they are afterwards, and by how much \<^verbatim>\<open>iov_index\<close> grows.  An element is its base and
  its length.
\<close>

fun iov_advance :: "(nat \<times> nat) list \<Rightarrow> nat \<Rightarrow> (nat \<times> nat) list \<times> nat" where
  "iov_advance [] n = ([], 0)"
| "iov_advance ((base, len) # iov) n =
     (if n = 0 then ((base, len) # iov, 0)
      else if n < len then ((base + n, len - n) # iov, 0)
      else (case iov_advance iov (n - len) of (iov', k) \<Rightarrow> ((base, len) # iov', Suc k)))"

text \<open>
  The outer loop; \<open>iov\<close> are the elements from \<^verbatim>\<open>iov_index\<close> on, so that it ends when none is left.  The body
  runs once before the condition is tested.
\<close>

fun writev_loop ::
  "'k os \<Rightarrow> (sys_call \<Rightarrow> ('k world, int) co) \<Rightarrow> ptr \<Rightarrow> int \<Rightarrow> (nat \<times> nat) list \<Rightarrow> int \<Rightarrow> nat \<Rightarrow> ('k world, int) co" where
  "writev_loop os call ut fd iov tot 0 = cfail OutOfFuel"
| "writev_loop os call ut fd iov tot (Suc m) =
     cbind (call (SysWritev fd iov)) (\<lambda>n.
     cbind (lift (oget errno)) (\<lambda>e.
     if 0 < n then
       (case iov_advance iov (nat n) of (iov', k) \<Rightarrow>
         if k < length iov then writev_loop os call ut fd (drop k iov') (tot + n) m
         else cret (tot + n))
     else if n = -1 \<and> e = EAGAIN then
       cseq (register_event os ut fd UT_EVENT_WR 0)
       (if iov \<noteq> [] then writev_loop os call ut fd iov tot m else cret tot)
     else cret n))"

definition uthread_writev ::
  "'k os \<Rightarrow> (sys_call \<Rightarrow> ('k world, int) co) \<Rightarrow> nat \<Rightarrow> int \<Rightarrow> (nat \<times> nat) list \<Rightarrow> ('k world, int) co" where
  "uthread_writev os call n fd iov =
     cbind (lift current_ut) (\<lambda>ut. writev_loop os call ut fd iov 0 n)"

end
