(* ===== verification/Ut_Hook.thy ===== *)
theory Ut_Hook
  imports Ut_Socket
begin

text \<open>
  \<^verbatim>\<open>myhook.c\<close>: the functions of the thread and socket interfaces under their POSIX names.

  A program that is linked with the library calls these functions, and so do the parts of
  \<^verbatim>\<open>uthread_socket.c\<close> that name \<^verbatim>\<open>recv\<close>, \<^verbatim>\<open>send\<close> and so on directly.
\<close>

subsection \<open>Threads\<close>

text \<open>\<^verbatim>\<open>pthread_create\<close>: the result and the value stored in \<^verbatim>\<open>*tidp\<close>.\<close>

definition pthread_create :: "'k os \<Rightarrow> ptr \<Rightarrow> ptr \<Rightarrow> ('k world, int \<times> ptr) co" where
  "pthread_create os start_rtn a = cbind (uthread_create os start_rtn a) (\<lambda>(res, ut). cret (res, ut))"

definition pthread_join :: "'k os \<Rightarrow> ptr \<Rightarrow> ptr \<Rightarrow> ('k world, int) co" where
  "pthread_join os thread rv = uthread_join os thread rv"

definition pthread_self :: "('k world, ptr option) op" where
  "pthread_self = uthread_self"

definition pthread_exit :: "ptr \<Rightarrow> ('k world, unit) co" where
  "pthread_exit rv = uthread_exit rv"

definition pthread_detach :: "ptr \<Rightarrow> ('k world, int) op" where
  "pthread_detach thread = uthread_detach thread"

subsection \<open>Sockets\<close>

text \<open>
  The hook of each call.  \<open>n\<close> bounds the turns of each loop, \<open>d\<close> the number of hooks that can be
  active at a time, which the size of the stack bounds: a uthread has \<^verbatim>\<open>STACK_SIZE\<close> bytes.  \<^verbatim>\<open>fcntl\<close> is not
  hooked.
\<close>

fun hook :: "'k os \<Rightarrow> nat \<Rightarrow> nat \<Rightarrow> sys_call \<Rightarrow> ('k world, int) co" where
  "hook os n 0 c = cfail StackOverflow"
| "hook os n (Suc d) c =
     (case c of
        SysSocket domain type protocol \<Rightarrow> lift (uthread_socket os domain type protocol)
      | SysConnect fd \<Rightarrow> uthread_connect os n fd
      | SysAccept fd \<Rightarrow> uthread_accept os n fd
      | SysRead fd buf len \<Rightarrow> uthread_read os n fd buf len
      | SysWrite fd buf len \<Rightarrow> uthread_write os n fd buf (of_nat len)
      | SysRecv fd buf len flags \<Rightarrow> uthread_recv os (hook os n d) n fd buf len flags
      | SysRecvmsg fd flags \<Rightarrow> uthread_recvmsg os (hook os n d) n fd flags
      | SysRecvfrom fd len flags \<Rightarrow> uthread_recvfrom os (hook os n d) n fd len flags
      | SysSend fd buf len flags \<Rightarrow> uthread_send os (hook os n d) n fd buf (of_nat len) flags
      | SysSendmsg fd flags \<Rightarrow> uthread_sendmsg os (hook os n d) n fd flags
      | SysSendto fd len flags \<Rightarrow> uthread_sendto os (hook os n d) n fd len flags
      | SysWritev fd iov \<Rightarrow> uthread_writev os (hook os n d) n fd iov
      | SysFcntl fd \<Rightarrow> lift (libc os (SysFcntl fd)))"

definition recv_exact :: "'k os \<Rightarrow> nat \<Rightarrow> nat \<Rightarrow> int \<Rightarrow> nat \<Rightarrow> 64 word \<Rightarrow> 32 word \<Rightarrow> ('k world, int) co" where
  "recv_exact os n d fd buf len flags = uthread_recv_exact os (hook os n d) n fd buf len flags"

definition read_exact :: "'k os \<Rightarrow> nat \<Rightarrow> nat \<Rightarrow> int \<Rightarrow> nat \<Rightarrow> 64 word \<Rightarrow> ('k world, int) co" where
  "read_exact os n d fd buf len = uthread_read_exact os (hook os n d) n fd buf len"

definition enable_hook :: int where
  "enable_hook = 1"

end
