(* ===== verification/Ut_Transfer.thy ===== *)
theory Ut_Transfer
  imports Ut_Hook
begin

text \<open>
  What the transfer operations of \<^verbatim>\<open>uthread_socket.c\<close> achieve: which bytes reach the system, whatever
  happens while the uthread is suspended, and that the loops end.
\<close>

subsection \<open>Operations that keep an assertion\<close>

definition keeps :: "('s \<Rightarrow> bool) \<Rightarrow> ('s, 'a) op \<Rightarrow> bool" where
  "keeps P m \<longleftrightarrow> (\<forall>s a s'. P s \<longrightarrow> m s = Inr (a, s') \<longrightarrow> P s')"

lemma keepsD: "keeps P m \<Longrightarrow> m s = Inr (a, s') \<Longrightarrow> P s \<Longrightarrow> P s'"
  unfolding keeps_def by blast

lemma keeps_pure:
  "keeps P (oret a)" "keeps P (oget g)" "keeps P (oassert b)" "keeps P (of_tree r)"
  by (auto simp: keeps_def oret_def oget_def oassert_def of_tree_def split: option.splits)

lemma keeps_obind: "keeps P m \<Longrightarrow> (\<And>a. keeps P (f a)) \<Longrightarrow> keeps P (obind m f)"
  unfolding keeps_def obind_Inr_iff by blast

lemma keeps_oseq: "keeps P m \<Longrightarrow> keeps P m' \<Longrightarrow> keeps P (oseq m m')"
  unfolding keeps_def oseq_Inr_iff by blast

lemma keeps_if: "keeps P m \<Longrightarrow> keeps P m' \<Longrightarrow> keeps P (if b then m else m')"
  by simp

lemma keeps_pair: "(\<And>x y. keeps P (g x y)) \<Longrightarrow> keeps P (case p of (x, y) \<Rightarrow> g x y)"
  by (cases p) simp

lemmas keeps_flow = keeps_pure keeps_obind keeps_oseq keeps_if keeps_pair

lemma keeps_structures:
  "keeps (\<lambda>w. P (kern w)) (ut_get a)" "keeps (\<lambda>w. P (kern w)) (ut_upd a f)"
  "keeps (\<lambda>w. P (kern w)) (p_get a)" "keeps (\<lambda>w. P (kern w)) (p_upd a g)"
  "keeps (\<lambda>w. P (kern w)) (s_get a)" "keeps (\<lambda>w. P (kern w)) sched_get"
  "(\<And>w. kern (h w) = kern w) \<Longrightarrow> keeps (\<lambda>w. P (kern w)) (oupd h)"
  by (auto simp: keeps_def ut_get_def ut_upd_def p_get_def p_upd_def s_get_def sched_get_def oget_def
      oupd_def bnd_Inr_iff)

lemma keeps_sys:
  "(\<And>k a k'. P k \<Longrightarrow> c k = (a, k') \<Longrightarrow> P k') \<Longrightarrow> keeps (\<lambda>w. P (kern w)) (sys c)"
  by (auto simp: keeps_def sys_def split: prod.splits)

lemma safe_lift_keeps: "keeps P m \<Longrightarrow> P s \<Longrightarrow> (\<And>a s'. P s' \<Longrightarrow> Q a s') \<Longrightarrow> safe E Q (lift m s)"
  by (rule safe_lift) (auto dest: keepsD)

subsection \<open>Waiting does not move data\<close>

text \<open>
  An observation \<open>out\<close> of the system, such as the bytes it has accepted on a descriptor, that the
  polling calls and the clock leave alone.
\<close>

definition quiet :: "'k os \<Rightarrow> ('k \<Rightarrow> 'o) \<Rightarrow> bool" where
  "quiet os out \<longleftrightarrow>
     (\<forall>p c fd m k. out (snd (os_epoll_ctl os p c fd m k)) = out k) \<and>
     (\<forall>k. out (snd (os_gettimeofday os k)) = out k)"

lemma quiet_ops:
  assumes "quiet os out"
  shows "keeps (\<lambda>w. out (kern w) = z) (wait_enter os ut fd e)"
    "keeps (\<lambda>w. out (kern w) = z) (sleep_enter os ut ms)"
proof -
  have ctl: "keeps (\<lambda>w. out (kern w) = z) (sys (os_epoll_ctl os p c fd m))" for p c fd m
    by (rule keeps_sys [where P = "\<lambda>k. out k = z"]) (use assms in \<open>auto simp: quiet_def dest: spec split: prod.splits\<close>, metis snd_conv)
  have now: "keeps (\<lambda>w. out (kern w) = z) (sys (os_gettimeofday os))"
    by (rule keeps_sys [where P = "\<lambda>k. out k = z"]) (use assms in \<open>auto simp: quiet_def\<close>, metis snd_conv)
  note st = keeps_structures [where P = "\<lambda>k. out k = z"]
  show "keeps (\<lambda>w. out (kern w) = z) (wait_enter os ut fd e)"
    unfolding wait_enter_def by (intro keeps_flow st ctl) simp_all
  show "keeps (\<lambda>w. out (kern w) = z) (sleep_enter os ut ms)"
    unfolding sleep_enter_def get_usec_now_def Let_def by (intro keeps_flow st now) simp_all
qed

definition undisturbed :: "('k \<Rightarrow> 'o) \<Rightarrow> 'k world \<Rightarrow> 'k world \<Rightarrow> bool" where
  "undisturbed out w w' \<longleftrightarrow> out (kern w') = out (kern w)"

lemma safe_yield:
  assumes "out (kern w) = z" "\<And>w'. out (kern w') = z \<Longrightarrow> Q () w'"
  shows "safe (undisturbed out) Q (uthread_yield w)"
proof -
  note st = keeps_structures [where P = "\<lambda>k. out k = z"]
  show ?thesis
    unfolding uthread_yield_def
    by (rule safe_cbind, rule safe_lift_keeps [where P = "\<lambda>w. out (kern w) = z"], intro keeps_flow st)
      (use assms in \<open>auto intro!: safe_switch simp: undisturbed_def\<close>)
qed

lemma safe_register_event:
  assumes q: "quiet os out" and w: "out (kern w) = z" and Q: "\<And>w'. out (kern w') = z \<Longrightarrow> Q () w'"
  shows "safe (undisturbed out) Q (register_event os ut fd e ms w)"
proof -
  note st = keeps_structures [where P = "\<lambda>k. out k = z"]
  let ?P = "\<lambda>w. out (kern w) = z"
  have upd: "safe (undisturbed out) Q' (lift (ut_upd ut f) w)" if "?P w" "\<And>w'. ?P w' \<Longrightarrow> Q' () w'" for f w Q'
    by (rule safe_lift_keeps [OF st(2) that(1)]) (use that(2) in auto)
  show ?thesis
    unfolding register_event_def uthread_sched_sleep_def
    apply (rule safe_cseq, rule safe_lift_keeps [OF quiet_ops(1) [OF q] w])
    apply (rule safe_cseq, rule safe_cseq, erule safe_lift_keeps [OF quiet_ops(2) [OF q]])
    apply (rule safe_cseq, erule safe_yield, erule upd)
    apply (rule safe_lift_keeps [where P = ?P], intro keeps_flow st, assumption)
    using Q by auto
qed

subsection \<open>Writing\<close>

text \<open>
  What \<^verbatim>\<open>write\<close> promises on the descriptor \<open>fd\<close>, with the bytes accepted so far in \<open>out\<close>: it fails and
  accepts nothing, or it accepts between 1 and all of the bytes offered and says how many.  (Linux
  transfers less than \<open>2 ^ 31\<close> bytes at a time.)
\<close>

definition accepts :: "'k os \<Rightarrow> int \<Rightarrow> ('k \<Rightarrow> nat list) \<Rightarrow> bool" where
  "accepts os fd out \<longleftrightarrow>
     (\<forall>off len k r e k'. 0 < len \<longrightarrow> os_call os (SysWrite fd off len) k = ((r, e), k') \<longrightarrow>
        r = -1 \<and> out k' = out k \<or>
        0 < r \<and> r \<le> int len \<and> r < 2 ^ 31 \<and> out k' = out k @ [off..<off + nat r])"

abbreviation (input) write_call :: "'k os \<Rightarrow> int \<Rightarrow> nat \<Rightarrow> nat \<Rightarrow> nat \<Rightarrow> ('k world, int) co" where
  "write_call os fd buf off l \<equiv> cbind (lift (libc os (SysWrite fd (buf + off) l))) (\<lambda>r. cret (as_int r))"

lemma as_int_id: "- (2 ^ 31) \<le> r \<Longrightarrow> r < 2 ^ 31 \<Longrightarrow> as_int r = r"
  by (simp add: as_int_def signed_take_bit_int_eq_self)

lemma libc_run:
  assumes "os_call os c (kern w) = ((r, e), k)"
  shows "libc os c w = Inr (r, w\<lparr>kern := k, errno := (if r = -1 then e else errno w)\<rparr>)"
  using assms by (simp add: libc_def op_simps)

lemma write_call_cases:
  assumes "accepts os fd out" "0 < l" "os_call os (SysWrite fd (buf + off) l) (kern w) = ((r, e), k)"
  shows "write_call os fd buf off l w = Ret r (w\<lparr>kern := k, errno := (if r = -1 then e else errno w)\<rparr>)"
proof -
  have "r = -1 \<or> 0 < r \<and> r < 2 ^ 31" using assms unfolding accepts_def by blast
  then have "as_int r = r" by (auto intro: as_int_id)
  then show ?thesis by (simp add: lift_run(1) [where m = "libc os (SysWrite fd (buf + off) l)", OF libc_run [OF assms(3)]] cret_run)
qed

text \<open>The bytes sent after another \<open>r\<close>, as the loop counts them.\<close>

lemma sent_more:
  fixes sent len :: "64 word"
  assumes "sent \<le> len" "0 < r" "r \<le> int (unat (len - sent))"
  shows "unat (sent + word_of_int r) = unat sent + nat r" "sent + word_of_int r \<le> len"
    "unat (len - (sent + word_of_int r)) < unat (len - sent)"
proof -
  have d: "unat (len - sent) = unat len - unat sent" using assms(1) by (simp add: unat_sub)
  have le: "unat sent \<le> unat len" "unat len < 2 ^ 64" using assms(1) unsigned_less [of len] by (auto simp: word_le_nat_alt)
  have r: "nat r \<le> unat len - unat sent" using assms(3) d by simp
  have "(word_of_int r :: 64 word) = of_nat (nat r)" using assms(2) by (metis of_int_of_nat_eq nat_0_le less_imp_le)
  moreover have "unat (of_nat (nat r) :: 64 word) = nat r" using r le by (simp add: unat_of_nat)
  ultimately have u: "unat (word_of_int r :: 64 word) = nat r" by metis
  show s: "unat (sent + word_of_int r) = unat sent + nat r"
    using u r le by (subst unat_add_lem [THEN iffD1]) auto
  show l: "sent + word_of_int r \<le> len" using s r le by (simp add: word_le_nat_alt)
  show "unat (len - (sent + word_of_int r)) < unat (len - sent)"
    using s l d r assms(2) by (simp add: unat_sub)
qed

lemma upt_more: "[b..<b + s] @ [b + s..<b + s + r] = [b..<b + (s + r :: nat)]"
  using upt_add_eq_append [of b "b + s" r] by (simp add: add.assoc)

lemma sint_small: "unat a < 2 ^ 63 \<Longrightarrow> sint (a :: 64 word) = int (unat a)"
proof -
  assume a: "unat a < 2 ^ 63"
  have u: "uint a = int (unat a)" by simp
  have "sint a = signed_take_bit 63 (uint a)" unfolding sint_uint by simp
  also have "\<dots> = uint a"
  proof (rule signed_take_bit_int_eq_self)
    have "int m < 2 ^ 63" if "m < 2 ^ 63" for m using that by simp
    from this [OF a] show "uint a < 2 ^ 63" unfolding u .
    show "- (2 ^ 63) \<le> uint a" by (rule order_trans [OF _ unsigned_greater_eq]) simp
  qed
  finally show ?thesis unfolding u .
qed

text \<open>One turn of the loop, and the bytes after it.\<close>

lemma send_loop_step:
  assumes os: "accepts os fd out" and ne: "sent \<noteq> len" and u: "ut_get ut w = Inr (u, w)"
    and c: "os_call os (SysWrite fd (buf + unat sent) (unat (len - sent))) (kern w) = ((r, e), k)"
  shows "send_loop os (write_call os fd buf) ut fd len sent (Suc n) w =
      (let w' = w\<lparr>kern := k, errno := (if r = -1 then e else errno w)\<rparr> in
       if has (status u) UT_ST_FDEOF then Ret (-1) w
       else if 0 < r then send_loop os (write_call os fd buf) ut fd len (sent + word_of_int r) n w'
       else if e \<noteq> EAGAIN then Ret (-1) w'
       else cseq (register_event os ut fd UT_EVENT_WR 0) (send_loop os (write_call os fd buf) ut fd len sent n) w')"
proof (cases "has (status u) UT_ST_FDEOF")
  case True
  then show ?thesis
    using ne by (simp add: lift_run(1) [where m = "ut_get ut", OF u] cret_run Let_def del: has_iff)
next
  case False
  have pos: "0 < unat (len - sent)" using ne by (simp add: unat_gt_0)
  have run: "cbind (write_call os fd buf (unat sent) (unat (len - sent))) f w =
      f r (w\<lparr>kern := k, errno := (if r = -1 then e else errno w)\<rparr>)" for f
    by (simp add: cbind_def [of _ f] write_call_cases [OF os pos c])
  have "r = -1 \<or> 0 < r" using os pos c unfolding accepts_def by blast
  then show ?thesis
    using ne False
    by (elim disjE)
      (simp_all add: lift_run(1) [where m = "ut_get ut", OF u] run get_co cret_run Let_def del: has_iff)
qed

lemma send_more_bytes:
  fixes sent len :: "64 word"
  assumes "accepts os fd out" "sent \<le> len" "sent \<noteq> len" "out (kern w) = z @ [buf..<buf + unat sent]"
    and "os_call os (SysWrite fd (buf + unat sent) (unat (len - sent))) (kern w) = ((r, e), k)"
  shows "r = -1 \<and> out k = out (kern w) \<or>
    0 < r \<and> sent + word_of_int r \<le> len \<and> out k = z @ [buf..<buf + unat (sent + word_of_int r)] \<and>
    unat (len - (sent + word_of_int r)) < unat (len - sent)"
proof -
  have "0 < unat (len - sent)" using assms(3) by (simp add: unat_gt_0)
  then have io: "r = -1 \<and> out k = out (kern w) \<or> 0 < r \<and> r \<le> int (unat (len - sent)) \<and>
      out k = out (kern w) @ [buf + unat sent..<buf + unat sent + nat r]"
    using assms(1,5) unfolding accepts_def by blast
  show ?thesis
  proof (cases "r = -1")
    case False
    then have r: "0 < r" "r \<le> int (unat (len - sent))" using io by auto
    show ?thesis
      using False io assms(4) sent_more [OF assms(2) r] by (simp add: upt_more)
  qed (use io in simp)
qed

lemma send_loop_safe:
  assumes os: "accepts os fd out" "quiet os out" and len: "unat len < 2 ^ 63"
  shows "sent \<le> len \<Longrightarrow> out (kern w) = z @ [buf..<buf + unat sent] \<Longrightarrow>
    safe (undisturbed out)
      (\<lambda>r w'. \<exists>s \<le> unat len. out (kern w') = z @ [buf..<buf + s] \<and> (r = -1 \<or> s = unat len \<and> r = int s))
      (send_loop os (write_call os fd buf) ut fd len sent n w)"
proof (induction n arbitrary: sent w)
  case 0
  then show ?case by (simp add: cfail_def)
next
  case (Suc n)
  let ?Q = "\<lambda>r w'. \<exists>s \<le> unat len. out (kern w') = z @ [buf..<buf + s] \<and> (r = -1 \<or> s = unat len \<and> r = int s)"
  have le: "unat sent \<le> unat len" using Suc.prems(1) by (simp add: word_le_nat_alt)
  have err: "?Q (-1) w'" if "out (kern w') = z @ [buf..<buf + unat sent]" for w' using that le by blast
  consider (all) "sent = len" | (bad) e where "sent \<noteq> len" "ut_get ut w = Inl e" | (turn) u where "sent \<noteq> len" "ut_get ut w = Inr (u, w)"
    by (cases "ut_get ut w") (auto simp: ut_get_def bnd_Inr_iff)
  then show ?case
  proof cases
    case all
    with Suc.prems sint_small [OF len] show ?thesis by (auto simp: cret_def)
  next
    case bad
    then show ?thesis by (simp add: lift_run)
  next
    case turn
    obtain r e k where c: "os_call os (SysWrite fd (buf + unat sent) (unat (len - sent))) (kern w) = ((r, e), k)"
      by (metis surj_pair)
    let ?w = "w\<lparr>kern := k, errno := (if r = -1 then e else errno w)\<rparr>"
    note io = send_more_bytes [OF os(1) Suc.prems(1) turn(1) Suc.prems(2) c]
    have more: "safe (undisturbed out) ?Q (send_loop os (write_call os fd buf) ut fd len (sent + word_of_int r) n ?w)"
      if "0 < r"
      by (rule Suc.IH) (use io that in auto)
    have wait: "safe (undisturbed out) ?Q (cseq (register_event os ut fd UT_EVENT_WR 0)
        (send_loop os (write_call os fd buf) ut fd len sent n) ?w)" if "r = -1"
    proof (rule safe_cseq, rule safe_register_event [OF os(2)])
      show "out (kern ?w) = z @ [buf..<buf + unat sent]" using that io Suc.prems(2) by simp
    qed (rule Suc.IH [OF Suc.prems(1)])
    have "?Q (-1) w" "r = -1 \<Longrightarrow> ?Q (-1) ?w" using err [of w] err [of ?w] io Suc.prems(2) by auto
    then show ?thesis
      unfolding send_loop_step [OF os(1) turn c] Let_def
      using io more wait by (simp del: send_loop.simps split: if_split) blast
  qed
qed

text \<open>A descriptor that never blocks.\<close>

definition never_fails :: "'k os \<Rightarrow> int \<Rightarrow> bool" where
  "never_fails os fd \<longleftrightarrow> (\<forall>off l k. fst (fst (os_call os (SysWrite fd off l) k)) \<noteq> -1)"

lemma send_loop_total:
  assumes os: "accepts os fd out" "never_fails os fd" and len: "unat len < 2 ^ 63" and ut: "ut \<noteq> NULL"
  shows "sent \<le> len \<Longrightarrow> out (kern w) = z @ [buf..<buf + unat sent] \<Longrightarrow> uts w ut = Some u \<Longrightarrow>
    \<not> bit (status u) UT_ST_FDEOF \<Longrightarrow> unat (len - sent) < n \<Longrightarrow>
    \<exists>w'. send_loop os (write_call os fd buf) ut fd len sent n w = Ret (int (unat len)) w' \<and>
      out (kern w') = z @ [buf..<buf + unat len]"
proof (induction n arbitrary: sent w)
  case (Suc n)
  show ?case
  proof (cases "sent = len")
    case True
    with Suc.prems(2) sint_small [OF len] show ?thesis by (simp add: cret_def)
  next
    case False
    have u: "ut_get ut w = Inr (u, w)" using ut Suc.prems(3) by (simp add: ut_get_def)
    obtain r e k where c: "os_call os (SysWrite fd (buf + unat sent) (unat (len - sent))) (kern w) = ((r, e), k)"
      by (metis surj_pair)
    have "r \<noteq> -1" using os(2) c unfolding never_fails_def by (metis fst_conv)
    then have io: "0 < r" "sent + word_of_int r \<le> len" "out k = z @ [buf..<buf + unat (sent + word_of_int r)]"
      "unat (len - (sent + word_of_int r)) < unat (len - sent)"
      using send_more_bytes [OF os(1) Suc.prems(1) False Suc.prems(2) c] by auto
    let ?w = "w\<lparr>kern := k, errno := (if r = -1 then e else errno w)\<rparr>"
    have "\<exists>w'. send_loop os (write_call os fd buf) ut fd len (sent + word_of_int r) n ?w = Ret (int (unat len)) w' \<and>
      out (kern w') = z @ [buf..<buf + unat len]"
      by (rule Suc.IH) (use io Suc.prems in auto)
    then show ?thesis
      using send_loop_step [OF os(1) False u c, of n] Suc.prems(4) io(1) by (simp add: Let_def del: send_loop.simps)
  qed
qed simp

end
