(* ===== verification/Ut_Example.thy ===== *)
theory Ut_Example
  imports Ut_Resume Ut_Transfer
begin

text \<open>
  A concrete system and a concrete state, in which the hypotheses of the theorems hold: one
  scheduler with one \<^verbatim>\<open>p\<close>, the uthread 10 running, 11 in the ready queue, and 12 waiting until
  descriptor 7 can be read.
\<close>

subsection \<open>A system\<close>

text \<open>Its state: a clock in microseconds, which every reading advances, and the bytes written.\<close>

type_synonym ex_kern = "nat \<times> nat list"

definition ex_os :: "ex_kern os" where
  "ex_os = \<lparr>os_epoll_create = (\<lambda>k. (3, k)),
     os_epoll_ctl = (\<lambda>p c fd m k. (if 0 \<le> fd then 0 else -1, k)),
     os_epoll_wait = (\<lambda>p t k. ((0, [], 0), k)),
     os_gettimeofday = (\<lambda>(t, out). ((0, of_nat t), Suc t, out)),
     os_malloc = (\<lambda>(t, out). (1000 + t, Suc t, out)),
     os_memalign = (\<lambda>(t, out). ((0, 1000 + t), Suc t, out)),
     os_pthread_create = (\<lambda>k. (0, k)),
     os_pthread_self = (\<lambda>k. 77),
     os_call = (\<lambda>c (t, out). case c of
         SysWrite fd off len \<Rightarrow> let r = min len 4 in ((int r, 0), t, out @ [off..<off + r])
       | SysWritev fd iov \<Rightarrow>
           let bs = concat (map (\<lambda>(b, l). [b..<b + l]) iov) in ((int (length bs), 0), t, out @ bs)
       | SysFcntl fd \<Rightarrow> ((0, 0), t, out)
       | _ \<Rightarrow> ((-1, EAGAIN), t, out)),
     after_free = (\<lambda>u. u)\<rparr>"

subsection \<open>A state\<close>

definition ex_ut :: uthread where
  "ex_ut = zero_uthread\<lparr>status := BIT UT_ST_READY, ut_p := 4, fd_wait := -1\<rparr>"

definition ex_waiter :: uthread where
  "ex_waiter = ex_ut\<lparr>ut_id := 3, status := (BIT UT_ST_READY OR BIT UT_ST_SLEEPING) OR BIT UT_ST_WAIT_RD,
     wakeup_time_usec := 1000100, fd_wait := FD_KEY 7 UT_EVENT_RD\<rparr>"

definition ex_proc :: proc where
  "ex_proc = \<lparr>p_id = 0, tid = 77, p_status = BIT P_ST_RUNNING, ready = [11], sleeping = 12, waiting = 12,
     p_sched = 6, poller_fd = 3, eventlist = [], num_new_events = 0\<rparr>"

definition ex_sched :: sched where
  "ex_sched = \<lparr>sched_id = 0, sched_status = BIT SCHED_ST_RUNNING, sched_stack = NULL, sched_stack_size = STACK_SIZE,
     sched_p = 4, cur_uthread = 10\<rparr>"

definition ex_world :: "ex_kern world" where
  "ex_world = \<lparr>uts = [10 \<mapsto> ex_ut\<lparr>ut_id := 1\<rparr>, 11 \<mapsto> ex_ut\<lparr>ut_id := 2\<rparr>, 12 \<mapsto> ex_waiter],
     ps = [4 \<mapsto> ex_proc], scheds = [6 \<mapsto> ex_sched, 7 \<mapsto> ex_sched\<lparr>sched_id := 1, sched_p := NULL, cur_uthread := NULL\<rparr>],
     glob = zero_glob\<lparr>sched_idle := [7], n_uthread := 3, next_ut_id := 4\<rparr>,
     sleep_mem = [10 \<mapsto> zero_entry, 11 \<mapsto> zero_entry, 12 \<mapsto> zero_entry],
     wait_mem = [10 \<mapsto> zero_entry, 11 \<mapsto> zero_entry, 12 \<mapsto> zero_entry],
     wheel = \<lparr>slot = replicate TIME_WHEEL_SIZE NULL, current = 0, tnodes = Map.empty\<rparr>,
     blocks = Map.empty, words = Map.empty, dead = Map.empty, tsd = 6, errno = 0, spawned = [],
     kern = (100, [])\<rparr>"

lemma rbtree_single: "a \<noteq> NULL \<Longrightarrow> m a = Some zero_entry \<Longrightarrow> rbtree key m a [a]"
  unfolding rbtree_def
  by (rule exI [of _ "Nd RB_BLACK Lf a Lf"]) (simp add: rb_def rbt_ok_def zero_entry_def)

lemma ex_uts:
  "uts ex_world 10 = Some (ex_ut\<lparr>ut_id := 1\<rparr>)" "uts ex_world 11 = Some (ex_ut\<lparr>ut_id := 2\<rparr>)"
  "uts ex_world 12 = Some ex_waiter" "dom (uts ex_world) = {10, 11, 12}"
  by (auto simp: ex_world_def)

lemma ex_lookup:
  "uts ex_world a = Some u \<longleftrightarrow> a = 10 \<and> u = ex_ut\<lparr>ut_id := 1\<rparr> \<or> a = 11 \<and> u = ex_ut\<lparr>ut_id := 2\<rparr> \<or>
     a = 12 \<and> u = ex_waiter"
  by (auto simp: ex_world_def)

lemma ex_bits [simp]:
  "bit (status ex_ut) n \<longleftrightarrow> n = UT_ST_READY"
  "bit (status ex_waiter) n \<longleftrightarrow> n = UT_ST_READY \<or> n = UT_ST_SLEEPING \<or> n = UT_ST_WAIT_RD"
  by (auto simp: ex_ut_def ex_waiter_def)

lemma ex_fields [simp]:
  "ut_p ex_ut = 4" "ut_p ex_waiter = 4" "fd_wait ex_ut = -1" "fd_wait ex_waiter = FD_KEY 7 UT_EVENT_RD"
  "wakeup_time_usec ex_waiter = 1000100" "ut_joined ex_ut = NULL" "stack ex_ut = NULL"
  by (simp_all add: ex_ut_def ex_waiter_def zero_uthread_def)

lemma ex_sets:
  "asleep (uts ex_world) = {12}" "waiters (uts ex_world) = {12}"
  "of_p (uts ex_world) 4 = {10, 11, 12}"
proof -
  have "0 \<le>s FD_KEY 7 0" by (rule wait_key_nonneg) simp_all
  moreover have "\<not> 0 \<le>s (-1 :: 64 word)" by (simp add: word_sle_eq)
  ultimately show "asleep (uts ex_world) = {12}" "waiters (uts ex_world) = {12}" "of_p (uts ex_world) 4 = {10, 11, 12}"
    by (auto simp: asleep_def waiters_def of_p_def ex_lookup)
qed

lemma ex_core: "core {10} {12} ex_world"
proof -
  have "p_ok (uts ex_world) {10} {12} (sleep_mem ex_world) (wait_mem ex_world) 4 ex_proc"
    unfolding p_ok_def ex_sets
  proof (intro conjI exI [of _ "[12]"])
    show "rbtree (skey (uts ex_world)) (sleep_mem ex_world) (sleeping ex_proc) [12]"
      using rbtree_single [of 12 "sleep_mem ex_world"] by (simp add: ex_proc_def ex_world_def)
    show "rbtree (wkey (uts ex_world)) (wait_mem ex_world) (waiting ex_proc) [12]"
      using rbtree_single [of 12 "wait_mem ex_world"] by (simp add: ex_proc_def ex_world_def)
  qed (auto simp: ex_proc_def)
  moreover have "ps ex_world = [4 \<mapsto> ex_proc]" "dom (sleep_mem ex_world) = {10, 11, 12}"
    "dom (wait_mem ex_world) = {10, 11, 12}" by (auto simp: ex_world_def)
  moreover have "ut_p u = 4" if "uts ex_world a = Some u" for a u
    using that by (auto simp: ex_lookup)
  ultimately show ?thesis
    unfolding core_def ex_uts(4) ex_sets by (auto split: if_splits)
qed

lemma ex_inv: "inv_at {10} ex_world"
  using ex_core by (simp add: inv_at_def ex_sets)

lemma ex_current: "current_is 10 ex_world"
  by (simp add: current_is_def ex_world_def ex_sched_def)

lemma ex_now: "os_gettimeofday ex_os (kern ex_world) = ((0, 100), (101, []))"
  by (simp add: ex_os_def ex_world_def)

lemma ex_later: "os_gettimeofday ex_os (kern ex_world) = ((0, 100), (101, []))"
  "os_gettimeofday ex_os (101, []) = ((0, 101), (102, []))"
  by (simp_all add: ex_os_def ex_world_def)

lemma ex_ctl: "0 \<le> fd \<Longrightarrow> os_epoll_ctl ex_os p c fd m k = (0, k)" "os_epoll_ctl ex_os p c (-1) m k = (-1, k)"
  by (simp_all add: ex_os_def)

lemma ex_ps: "ps ex_world 4 = Some ex_proc" "poller_fd ex_proc = 3"
  by (simp_all add: ex_world_def ex_proc_def)

lemma ex_scheds: "scheds ex_world (tsd ex_world) = Some ex_sched" "tsd ex_world = 6" "sched_p ex_sched = 4"
  by (simp_all add: ex_world_def ex_sched_def)

end
