(* ===== verification/Ut_Waiting.thy ===== *)
theory Ut_Waiting
  imports Ut_Example
begin

text \<open>
  The properties of sleeping, of waiting for descriptors and of \<^verbatim>\<open>_uthread_resume\<close>, with the states of
  \<open>Ut_Example\<close> as witnesses.
\<close>

lemma lex_less:
  fixes x y a b m :: int
  assumes "0 \<le> a" "a < m" "0 \<le> b" "b < m"
  shows "x * m + a < y * m + b \<longleftrightarrow> x < y \<or> x = y \<and> a < b"
proof -
  have less: "x * m + a < y * m + b" if "x < y" "0 \<le> b" "a < m" for x y a b :: int
  proof -
    have "(x + 1) * m \<le> y * m" using that(1) assms by (intro mult_right_mono) auto
    then show ?thesis using that(2,3) by (simp add: algebra_simps)
  qed
  show ?thesis using less [of x y b a] less [of y x a b] assms by (cases x y rule: linorder_cases) auto
qed

lemma lex_eq:
  fixes x y a b m :: int
  assumes "0 \<le> a" "a < m" "0 \<le> b" "b < m"
  shows "x * m + a = y * m + b \<longleftrightarrow> x = y \<and> a = b"
  using lex_less [OF assms, of x y] lex_less [OF assms(3,4,1,2), of y x] by auto

text \<open>
  C35: The keys of the waiting tree.  For a descriptor and an event in the range of \<^verbatim>\<open>int\<close>,
  \<^verbatim>\<open>FD_ONLY\<close> and \<^verbatim>\<open>FD_EVENT\<close> read back what \<^verbatim>\<open>FD_KEY\<close> has put together, a key is non-negative
  exactly for a descriptor that is, and \<^verbatim>\<open>_uthread_wait_cmp\<close> orders the keys by descriptor and then
  by event.
\<close>

theorem FD_KEY_keys:
  assumes "- (2 ^ 31) \<le> fd" "fd < 2 ^ 31" "e < 2 ^ 31" "- (2 ^ 31) \<le> fd'" "fd' < 2 ^ 31" "e' < 2 ^ 31"
  shows "FD_ONLY (FD_KEY fd e) = fd \<and> FD_EVENT (FD_KEY fd e) = int e \<and>
    (0 \<le>s FD_KEY fd e \<longleftrightarrow> 0 \<le> fd) \<and>
    (uthread_wait_cmp (FD_KEY fd e) (FD_KEY fd' e') < 0 \<longleftrightarrow> fd < fd' \<or> fd = fd' \<and> e < e') \<and>
    (uthread_wait_cmp (FD_KEY fd e) (FD_KEY fd' e') = 0 \<longleftrightarrow> fd = fd' \<and> e = e')"
proof -
  have s: "sint (FD_KEY fd e) = fd * 2 ^ 32 + int e" "sint (FD_KEY fd' e') = fd' * 2 ^ 32 + int e'"
    by (rule FD_KEY_int; use assms in simp)+
  have e: "0 \<le> int e" "int e < 2 ^ 32" "0 \<le> int e'" "int e' < 2 ^ 32" using assms(3,6) by auto
  note lex = lex_less [OF e] lex_eq [OF e] lex_less [OF e(3,4) e(1,2)]
  have pos: "0 \<le> fd * 2 ^ 32 + int e \<longleftrightarrow> 0 \<le> fd" using lex_less [of "int e" "2 ^ 32" 0 fd 0] e(1,2) by auto
  have zero: "uthread_wait_cmp x y = 0 \<longleftrightarrow> sint x = sint y" for x y
    using wait_cmp_sign [of x y] by linarith
  have "0 \<le>s FD_KEY fd e \<longleftrightarrow> 0 \<le> fd" unfolding word_sle_eq s using pos by simp
  then show ?thesis
    using FD_KEY_roundtrip [OF assms(1-3)] unfolding wait_cmp_sign zero s lex by simp
qed

theorem FD_KEY_keys_witness:
  "FD_ONLY (FD_KEY 7 1) = 7 \<and> FD_EVENT (FD_KEY 7 1) = 1 \<and> uthread_wait_cmp (FD_KEY 7 1) (FD_KEY 8 0) < 0"
  using FD_KEY_keys [of 7 1 8 0] by simp

text \<open>
  C9: \<^verbatim>\<open>_uthread_sched_sleep\<close> on the running uthread, when no other sleeper has the same wake-up time:
  it switches to the scheduler; at that moment the uthread is in the sleeping tree with its
  wake-up time (now plus the timeout) and in no other place, all other uthreads are where they were,
  and the invariant holds with the uthread out of the scheduler's hands.
\<close>

theorem sched_sleep_parks:
  assumes "inv_at (insert ut R) w" "ut \<notin> R" "current_is ut w" "uts w ut = Some u" "\<not> 0 \<le>s fd_wait u"
    and "os_gettimeofday os (kern w) = (now, k)"
    and "\<forall>b \<in> of_p (uts w) (ut_p u) \<inter> asleep (uts w). skey (uts w) b \<noteq> wake_at now ms"
  shows "\<exists>w'. uthread_sched_sleep os ut ms w = Susp ut w' (lift (sleep_leave ut)) \<and> inv_at R w' \<and>
    ut \<in> asleep (uts w') \<and> uts w' = (uts w)(ut \<mapsto> slept (wake_at now ms) u)"
proof -
  have c: "core (insert ut R) (waiters (uts w)) w" using assms(1) by (simp add: inv_at_def)
  obtain w' where w': "uthread_sched_sleep os ut ms w = Susp ut w' (lift (sleep_leave ut))"
    "core R (waiters (uts w)) w'" "uts w' = (uts w)(ut \<mapsto> slept (wake_at now ms) u)"
    using sched_sleep_core [OF c assms(2-4,6,7)] by blast
  have "ut \<notin> waiters (uts w)" using assms(4,5) by (simp add: waiters_def)
  then have "waiters (uts w') = waiters (uts w)"
    using w'(3) waiters_upd [where U = "uts w", OF assms(4)] assms(5) by simp
  moreover have "ut \<in> asleep (uts w')" using w'(3) by (simp add: asleep_def)
  ultimately show ?thesis using w' by (auto simp: inv_at_def)
qed

theorem sched_sleep_parks_witness:
  "\<exists>w' c. uthread_sched_sleep ex_os 10 5 ex_world = Susp 10 w' c \<and> inv_at {} w' \<and>
    10 \<in> asleep (uts w') \<and> uts w' = (uts ex_world)(10 \<mapsto> slept 5100 (ex_ut\<lparr>ut_id := 1\<rparr>))"
proof -
  have "\<exists>w'. uthread_sched_sleep ex_os 10 5 ex_world = Susp 10 w' (lift (sleep_leave 10)) \<and> inv_at {} w' \<and>
    10 \<in> asleep (uts w') \<and> uts w' = (uts ex_world)(10 \<mapsto> slept (wake_at (0, 100) 5) (ex_ut\<lparr>ut_id := 1\<rparr>))"
    by (rule sched_sleep_parks [where R = "{}" and w = ex_world, OF _ _ ex_current ex_uts(1) _ ex_now])
      (use ex_inv in \<open>simp_all add: ex_sets skey_def ex_uts wake_at_def word_sle_eq\<close>)
  moreover have "wake_at (0, 100) 5 = 5100" by (simp add: wake_at_def)
  ultimately show ?thesis by metis
qed

text \<open>
  C37: The assertion of \<^verbatim>\<open>_uthread_sched_sleep\<close> fails and the process aborts when another uthread of
  the same \<^verbatim>\<open>p\<close> sleeps until exactly the same microsecond.
\<close>

theorem sched_sleep_same_time_aborts:
  assumes "inv_at (insert ut R) w" "uts w ut = Some u" "os_gettimeofday os (kern w) = (now, k)"
    and "b \<in> of_p (uts w) (ut_p u)" "b \<in> asleep (uts w)" "skey (uts w) b = wake_at now ms"
  shows "uthread_sched_sleep os ut ms w = Fail AssertFail"
proof -
  have "core (insert ut R) (waiters (uts w)) w" using assms(1) by (simp add: inv_at_def)
  from sleep_enter_same_time [OF this assms(2,3) _ assms(6)] assms(4,5)
  have "sleep_enter os ut ms w = Inl AssertFail" by simp
  then show ?thesis by (simp add: uthread_sched_sleep_def lift_run)
qed

theorem sched_sleep_same_time_aborts_witness:
  "uthread_sched_sleep ex_os 10 1000 ex_world = Fail AssertFail"
  by (rule sched_sleep_same_time_aborts [where R = "{}" and b = 12, OF _ ex_uts(1) ex_now])
    (use ex_inv in \<open>simp_all add: ex_sets skey_def ex_uts wake_at_def\<close>)

text \<open>
  C8: \<^verbatim>\<open>_register_event\<close> on the running uthread, when \<^verbatim>\<open>epoll_ctl\<close> accepts the descriptor and no uthread
  of the \<^verbatim>\<open>p\<close> has the same key or wake-up time: it switches to the scheduler with the uthread in both
  trees, under the key of the descriptor and the event and the wake-up time, and the invariant
  holds.
\<close>

theorem register_event_parks:
  assumes "inv_at (insert ut R) w" "ut \<notin> R" "current_is ut w" "uts w ut = Some u"
    and "scheds w (tsd w) = Some sc" "ps w (sched_p sc) = Some qs" "sched_p sc \<noteq> NULL"
    and "0 \<le> fd" "fd < 2 ^ 31" "e < 2"
    and "os_epoll_ctl os (poller_fd qs) EPOLL_CTL_ADD fd (event_mask e) (kern w) = (0, k1)"
    and "\<forall>b \<in> of_p (uts w) (ut_p u) \<inter> waiters (uts w). wkey (uts w) b \<noteq> sint (FD_KEY fd e)"
    and "os_gettimeofday os k1 = (now, k2)"
    and "\<forall>b \<in> of_p (uts w) (ut_p u) \<inter> asleep (uts w). skey (uts w) b \<noteq> wake_at now ms"
  shows "\<exists>w' c. register_event os ut fd e ms w = Susp ut w' c \<and> inv_at R w' \<and> ut \<in> waiters (uts w') \<and>
    uts w' = (uts w)(ut \<mapsto> slept (wake_at now ms) (registered fd e u))"
proof -
  obtain w' c where w': "register_event os ut fd e ms w = Susp ut w' c" "inv_at R w'"
    "uts w' = (uts w)(ut \<mapsto> slept (wake_at now ms) (registered fd e u))"
    using register_event_core [OF assms] by blast
  have "0 \<le>s FD_KEY fd e" by (rule wait_key_nonneg) (use assms(8-10) in auto)
  then have "ut \<in> waiters (uts w')" unfolding w'(3) by (simp add: waiters_def)
  with w' show ?thesis by blast
qed

theorem register_event_parks_witness:
  "\<exists>w' c. register_event ex_os 10 7 UT_EVENT_WR 0 ex_world = Susp 10 w' c \<and> inv_at {} w' \<and> 10 \<in> waiters (uts w')"
proof -
  have k: "sint (FD_KEY 7 0) = 7 * 2 ^ 32" "sint (FD_KEY 7 (Suc 0)) = 7 * 2 ^ 32 + 1"
    using FD_KEY_int [of 7 0] FD_KEY_int [of 7 1] by simp_all
  have "\<exists>w' c. register_event ex_os 10 7 UT_EVENT_WR 0 ex_world = Susp 10 w' c \<and> inv_at {} w' \<and>
    10 \<in> waiters (uts w') \<and>
    uts w' = (uts ex_world)(10 \<mapsto> slept (wake_at (0, 100) 0) (registered 7 1 (ex_ut\<lparr>ut_id := 1\<rparr>)))"
    by (rule register_event_parks [where R = "{}" and w = ex_world and sc = ex_sched and qs = ex_proc
          and ?k1.0 = "kern ex_world" and ?k2.0 = "(101, [])", OF _ _ ex_current ex_uts(1) ex_scheds(1)])
      (use ex_inv in \<open>simp_all add: ex_sets ex_scheds ex_ps skey_def wkey_def ex_uts wake_at_def k ex_ctl ex_later\<close>)
  then show ?thesis by blast
qed

text \<open>
  \<^verbatim>\<open>_uthread_desched_event\<close> when no uthread of the \<^verbatim>\<open>p\<close> waits for the descriptor and the event: it
  returns the null pointer and changes nothing.
\<close>

theorem desched_event_nobody:
  assumes "inv_at R w" "scheds w (tsd w) = Some sc" "tsd w \<noteq> NULL" "ps w (sched_p sc) = Some q"
    and "\<forall>a u. uts w a = Some u \<and> ut_p u = sched_p sc \<and> a \<in> waiters (uts w) \<longrightarrow> fd_wait u \<noteq> FD_KEY fd e"
  shows "uthread_desched_event fd e w = Inr (NULL, w)"
proof -
  have c: "core R (waiters (uts w)) w" using assms(1) by (simp add: inv_at_def)
  have p: "sched_p sc \<noteq> NULL" using core_parts(2) [OF c] assms(4) by (metis domI)
  have "\<forall>a \<in> of_p (uts w) (sched_p sc) \<inter> waiters (uts w). wkey (uts w) a \<noteq> sint (FD_KEY fd e)"
    using assms(5) by (auto simp: of_p_def wkey_def simp flip: word_eq_iff_signed)
  from desched_event_none [OF c assms(2,3,4) p this] show ?thesis .
qed

theorem desched_event_nobody_witness:
  "uthread_desched_event 7 UT_EVENT_WR ex_world = Inr (NULL, ex_world)"
proof (rule desched_event_nobody [OF ex_inv ex_scheds(1)])
  have "sint (FD_KEY 7 0) \<noteq> sint (FD_KEY 7 1)" using FD_KEY_int [of 7 0] FD_KEY_int [of 7 1] by simp
  then have "FD_KEY 7 0 \<noteq> FD_KEY 7 1" by auto
  then show "\<forall>a u. uts ex_world a = Some u \<and> ut_p u = sched_p ex_sched \<and> a \<in> waiters (uts ex_world) \<longrightarrow>
      fd_wait u \<noteq> FD_KEY 7 UT_EVENT_WR"
    by (auto simp: ex_lookup ex_sets)
qed (use ex_scheds ex_ps in simp_all)

text \<open>
  C2: \<^verbatim>\<open>_uthread_resume\<close> keeps the invariant: the uthread is in the scheduler's hands before, and in its
  queue, in the sleeping tree or freed after, provided that its code, resumed in a state with the
  invariant, gives control back in a state from which the scheduler can go on (\<open>may_switch\<close>).
\<close>

theorem uthread_resume_keeps_inv:
  assumes "inv_at (insert ut R) w" "ut \<notin> R" "uts w ut = Some u"
    and "tsd w \<noteq> NULL" "scheds w (tsd w) = Some sc"
    and "os_malloc os (kern w) = (n, kn)" "add_timer 1 ut n (wheel w) = Inr wh"
    and "(if bit (status u) UT_ST_NEW then Some (uthread_exec prog ut) else k ut) = Some c"
    and "\<And>w1. inv_at (insert ut R) w1 \<Longrightarrow> current_is ut w1 \<Longrightarrow> tsd w1 = tsd w \<Longrightarrow>
      uts w1 = (uts w)(ut \<mapsto> started u) \<Longrightarrow> ps w1 = ps w \<Longrightarrow>
      scheds w1 = (scheds w)(tsd w \<mapsto> sc\<lparr>cur_uthread := ut\<rparr>) \<Longrightarrow> glob w1 = glob w \<Longrightarrow> blocks w1 = blocks w \<Longrightarrow>
      \<exists>w2 c'. c w1 = Susp ut w2 c' \<and> may_switch os (tsd w) R ut w2"
  shows "\<exists>w' c'. uthread_resume os prog ut (w, k) = Inr (0, w', k(ut \<mapsto> c')) \<and> inv_at R w'"
  using uthread_resume_inv [where ut = ut and R = R and w = w and u = u and k = k and c = c and prog = prog] assms
  by blast

lemma ex_yield_may_switch:
  assumes "inv_at {10} w" "current_is 10 w" "tsd w = 6" "uts w 10 = Some u" "ut_p u = 4"
    and "\<not> bit (status u) UT_ST_EXITED" "\<not> bit (status u) UT_ST_SLEEPING" "scheds w 6 = Some sc" "sched_p sc = 4"
  shows "\<exists>w2 c'. uthread_yield w = Susp 10 w2 c' \<and> may_switch os 6 {} 10 w2"
proof -
  let ?u = "u\<lparr>is_wating_yield_signal := 0\<rparr>"
  let ?w = "w\<lparr>uts := (uts w)(10 \<mapsto> ?u)\<rparr>"
  have like: "like u ?u" by (simp add: like_def)
  have "core {10} (waiters (uts w)) w" using assms(1) by (simp add: inv_at_def)
  from core_like [OF this assms(4) like] have "inv_at {10} ?w"
    using like_upd(6) [where U = "uts w", OF assms(4) like] by (simp add: inv_at_def)
  then have "may_switch os 6 {} 10 ?w" using assms by (simp add: may_switch_def)
  then show ?thesis using yield_suspends [OF assms(2,4)] by blast
qed

theorem uthread_resume_keeps_inv_witness:
  "\<exists>w' c'. uthread_resume ex_os (\<lambda>_ _. uthread_yield) 10 (ex_world, [10 \<mapsto> uthread_yield]) =
    Inr (0, w', [10 \<mapsto> c']) \<and> inv_at {} w'"
proof -
  let ?wh = "\<lparr>slot = (replicate TIME_WHEEL_SIZE NULL)[1 := 1100], current = 0,
    tnodes = [1100 \<mapsto> \<lparr>nxt = NULL, rotation = 0, tn_ut = 10\<rparr>]\<rparr>"
  have "\<exists>w' c'. uthread_resume ex_os (\<lambda>_ _. uthread_yield) 10 (ex_world, [10 \<mapsto> uthread_yield]) =
    Inr (0, w', [10 \<mapsto> uthread_yield](10 \<mapsto> c')) \<and> inv_at {} w'"
  proof (rule uthread_resume_keeps_inv [where R = "{}" and c = uthread_yield and wh = ?wh, OF _ _ ex_uts(1) _ ex_scheds(1)])
    show "os_malloc ex_os (kern ex_world) = (1100, (101, []))" by (simp add: ex_os_def ex_world_def)
    show "add_timer 1 10 1100 (wheel ex_world) = Inr ?wh"
      by (simp add: add_timer_def ex_world_def c_int_def TIME_WHEEL_SIZE_def Let_def smod_nonneg sdiv_nonneg)
    fix w1 :: "ex_kern world"
    assume w1: "inv_at {10} w1" "current_is 10 w1" "tsd w1 = tsd ex_world"
      "uts w1 = (uts ex_world)(10 \<mapsto> started (ex_ut\<lparr>ut_id := 1\<rparr>))" "ps w1 = ps ex_world"
      "scheds w1 = (scheds ex_world)(tsd ex_world \<mapsto> ex_sched\<lparr>cur_uthread := 10\<rparr>)"
    have st: "started (ex_ut\<lparr>ut_id := 1\<rparr>) = ex_ut\<lparr>ut_id := 1, is_wating_yield_signal := 1\<rparr>"
      by (simp add: started_def)
    show "\<exists>w2 c'. uthread_yield w1 = Susp 10 w2 c' \<and> may_switch ex_os (tsd ex_world) {} 10 w2"
      unfolding ex_scheds(2)
      by (rule ex_yield_may_switch [where u = "ex_ut\<lparr>ut_id := 1, is_wating_yield_signal := 1\<rparr>" and
            sc = "ex_sched\<lparr>cur_uthread := 10\<rparr>", OF w1(1,2)])
        (use w1(3-6) st in \<open>simp_all add: ex_scheds\<close>)
  qed (use ex_inv in \<open>simp_all add: ex_scheds\<close>)
  then show ?thesis by simp
qed

end
