(* ===== verification/Ut_Life.thy ===== *)
theory Ut_Life
  imports Ut_Waiting
begin

text \<open>
  The properties of the life cycle of a uthread: the start of the runtime, creation, exit, joining,
  and the hand-over of the \<^verbatim>\<open>p\<close> for disk operations.
\<close>

subsection \<open>Creation\<close>

definition new_uthread :: "nat \<Rightarrow> ptr \<Rightarrow> ptr \<Rightarrow> ptr \<Rightarrow> ptr \<Rightarrow> uthread" where
  "new_uthread i p f a stk = zero_uthread\<lparr>ut_id := i, stack := stk, stack_size := STACK_SIZE,
     status := BIT UT_ST_NEW, func := f, arg := a, ut_p := p, fd_wait := -1, is_wating_yield_signal := 1\<rparr>"

lemma new_uthread_simps [simp]:
  "ut_p (new_uthread i p f a stk) = p" "fd_wait (new_uthread i p f a stk) = -1"
  "bit (status (new_uthread i p f a stk)) n \<longleftrightarrow> n = UT_ST_NEW" "ut_joined (new_uthread i p f a stk) = NULL"
  by (simp_all add: new_uthread_def zero_uthread_def)

lemma waiters_new:
  "U a = None \<Longrightarrow> \<not> bit (status u) UT_ST_SLEEPING \<Longrightarrow> waiters (U(a \<mapsto> u)) = waiters U"
  by (auto simp: waiters_def)

lemma waiters_none: "\<not> a \<in> waiters U \<Longrightarrow> waiters (U(a := None)) = waiters U"
  by (auto simp: waiters_def)

text \<open>The state in which \<open>create_ut\<close> asks for the stack.\<close>

lemma create_ut_start:
  assumes "os_malloc os (kern w) = (a, k1)" "a \<noteq> NULL" "next_ut_id (glob w) < MAX_COUNT_UTHREAD"
    and "os_memalign os k1 = ((r, stk), k2)"
  shows "\<exists>w1. create_ut os s f ar w =
      (if r \<noteq> 0 then oseq (free_uthread a) (oret (-1, NULL))
       else
         oseq (oupd (\<lambda>w. w\<lparr>blocks := (blocks w)(stk \<mapsto> STACK_SIZE)\<rparr>))
         (obind (s_get s) (\<lambda>sc.
          oseq (ut_upd a (\<lambda>u. u\<lparr>stack := stk, stack_size := STACK_SIZE, status := BIT UT_ST_NEW,
            func := f, arg := ar, is_main := 0, wakeup_time_usec := 0, ut_joined := NULL,
            ut_p := sched_p sc, fd_wait := -1, is_wating_yield_signal := 1\<rparr>))
         (oseq (p_upd (sched_p sc) (\<lambda>q. q\<lparr>ready := ready q @ [a]\<rparr>))
         (oret (0, a)))))) w1 \<and>
    w1 = w\<lparr>sleep_mem := (sleep_mem w)(a \<mapsto> zero_entry), wait_mem := (wait_mem w)(a \<mapsto> zero_entry),
      uts := (uts w)(a \<mapsto> zero_uthread\<lparr>ut_id := next_ut_id (glob w)\<rparr>),
      glob := (glob w)\<lparr>n_uthread := n_uthread (glob w) + 1,
        bitmap_ut := (bitmap_ut (glob w))(next_ut_id (glob w) := 1),
        next_ut_id := bump_id (next_ut_id (glob w))\<rparr>, kern := k2\<rparr>"
  using assms
  by (simp add: create_ut_def calloc_uthread_def op_simps count_uthread_def set_bitmap_ut_def oget_run
      del: bump_id.simps cong: if_cong)

lemma create_ut_core:
  assumes inv: "inv_at R w" and a: "os_malloc os (kern w) = (a, k1)" "a \<noteq> NULL" "uts w a = None"
    and id: "next_ut_id (glob w) < MAX_COUNT_UTHREAD"
    and stk: "os_memalign os k1 = ((0, stk), k2)"
    and s: "s \<noteq> NULL" "scheds w s = Some sc" "ps w (sched_p sc) = Some q"
  shows "\<exists>w'. create_ut os s f ar w = Inr ((0, a), w') \<and> inv_at R w' \<and>
    uts w' = (uts w)(a \<mapsto> new_uthread (next_ut_id (glob w)) (sched_p sc) f ar stk) \<and>
    ps w' = (ps w)(sched_p sc \<mapsto> q\<lparr>ready := ready q @ [a]\<rparr>) \<and>
    n_uthread (glob w') = n_uthread (glob w) + 1 \<and> blocks w' = (blocks w)(stk \<mapsto> STACK_SIZE) \<and>
    next_ut_id (glob w') = bump_id (next_ut_id (glob w)) \<and> sched_with_stack (glob w') = sched_with_stack (glob w) \<and>
    scheds w' = scheds w \<and> tsd w' = tsd w \<and> kern w' = k2 \<and> wheel w' = wheel w"
proof -
  let ?p = "sched_p sc" and ?i = "next_ut_id (glob w)" and ?W = "waiters (uts w)"
  let ?u = "new_uthread ?i ?p f ar stk"
  have c: "core R ?W w" using inv by (simp add: inv_at_def)
  have p: "?p \<noteq> NULL" using core_parts(2) [OF c] s(3) by (metis domI)
  let ?w1 = "w\<lparr>uts := (uts w)(a \<mapsto> ?u), sleep_mem := (sleep_mem w)(a \<mapsto> zero_entry),
      wait_mem := (wait_mem w)(a \<mapsto> zero_entry)\<rparr>"
  have c1: "core (insert a R) ?W ?w1"
    by (rule core_new [OF c a(2,3)]) (use s(3) in auto)
  have aR: "a \<notin> R" using core_parts(5) [OF c] a(3) by auto
  let ?w2 = "?w1\<lparr>ps := (ps w)(?p \<mapsto> q\<lparr>ready := ready q @ [a]\<rparr>)\<rparr>"
  have c2: "core R ?W ?w2" using core_ready [OF c1 aR, of ?u q] s(3) by simp
  let ?w3 = "?w2\<lparr>kern := k2, blocks := (blocks w)(stk \<mapsto> STACK_SIZE),
      glob := (glob w)\<lparr>n_uthread := n_uthread (glob w) + 1, bitmap_ut := (bitmap_ut (glob w))(?i := 1),
        next_ut_id := bump_id ?i\<rparr>\<rparr>"
  have run: "create_ut os s f ar w = Inr ((0, a), ?w3)"
    using create_ut_start [OF a(1,2) id stk, of s f ar] s p a(2)
    by (auto simp: op_simps new_uthread_def zero_uthread_def del: bump_id.simps)
  have "inv_at R ?w3"
    using core_fields [OF c2, of ?w3] waiters_new [of "uts w" a ?u] a(3) by (simp add: inv_at_def)
  with run show ?thesis by (intro exI [of _ ?w3]) (simp del: bump_id.simps)
qed

text \<open>When there is no memory for the stack: the structure is gone again, the count is not.\<close>

lemma create_ut_no_stack:
  assumes inv: "inv_at R w" and a: "os_malloc os (kern w) = (a, k1)" "a \<noteq> NULL" "uts w a = None"
    and id: "next_ut_id (glob w) < MAX_COUNT_UTHREAD"
    and stk: "os_memalign os k1 = ((r, stk), k2)" "r \<noteq> 0"
  shows "\<exists>w'. create_ut os s f ar w = Inr ((-1, NULL), w') \<and> inv_at R w' \<and> uts w' = uts w \<and> ps w' = ps w \<and>
    n_uthread (glob w') = n_uthread (glob w) + 1"
proof -
  have c: "core R (waiters (uts w)) w" using inv by (simp add: inv_at_def)
  have none: "sleep_mem w a = None" "wait_mem w a = None" using core_parts(3,4) [OF c] a(3) by blast+
  let ?w = "w\<lparr>kern := k2, dead := (dead w)(a \<mapsto> zero_uthread\<lparr>ut_id := next_ut_id (glob w)\<rparr>),
    glob := (glob w)\<lparr>n_uthread := n_uthread (glob w) + 1,
        bitmap_ut := (bitmap_ut (glob w))(next_ut_id (glob w) := 1),
        next_ut_id := bump_id (next_ut_id (glob w))\<rparr>\<rparr>"
  have "create_ut os s f ar w = Inr ((-1, NULL), ?w)"
    using create_ut_start [OF a(1,2) id stk(1), of s f ar] stk(2) a none
    by (auto simp: op_simps free_uthread_def fun_upd_idem del: bump_id.simps)
  moreover have "inv_at R ?w" using core_fields [OF c, of ?w] by (simp add: inv_at_def)
  ultimately show ?thesis by (intro exI [of _ ?w]) (simp del: bump_id.simps)
qed

lemma create_runs:
  "tsd w \<noteq> NULL \<Longrightarrow> create_ut os (tsd w) f ar w = Inr (x, w') \<Longrightarrow> uthread_create os f ar w = Ret x w'"
  by (simp add: uthread_create_def sched_get_def get_co lift_run(3))

text \<open>
  C7: \<^verbatim>\<open>uthread_create\<close> on a running runtime, with memory for the structure and the stack: it returns 0
  and the new uthread, which has the next id, the function and the argument and is the last one
  in the ready queue of the caller's \<^verbatim>\<open>p\<close>; the count of uthreads grows by one, no other uthread
  changes, and the invariant holds.
\<close>

theorem uthread_create_readies:
  assumes "inv_at R w" "tsd w \<noteq> NULL" "scheds w (tsd w) = Some sc" "ps w (sched_p sc) = Some q"
    and "os_malloc os (kern w) = (a, k1)" "a \<noteq> NULL" "uts w a = None"
    and "next_ut_id (glob w) < MAX_COUNT_UTHREAD" "os_memalign os k1 = ((0, stk), k2)"
  shows "\<exists>w'. uthread_create os f ar w = Ret (0, a) w' \<and> inv_at R w' \<and>
    uts w' = (uts w)(a \<mapsto> new_uthread (next_ut_id (glob w)) (sched_p sc) f ar stk) \<and>
    ps w' = (ps w)(sched_p sc \<mapsto> q\<lparr>ready := ready q @ [a]\<rparr>) \<and>
    n_uthread (glob w') = n_uthread (glob w) + 1"
  using create_ut_core [OF assms(1,5-9) assms(2-4), of f ar] create_runs [OF assms(2), of os f ar] by blast

theorem uthread_create_readies_witness:
  "\<exists>w'. uthread_create ex_os 55 66 ex_world = Ret (0, 1100) w' \<and> inv_at {10} w' \<and>
    uts w' 1100 = Some (new_uthread 4 4 55 66 1101) \<and> ready (the (ps w' 4)) = [11, 1100]"
proof -
  have "\<exists>w'. uthread_create ex_os 55 66 ex_world = Ret (0, 1100) w' \<and> inv_at {10} w' \<and>
    uts w' = (uts ex_world)(1100 \<mapsto> new_uthread (next_ut_id (glob ex_world)) (sched_p ex_sched) 55 66 1101) \<and>
    ps w' = (ps ex_world)(sched_p ex_sched \<mapsto> ex_proc\<lparr>ready := ready ex_proc @ [1100]\<rparr>) \<and>
    n_uthread (glob w') = n_uthread (glob ex_world) + 1"
    by (rule uthread_create_readies [where ?k1.0 = "(101, [])" and ?k2.0 = "(102, [])", OF ex_inv _ ex_scheds(1)])
      (simp_all add: ex_scheds(2,3) ex_ps, simp_all add: ex_os_def ex_world_def MAX_COUNT_UTHREAD_def)
  then show ?thesis by (force simp: ex_scheds ex_proc_def ex_world_def)
qed

text \<open>
  C40: \<^verbatim>\<open>uthread_create\<close> without memory for the stack: it returns -1, no uthread and no queue has changed
  and the invariant holds, but the count of uthreads has grown by one all the same, so that the
  scheduler never again finds it at 0.
\<close>

theorem uthread_create_no_stack:
  assumes "inv_at R w" "tsd w \<noteq> NULL" "os_malloc os (kern w) = (a, k1)" "a \<noteq> NULL" "uts w a = None"
    and "next_ut_id (glob w) < MAX_COUNT_UTHREAD" "os_memalign os k1 = ((r, stk), k2)" "r \<noteq> 0"
  shows "\<exists>w'. uthread_create os f ar w = Ret (-1, NULL) w' \<and> inv_at R w' \<and> uts w' = uts w \<and> ps w' = ps w \<and>
    n_uthread (glob w') = n_uthread (glob w) + 1"
  using create_ut_no_stack [OF assms(1,3-8), of "tsd w" f ar] create_runs [OF assms(2), of os f ar] by blast

theorem uthread_create_no_stack_witness:
  "\<exists>w'. uthread_create (ex_os\<lparr>os_memalign := \<lambda>k. ((12, NULL), k)\<rparr>) 55 66 ex_world = Ret (-1, NULL) w' \<and>
    uts w' = uts ex_world \<and> n_uthread (glob w') = 4"
proof -
  have "\<exists>w'. uthread_create (ex_os\<lparr>os_memalign := \<lambda>k. ((12, NULL), k)\<rparr>) 55 66 ex_world = Ret (-1, NULL) w' \<and>
    inv_at {10} w' \<and> uts w' = uts ex_world \<and> ps w' = ps ex_world \<and> n_uthread (glob w') = n_uthread (glob ex_world) + 1"
    by (rule uthread_create_no_stack [where a = 1100 and ?k1.0 = "(101, [])", OF ex_inv])
      (simp_all add: ex_scheds(2), simp_all add: ex_os_def ex_world_def MAX_COUNT_UTHREAD_def)
  moreover have "n_uthread (glob ex_world) + 1 = 4" by (simp add: ex_world_def)
  ultimately show ?thesis by metis
qed

lemma bump_id_eq:
  "bump_id n = (let m = (n + 1) mod MAX_COUNT_UTHREAD in if m = 1 then 2 else m)"
proof -
  have "bump_id 1 = 2" by (subst bump_id.simps) (simp add: MAX_COUNT_UTHREAD_def)
  then show ?thesis by (subst bump_id.simps) (auto simp: Let_def simp del: bump_id.simps)
qed

lemma bump_id_less: "bump_id n < MAX_COUNT_UTHREAD"
  by (simp add: bump_id_eq Let_def MAX_COUNT_UTHREAD_def del: bump_id.simps)

lemma bump_id_run: "1 \<le> n \<Longrightarrow> n + k < MAX_COUNT_UTHREAD \<Longrightarrow> (bump_id ^^ k) n = n + k"
  by (induction k) (simp_all add: bump_id_eq Let_def del: bump_id.simps)

text \<open>
  The ids: the loop of \<^verbatim>\<open>uthread_create\<close> always ends with an id in range other than 1, it runs
  through all the others in order, and as it does not look at the bitmap it comes back to an id
  after \<^verbatim>\<open>MAX_COUNT_UTHREAD - 1\<close> creations whether or not the uthread with the id still exists.
\<close>

theorem ids_cycle:
  assumes "2 \<le> n" "n < MAX_COUNT_UTHREAD"
  shows "bump_id n < MAX_COUNT_UTHREAD \<and> bump_id n \<noteq> 1 \<and>
    (n + 1 < MAX_COUNT_UTHREAD \<longrightarrow> bump_id n = n + 1) \<and> (bump_id ^^ (MAX_COUNT_UTHREAD - 1)) n = n"
proof -
  let ?M = MAX_COUNT_UTHREAD
  have M: "2 < ?M" by (simp add: MAX_COUNT_UTHREAD_def)
  have to_top: "(bump_id ^^ (?M - 1 - n)) n = ?M - 1" using bump_id_run [of n "?M - 1 - n"] assms by simp
  have over: "bump_id (?M - 1) = 0" "bump_id 0 = 2" using M by (simp_all add: bump_id_eq Let_def)
  have from2: "(bump_id ^^ (n - 2)) 2 = n" using bump_id_run [of 2 "n - 2"] assms by simp
  have "?M - 1 = (n - 2) + (Suc (Suc (?M - 1 - n)))" using assms by simp
  then have "(bump_id ^^ (?M - 1)) n = (bump_id ^^ (n - 2)) (bump_id (bump_id ((bump_id ^^ (?M - 1 - n)) n)))"
    by (metis comp_apply funpow.simps(2) funpow_add)
  then have "(bump_id ^^ (?M - 1)) n = n" unfolding to_top over from2 .
  moreover have "bump_id n < ?M" "bump_id n \<noteq> 1" "n + 1 < ?M \<longrightarrow> bump_id n = n + 1"
    using M assms(1) by (simp_all add: bump_id_eq Let_def del: bump_id.simps)
  ultimately show ?thesis by blast
qed

theorem ids_cycle_witness:
  "bump_id 5 = 6 \<and> (bump_id ^^ (MAX_COUNT_UTHREAD - 1)) 5 = 5"
  using ids_cycle [of 5] by (simp add: MAX_COUNT_UTHREAD_def del: bump_id.simps)

end
