(* ===== verification/Ut_Boot.thy ===== *)
theory Ut_Boot
  imports Ut_Life
begin

text \<open>
  The start of the runtime: \<^verbatim>\<open>_runtime_init\<close> establishes the invariant, and the first \<^verbatim>\<open>uthread_create\<close>
  makes the running code a uthread and switches to the scheduler.
\<close>

text \<open>The state of the program before its first call of the library: the static arrays and no uthread.\<close>

definition unstarted :: "'k world \<Rightarrow> bool" where
  "unstarted w \<longleftrightarrow> uts w = Map.empty \<and> sleep_mem w = Map.empty \<and> wait_mem w = Map.empty \<and> tsd w = NULL \<and>
     all_sched ` {..<MAX_PROCS} \<subseteq> dom (scheds w) \<and> dom (ps w) = all_p ` {..<MAX_PROCS}"

definition empty_p :: "proc \<Rightarrow> bool" where
  "empty_p q \<longleftrightarrow> ready q = [] \<and> sleeping q = NULL \<and> waiting q = NULL"

text \<open>After \<open>i\<close> turns of the loop of \<^verbatim>\<open>_runtime_init\<close>.\<close>

definition inited :: "nat \<Rightarrow> 'k world \<Rightarrow> bool" where
  "inited i w \<longleftrightarrow> unstarted w \<and> sched_idle (glob w) = map all_sched [0..<i] \<and>
     p_idle (glob w) = map all_p [0..<i] \<and> (\<forall>j < i. \<exists>q. ps w (all_p j) = Some q \<and> empty_p q) \<and>
     next_ut_id (glob w) = 0"

lemma all_p_simps [simp]: "all_p i = all_p j \<longleftrightarrow> i = j" "all_p i \<noteq> NULL" "all_sched i = all_sched j \<longleftrightarrow> i = j"
  "all_sched i \<noteq> NULL"
  by (auto simp: all_p_def all_sched_def)

lemma inited_turn:
  assumes "inited i w" "i < MAX_PROCS" "\<And>k. fst (os_malloc os k) \<noteq> NULL"
  shows "\<exists>w'. runtime_init_turn os i w = Inr (True, w') \<and> inited (Suc i) w' \<and>
    n_uthread (glob w') = n_uthread (glob w) \<and> wheel w' = wheel w \<and>
    (\<exists>a sc. os_malloc os (kern w) = (a, kern w') \<and> blocks w' = (blocks w)(a \<mapsto> STACK_SIZE) \<and>
      scheds w' = (scheds w)(all_sched i \<mapsto> sc) \<and> sched_stack sc = a \<and>
      sched_with_stack (glob w') = sched_with_stack (glob w) @ [all_sched i])"
proof -
  obtain a k where a: "os_malloc os (kern w) = (a, k)" "a \<noteq> NULL" using assms(3) by (metis fst_conv surj_pair)
  have d: "all_sched i \<in> dom (scheds w)" "all_p i \<in> dom (ps w)"
    using assms(1,2) by (auto simp: inited_def unstarted_def)
  then obtain sc q where sq: "scheds w (all_sched i) = Some sc" "ps w (all_p i) = Some q" by auto
  let ?q = "q\<lparr>p_id := int i, p_status := BIT P_ST_IDLE, tid := os_pthread_self os k, ready := [],
    sleeping := RB_INIT, waiting := RB_INIT\<rparr>"
  let ?w = "w\<lparr>kern := k, blocks := (blocks w)(a \<mapsto> STACK_SIZE),
    scheds := (scheds w)(all_sched i \<mapsto> sc\<lparr>sched_stack := a, sched_id := int i, sched_status := BIT SCHED_ST_IDLE,
      sched_stack_size := STACK_SIZE\<rparr>),
    ps := (ps w)(all_p i \<mapsto> ?q),
    glob := (glob w)\<lparr>bitmap_sched := (bitmap_sched (glob w))(i := 1), sched_idle := sched_idle (glob w) @ [all_sched i],
      sched_with_stack := sched_with_stack (glob w) @ [all_sched i], p_idle := p_idle (glob w) @ [all_p i]\<rparr>\<rparr>"
  have run: "runtime_init_turn os i w = Inr (True, ?w)"
    using a sq by (simp add: runtime_init_turn_def op_simps)
  have "empty_p ?q" by (simp add: empty_p_def RB_INIT_def)
  then have "\<exists>q. ps ?w (all_p j) = Some q \<and> empty_p q" if "j < Suc i" for j
    using that assms(1) by (cases "j = i") (auto simp: inited_def less_Suc_eq)
  moreover have "unstarted ?w" using assms(1) d by (auto simp: inited_def unstarted_def insert_absorb)
  ultimately have "inited (Suc i) ?w" using assms(1) by (simp add: inited_def)
  with run a(1) show ?thesis by (intro exI [of _ ?w]) (auto intro!: exI)
qed

lemma inited_loop:
  assumes "\<And>k. fst (os_malloc os k) \<noteq> NULL"
  shows "inited i w \<Longrightarrow> i + n \<le> MAX_PROCS \<Longrightarrow>
    \<exists>w'. runtime_init_loop os i n w = Inr (True, w') \<and> inited (i + n) w' \<and> n_uthread (glob w') = n_uthread (glob w) \<and>
      wheel w' = wheel w"
proof (induction n arbitrary: i w)
  case 0
  then show ?case by (simp add: op_simps)
next
  case (Suc n)
  obtain w1 where w1: "runtime_init_turn os i w = Inr (True, w1)" "inited (Suc i) w1"
    "n_uthread (glob w1) = n_uthread (glob w)" "wheel w1 = wheel w"
    using inited_turn [OF Suc.prems(1) _ assms] Suc.prems(2) by auto
  with Suc.IH [of "Suc i" w1] Suc.prems(2) show ?case by (auto simp: op_simps)
qed

lemma empty_core:
  assumes "uts w = Map.empty" "sleep_mem w = Map.empty" "wait_mem w = Map.empty" "NULL \<notin> dom (ps w)"
    and "\<And>p q. ps w p = Some q \<Longrightarrow> empty_p q"
  shows "inv_at {} w"
proof -
  have e: "of_p Map.empty p = {}" "asleep Map.empty = {}" "waiters Map.empty = {}" for p
    by (auto simp: of_p_def asleep_def waiters_def)
  have "p_ok Map.empty {} {} Map.empty Map.empty p q" if "ps w p = Some q" for p q
    using assms(5) [OF that] by (auto simp: p_ok_def empty_p_def e intro: exI [of _ "[]"] rbtree_empty)
  then show ?thesis using assms(1-4) by (simp add: inv_at_def core_def e)
qed

text \<open>The outcome of \<^verbatim>\<open>_runtime_init\<close>: the first scheduler has the first \<^verbatim>\<open>p\<close>, the others are idle.\<close>

definition booted :: "'k world \<Rightarrow> bool" where
  "booted w \<longleftrightarrow> inv_at {} w \<and> uts w = Map.empty \<and> tsd w = all_sched 0 \<and>
     (\<exists>sc. scheds w (all_sched 0) = Some sc \<and> sched_p sc = all_p 0) \<and>
     (\<exists>q. ps w (all_p 0) = Some q \<and> empty_p q \<and> p_sched q = all_sched 0) \<and>
     sched_idle (glob w) = map all_sched [1..<MAX_PROCS] \<and> p_idle (glob w) = map all_p [1..<MAX_PROCS] \<and>
     next_ut_id (glob w) = 0"

lemma runtime_init_after_loop:
  assumes w1: "runtime_init_loop os 0 MAX_PROCS (w\<lparr>glob := (glob w)\<lparr>sched_idle := [], sched_with_stack := [], bitmap_sched := (\<lambda>_. 0),
       next_sched_id := MAX_PROCS, p_idle := [], bitmap_ut := (\<lambda>_. 0), next_ut_id := 0\<rparr>\<rparr>) = Inr (True, w1)" "inited MAX_PROCS w1"
    and fd: "os_epoll_create os (kern w1) = (fd, k)" and r: "os_pthread_create os k = (r, k')"
  shows "\<exists>w' sc. runtime_init os w = Inr (0, w') \<and> booted w' \<and> n_uthread (glob w') = n_uthread (glob w1) \<and>
    kern w' = k' \<and> blocks w' = blocks w1 \<and> wheel w' = create_timewheel (wheel w1) \<and>
    sched_with_stack (glob w') = sched_with_stack (glob w1) \<and>
    scheds w1 (all_sched 0) = Some sc \<and>
    scheds w' = (scheds w1)(all_sched 0 \<mapsto> sc\<lparr>sched_status := BIT SCHED_ST_RUNNING, sched_p := all_p 0\<rparr>)"
proof -
  have upt: "[0..<MAX_PROCS] = 0 # [1..<MAX_PROCS]" by (simp add: upt_rec MAX_PROCS_def)
  have fs: "sched_idle (glob w1) = all_sched 0 # map all_sched [1..<MAX_PROCS]"
    "p_idle (glob w1) = all_p 0 # map all_p [1..<MAX_PROCS]"
    using w1(2) by (simp_all add: inited_def upt)
  have M: "0 < MAX_PROCS" by (simp add: MAX_PROCS_def)
  obtain sc where sc: "scheds w1 (all_sched 0) = Some sc" using w1(2) M by (auto simp: inited_def unstarted_def)
  obtain q where q: "ps w1 (all_p 0) = Some q" "empty_p q" using w1(2) M by (auto simp: inited_def)
  let ?q = "q\<lparr>p_status := BIT P_ST_RUNNING, p_sched := all_sched 0, poller_fd := fd\<rparr>"
  let ?w = "w1\<lparr>glob := (glob w1)\<lparr>sched_idle := map all_sched [1..<MAX_PROCS], p_idle := map all_p [1..<MAX_PROCS]\<rparr>,
    scheds := (scheds w1)(all_sched 0 \<mapsto> sc\<lparr>sched_status := BIT SCHED_ST_RUNNING, sched_p := all_p 0\<rparr>),
    ps := (ps w1)(all_p 0 \<mapsto> ?q), kern := k', tsd := all_sched 0, wheel := create_timewheel (wheel w1)\<rparr>"
  have run: "runtime_init os w = Inr (0, ?w)"
    using w1(1) sc q(1) fd r fs by (simp add: runtime_init_def op_simps first_of_def)
  have all: "empty_p x" if "ps w1 p = Some x" for p x
  proof -
    have "p \<in> all_p ` {..<MAX_PROCS}" using that w1(2) by (auto simp: inited_def unstarted_def dest: domI)
    then show ?thesis using that w1(2) by (auto simp: inited_def)
  qed
  have "empty_p ?q" using q(2) by (simp add: empty_p_def)
  then have "empty_p x" if "ps ?w p = Some x" for p x using that all [of p x] by (auto split: if_splits)
  moreover have "NULL \<notin> dom (ps ?w)" using w1(2) by (auto simp: inited_def unstarted_def)
  ultimately have "inv_at {} ?w" using w1(2) by (intro empty_core) (auto simp: inited_def unstarted_def)
  then have "booted ?w" using w1(2) q(2) by (auto simp: booted_def inited_def unstarted_def empty_p_def)
  with run sc show ?thesis by (intro exI [of _ ?w] exI [of _ sc]) simp
qed

lemma runtime_init_boots:
  assumes "unstarted w" "\<And>k. fst (os_malloc os k) \<noteq> NULL"
  shows "\<exists>w'. runtime_init os w = Inr (0, w') \<and> booted w' \<and> n_uthread (glob w') = n_uthread (glob w)"
proof -
  let ?w0 = "w\<lparr>glob := (glob w)\<lparr>sched_idle := [], sched_with_stack := [], bitmap_sched := (\<lambda>_. 0),
       next_sched_id := MAX_PROCS, p_idle := [], bitmap_ut := (\<lambda>_. 0), next_ut_id := 0\<rparr>\<rparr>"
  have "inited 0 ?w0" using assms(1) by (simp add: inited_def unstarted_def)
  then obtain w1 where w1: "runtime_init_loop os 0 MAX_PROCS ?w0 = Inr (True, w1)" "inited MAX_PROCS w1"
    "n_uthread (glob w1) = n_uthread (glob w)"
    using inited_loop [OF assms(2), of 0 ?w0 MAX_PROCS] by auto
  obtain fd k where fd: "os_epoll_create os (kern w1) = (fd, k)" by fastforce
  obtain r k' where r: "os_pthread_create os k = (r, k')" by fastforce
  show ?thesis using runtime_init_after_loop [OF w1(1,2) fd r] w1(3) by auto
qed

definition main_uthread :: "ptr \<Rightarrow> uthread" where
  "main_uthread p = zero_uthread\<lparr>is_main := 1, status := BIT UT_ST_READY, ut_p := p, fd_wait := -1,
     is_wating_yield_signal := 1\<rparr>"

lemma main_uthread_simps [simp]:
  "ut_p (main_uthread p) = p" "bit (status (main_uthread p)) n \<longleftrightarrow> n = UT_ST_READY"
  by (simp_all add: main_uthread_def)

lemma main_enter_core:
  assumes b: "booted w" and a: "os_malloc os (kern w) = (a, k)" "a \<noteq> NULL"
  shows "\<exists>w' q. main_enter os w = Inr (a, w') \<and> inv_at {} w' \<and> uts w' = [a \<mapsto> main_uthread (all_p 0)] \<and>
    ps w' (all_p 0) = Some q \<and> ready q = [a] \<and> n_uthread (glob w') = n_uthread (glob w) + 1 \<and>
    next_ut_id (glob w') = 1 \<and> tsd w' = all_sched 0 \<and> scheds w' = scheds w \<and> blocks w' = blocks w \<and>
    wheel w' = wheel w \<and> kern w' = k \<and> sched_with_stack (glob w') = sched_with_stack (glob w)"
proof -
  obtain sc q where sq: "scheds w (all_sched 0) = Some sc" "sched_p sc = all_p 0" "ps w (all_p 0) = Some q" "empty_p q"
    using b by (auto simp: booted_def)
  have w: "inv_at {} w" "uts w = Map.empty" "tsd w = all_sched 0" "next_ut_id (glob w) = 0"
    using b by (auto simp: booted_def)
  have W: "waiters Map.empty = {}" by (simp add: waiters_def)
  have c: "core {} {} w" using w(1,2) W by (simp add: inv_at_def)
  let ?u = "main_uthread (all_p 0)"
  let ?w1 = "w\<lparr>uts := (uts w)(a \<mapsto> ?u), sleep_mem := (sleep_mem w)(a \<mapsto> zero_entry), wait_mem := (wait_mem w)(a \<mapsto> zero_entry)\<rparr>"
  have c1: "core {a} {} ?w1"
    using core_new [OF c a(2), of ?u zero_entry zero_entry] w(2) sq(3) by auto
  let ?w2 = "?w1\<lparr>ps := (ps w)(all_p 0 \<mapsto> q\<lparr>ready := ready q @ [a]\<rparr>)\<rparr>"
  have c2: "core {} {} ?w2" using core_ready [OF c1, of ?u q] sq(3) by simp
  let ?w3 = "?w2\<lparr>kern := k, glob := (glob w)\<lparr>n_uthread := n_uthread (glob w) + 1,
      bitmap_ut := (bitmap_ut (glob w))(0 := 1), next_ut_id := 1\<rparr>\<rparr>"
  have "0 < MAX_COUNT_UTHREAD" by (simp add: MAX_COUNT_UTHREAD_def)
  then have "main_enter os w = Inr (a, ?w3)"
    using a sq(1-3) w(2-4)
    by (simp add: main_enter_def op_simps calloc_uthread_def set_bitmap_ut_def count_uthread_def main_uthread_def
        zero_uthread_def)
  moreover have "waiters (uts ?w3) = {}" using w(2) by (auto simp: waiters_def)
  then have "inv_at {} ?w3" using core_fields [OF c2, of ?w3] by (simp add: inv_at_def)
  ultimately show ?thesis using w(2,3) sq(4) by (intro exI [of _ ?w3]) (auto simp: empty_p_def)
qed

text \<open>The first creation, up to the switch to the scheduler.\<close>

lemma first_create_switches:
  assumes tsd: "tsd w = NULL" and w1: "runtime_init os w = Inr (0, w1)" "booted w1"
    and w2: "main_enter os w1 = Inr (a, w2)" "a \<noteq> NULL"
  shows "uthread_create os f ar w = Susp a w2 (cseq (cret (0 :: int)) (lift (create_ut os (all_sched 0) f ar)))"
proof -
  have tsd1: "tsd w1 = all_sched 0" using w1(2) by (simp add: booted_def)
  have cm: "uthread_create_main os w1 = Susp a w2 (cret 0)"
    using w2(2) by (simp add: uthread_create_main_def lift_run(1) [of "main_enter os", OF w2(1)] switch_run)
  have init: "oseq (runtime_init os) sched_get w = Inr (all_sched 0, w1)"
    using w1(1) tsd1 by (simp add: op_simps sched_get_def oget_def)
  have "uthread_create os f ar w = cseq (uthread_create_main os) (lift (create_ut os (all_sched 0) f ar)) w1"
    using tsd tsd1 by (simp add: uthread_create_def sched_get_def get_co)
      (simp add: lift_run(1) [where m = "oseq (runtime_init os) (oget tsd)", OF init [unfolded sched_get_def]])
  then show ?thesis
    using cseq_Susp' [where m = "uthread_create_main os" and c = "lift (create_ut os (all_sched 0) f ar)", OF cm]
    by (rule trans)
qed

text \<open>
  C6: The first \<^verbatim>\<open>uthread_create\<close> of a program, with memory for all it allocates: it starts the runtime and
  makes the caller a uthread; at its switch to the scheduler the uthread of \<^verbatim>\<open>main\<close> is the only uthread
  and alone in the ready queue of the first \<^verbatim>\<open>p\<close>, it is counted, and the invariant holds.
\<close>

theorem first_create_boots:
  assumes "unstarted w" "\<forall>k. fst (os_malloc os k) \<noteq> NULL"
  shows "\<exists>m w' rest q. uthread_create os f ar w = Susp m w' rest \<and> inv_at {} w' \<and>
    uts w' = [m \<mapsto> main_uthread (all_p 0)] \<and> tsd w' = all_sched 0 \<and>
    ps w' (all_p 0) = Some q \<and> ready q = [m] \<and> n_uthread (glob w') = n_uthread (glob w) + 1"
proof -
  obtain w1 where w1: "runtime_init os w = Inr (0, w1)" "booted w1" "n_uthread (glob w1) = n_uthread (glob w)"
    using runtime_init_boots [of w os] assms by blast
  obtain a k where a: "os_malloc os (kern w1) = (a, k)" "a \<noteq> NULL" using assms(2) by (metis fst_conv surj_pair)
  obtain w2 q where w2: "main_enter os w1 = Inr (a, w2)" "inv_at {} w2" "uts w2 = [a \<mapsto> main_uthread (all_p 0)]"
    "ps w2 (all_p 0) = Some q" "ready q = [a]" "n_uthread (glob w2) = n_uthread (glob w1) + 1" "tsd w2 = all_sched 0"
    using main_enter_core [OF w1(2) a] by blast
  have "tsd w = NULL" using assms(1) by (simp add: unstarted_def)
  from first_create_switches [OF this w1(1,2) w2(1) a(2), of f ar]
  show ?thesis using w2 w1(3) by auto
qed

definition ex_static :: "ex_kern world" where
  "ex_static = ex_world\<lparr>uts := Map.empty, sleep_mem := Map.empty, wait_mem := Map.empty, tsd := NULL,
     scheds := (\<lambda>a. if a \<in> {1..1000} then Some (ex_sched\<lparr>sched_p := NULL\<rparr>) else None),
     ps := (\<lambda>a. if a \<in> {1..4} then Some ex_proc else None), glob := zero_glob\<rparr>"

lemma ex_static_unstarted: "unstarted ex_static"
proof -
  have "all_p ` {..<MAX_PROCS} = {1..4}"
    by (simp add: all_p_def [abs_def] MAX_PROCS_def image_Suc_lessThan)
  then show ?thesis
    by (auto simp: unstarted_def ex_static_def all_sched_def MAX_PROCS_def split: if_splits)
qed

theorem first_create_boots_witness:
  "\<exists>m w' rest q. uthread_create ex_os 5 6 ex_static = Susp m w' rest \<and> inv_at {} w' \<and> ps w' 1 = Some q \<and>
    ready q = [m] \<and> n_uthread (glob w') = 1"
proof -
  have "\<forall>k. fst (os_malloc ex_os k) \<noteq> NULL" by (simp add: ex_os_def split: prod.split)
  moreover have "n_uthread (glob ex_static) = 0" by (simp add: ex_static_def zero_glob_def)
  ultimately show ?thesis
    using first_create_boots [of ex_static ex_os 5 6] ex_static_unstarted by (auto simp: all_p_def)
qed

end
