(* ===== verification/Ut_Sched.thy ===== *)
theory Ut_Sched
  imports Ut_Uthread
begin

text \<open>
  The scheduler of \<^verbatim>\<open>uthread_sched.c\<close>: waking the uthreads whose time has come, running the ready
  queue, polling for events, and the loop around them.

  Loops are \<^verbatim>\<open>partial_function\<close>s; \<open>None\<close> stands for a loop that does not end.  A turn of a loop
  returns whether the loop goes on.
\<close>

subsection \<open>Loops\<close>

type_synonym 's loop = "'s res option"

partial_function (option) while_turn :: "('s, bool) op \<Rightarrow> 's \<Rightarrow> 's loop" where
  "while_turn turn s =
     (case turn s of
        Inl e \<Rightarrow> Some (Inl e)
      | Inr (again, s') \<Rightarrow> if again then while_turn turn s' else Some (Inr s'))"

declare while_turn.simps [code]

definition then_op :: "'s loop \<Rightarrow> ('s \<Rightarrow> 's loop) \<Rightarrow> 's loop" where
  "then_op r f = (case r of None \<Rightarrow> None | Some (Inl e) \<Rightarrow> Some (Inl e) | Some (Inr s) \<Rightarrow> f s)"

subsection \<open>Sleepers whose time has come\<close>

definition expired_turn ::
  "'k os \<Rightarrow> (ptr \<Rightarrow> ptr \<Rightarrow> ('k world, unit) co) \<Rightarrow> ptr \<Rightarrow> ('k machine, bool) op" where
  "expired_turn os prog s =
     obind (on_world (s_get s)) (\<lambda>sc.
     if sched_p sc = NULL then oret False
     else
       obind (on_world (p_get (sched_p sc))) (\<lambda>q.
       obind (oget (\<lambda>(w, k). RB_MIN (sleep_mem w, sleeping q))) (\<lambda>r.
       obind (of_tree r) (\<lambda>ut.
       if ut = NULL then oret False
       else
         obind (on_world (ut_get ut)) (\<lambda>u.
         obind (on_world (get_usec_now os)) (\<lambda>now.
         if wakeup_time_usec u \<le> now then
           oseq (on_world (uthread_cancel_event os ut))
           (oseq (on_world (uthread_desched_sleep ut))
           (oseq (on_world (ut_upd ut (\<lambda>u. u\<lparr>status := status u OR BIT UT_ST_EXPIRED\<rparr>)))
           (oseq (uthread_resume os prog ut)
           (oret True))))
         else oret False))))))"

definition uthread_resume_expired ::
  "'k os \<Rightarrow> (ptr \<Rightarrow> ptr \<Rightarrow> ('k world, unit) co) \<Rightarrow> ptr \<Rightarrow> 'k machine \<Rightarrow> 'k machine loop" where
  "uthread_resume_expired os prog s = while_turn (expired_turn os prog s)"

subsection \<open>Polling\<close>

text \<open>The clock is read twice, once for the comparison and once for the difference.\<close>

definition uthread_min_timeout :: "'k os \<Rightarrow> ptr \<Rightarrow> ('k world, 64 word) op" where
  "uthread_min_timeout os s =
     obind (s_get s) (\<lambda>sc.
     obind (p_get (sched_p sc)) (\<lambda>q.
     obind (oget (\<lambda>w. RB_MIN (sleep_mem w, sleeping q))) (\<lambda>r.
     obind (of_tree r) (\<lambda>ut.
     if ut = NULL then oret 1000000
     else
       obind (ut_get ut) (\<lambda>u.
       obind (get_usec_now os) (\<lambda>now.
       if now < wakeup_time_usec u
       then obind (get_usec_now os) (\<lambda>now. oret (wakeup_time_usec u - now))
       else oret 0))))))"

text \<open>
  The timeout of \<^verbatim>\<open>epoll_wait\<close> in milliseconds: seconds and nanoseconds are computed from the
  microseconds and put together again as a \<^verbatim>\<open>double\<close>, which is truncated to an \<^verbatim>\<open>int\<close>; a value outside
  the range of \<^verbatim>\<open>int\<close> is undefined behaviour.  (The rounding of the \<^verbatim>\<open>double\<close> does not reach the next
  integer: the fraction has at most six decimals.)
\<close>

definition poll_timeout :: "64 word \<Rightarrow> int res" where
  "poll_timeout usecs =
     (let sec = usecs div 1000000;
          nsec = (if sec \<noteq> 0 then (usecs mod 1000000) * 1000 else usecs * 1000) in
      c_int (uint sec * 1000 + uint nsec div 1000000))"

partial_function (option) epoll_wait_loop ::
  "'k os \<Rightarrow> int \<Rightarrow> int \<Rightarrow> 'k world \<Rightarrow> ((int \<times> (int \<times> 32 word) list) \<times> 'k world) res option" where
  "epoll_wait_loop os fd t w =
     (case os_epoll_wait os fd t (kern w) of
        ((ret, evs, e), k) \<Rightarrow>
          (let w = w\<lparr>kern := k, errno := (if ret = -1 then e else errno w)\<rparr> in
           if ret = -1 \<and> errno w = EINTR then epoll_wait_loop os fd t w
           else if ret = -1 then Some (Inl AssertFail)
           else Some (Inr ((ret, evs), w))))"

declare epoll_wait_loop.simps [code]

definition uthread_poll :: "'k os \<Rightarrow> 'k world \<Rightarrow> 'k world loop" where
  "uthread_poll os w =
     (case obind sched_get (\<lambda>s.
           obind (s_get s) (\<lambda>sc.
           oseq (p_upd (sched_p sc) (\<lambda>q. q\<lparr>num_new_events := 0\<rparr>))
           (obind (uthread_min_timeout os s) (\<lambda>usecs.
            obind (p_get (sched_p sc)) (\<lambda>q.
            oret (sched_p sc, usecs, q)))))) w of
        Inl e \<Rightarrow> Some (Inl e)
      | Inr ((p, usecs, q), w) \<Rightarrow>
          if usecs \<noteq> 0 \<and> ready q = [] then
            (case poll_timeout usecs of
               Inl e \<Rightarrow> Some (Inl e)
             | Inr t \<Rightarrow>
                 (case epoll_wait_loop os (poller_fd q) t w of
                    None \<Rightarrow> None
                  | Some (Inl e) \<Rightarrow> Some (Inl e)
                  | Some (Inr ((ret, evs), w)) \<Rightarrow>
                      (case p_upd p (\<lambda>q. q\<lparr>eventlist := evs @ drop (length evs) (eventlist q),
                                          num_new_events := ret\<rparr>) w of
                         Inl e \<Rightarrow> Some (Inl e)
                       | Inr (_, w) \<Rightarrow> Some (Inr w))))
          else Some (Inr w))"

subsection \<open>Events\<close>

text \<open>Accessors of an event; the code of the scheduler reads the fields directly.\<close>

definition uthread_poller_ev_get_fd :: "int \<times> 32 word \<Rightarrow> int" where
  "uthread_poller_ev_get_fd ev = fst ev"

definition uthread_poller_ev_get_event :: "int \<times> 32 word \<Rightarrow> int" where
  "uthread_poller_ev_get_event ev = sint (snd ev)"

definition uthread_poller_ev_is_eof :: "int \<times> 32 word \<Rightarrow> int" where
  "uthread_poller_ev_is_eof ev = sint (snd ev AND EPOLLHUP)"

definition handle_event ::
  "'k os \<Rightarrow> (ptr \<Rightarrow> ptr \<Rightarrow> ('k world, unit) co) \<Rightarrow> int \<Rightarrow> nat \<Rightarrow> bool \<Rightarrow> ('k machine, unit) op" where
  "handle_event os prog fd ev is_eof =
     obind (on_world (uthread_desched_event fd ev)) (\<lambda>ut.
     if ut = NULL then oret ()
     else
       obind (on_world (ut_get ut)) (\<lambda>u.
       oseq (oassert (fd = FD_ONLY (fd_wait u)))
       (oseq (on_world (unwatch os ut fd))
       (oseq (owhen is_eof (on_world (ut_upd ut (\<lambda>u. u\<lparr>status := status u OR BIT UT_ST_FDEOF\<rparr>))))
       (obind (uthread_resume os prog ut) (\<lambda>_. oret ()))))))"

definition events_turn ::
  "'k os \<Rightarrow> (ptr \<Rightarrow> ptr \<Rightarrow> ('k world, unit) co) \<Rightarrow> ptr \<Rightarrow> ('k machine, bool) op" where
  "events_turn os prog s =
     obind (on_world (s_get s)) (\<lambda>sc.
     if sched_p sc = NULL then oret False
     else
       obind (on_world (p_get (sched_p sc))) (\<lambda>q.
       if num_new_events q = 0 then oret False
       else
         let i = num_new_events q - 1 in
         oseq (on_world (p_upd (sched_p sc) (\<lambda>q. q\<lparr>num_new_events := i\<rparr>)))
         (if i < 0 \<or> int (length (eventlist q)) \<le> i then (\<lambda>_. Inl IndexRange)
          else
            (case eventlist q ! nat i of (fd, events) \<Rightarrow>
             let is_eof = (events AND EPOLLHUP \<noteq> 0) in
             oseq (owhen is_eof (on_world (oupd (\<lambda>w. w\<lparr>errno := ECONNRESET\<rparr>))))
             (oseq (handle_event os prog fd UT_EVENT_RD is_eof)
             (oseq (handle_event os prog fd UT_EVENT_WR is_eof)
             (oret True)))))))"

subsection \<open>The ready queue\<close>

definition ready_turn ::
  "'k os \<Rightarrow> (ptr \<Rightarrow> ptr \<Rightarrow> ('k world, unit) co) \<Rightarrow> ptr \<Rightarrow> ptr \<Rightarrow> ('k machine, bool) op" where
  "ready_turn os prog s last_ready =
     obind (on_world (s_get s)) (\<lambda>sc.
     obind (on_world (p_get (sched_p sc))) (\<lambda>q.
     if ready q = [] then oret False
     else
       let ut = hd (ready q) in
       oseq (on_world (p_upd (sched_p sc) (\<lambda>q. q\<lparr>ready := remove1 ut (ready q)\<rparr>)))
       (oseq (uthread_resume os prog ut)
       (obind (on_world (s_get s)) (\<lambda>sc.
        oret (sched_p sc \<noteq> NULL \<and> ut \<noteq> last_ready))))))"

definition run_ready ::
  "'k os \<Rightarrow> (ptr \<Rightarrow> ptr \<Rightarrow> ('k world, unit) co) \<Rightarrow> ptr \<Rightarrow> 'k machine \<Rightarrow> 'k machine loop" where
  "run_ready os prog s m =
     (case obind (on_world (s_get s)) (\<lambda>sc. on_world (p_get (sched_p sc))) m of
        Inl e \<Rightarrow> Some (Inl e)
      | Inr (q, m) \<Rightarrow> while_turn (ready_turn os prog s (last_of (ready q))) m)"

subsection \<open>The scheduler\<close>

definition sched_work_done :: "proc \<Rightarrow> bool" where
  "sched_work_done q \<longleftrightarrow> ready q = [] \<and> RB_EMPTY (sleeping q) \<and> RB_EMPTY (waiting q)"

text \<open>The condition of the inner loop: there is a \<^verbatim>\<open>p\<close> and it has work.\<close>

definition has_work :: "ptr \<Rightarrow> ('k machine, bool) op" where
  "has_work s =
     obind (on_world (s_get s)) (\<lambda>sc.
     if sched_p sc = NULL then oret False
     else obind (on_world (p_get (sched_p sc))) (\<lambda>q. oret (\<not> sched_work_done q)))"

text \<open>The body of the inner loop.  Without a \<^verbatim>\<open>p\<close> after the ready queue it is left by \<^verbatim>\<open>break\<close>.\<close>

definition sched_round ::
  "'k os \<Rightarrow> (ptr \<Rightarrow> ptr \<Rightarrow> ('k world, unit) co) \<Rightarrow> ptr \<Rightarrow> 'k machine \<Rightarrow> 'k machine loop" where
  "sched_round os prog s m =
     then_op (uthread_resume_expired os prog s m) (\<lambda>m.
     then_op (run_ready os prog s m) (\<lambda>m.
     case on_world (s_get s) m of
       Inl e \<Rightarrow> Some (Inl e)
     | Inr (sc, m) \<Rightarrow>
         if sched_p sc = NULL then Some (Inr m)
         else
           then_op (case uthread_poll os (fst m) of
                      None \<Rightarrow> None
                    | Some (Inl e) \<Rightarrow> Some (Inl e)
                    | Some (Inr w) \<Rightarrow> Some (Inr (w, snd m)))
           (while_turn (events_turn os prog s))))"

fun free_stacks :: "ptr list \<Rightarrow> ('k world, unit) op" where
  "free_stacks [] = oret ()"
| "free_stacks (s # ss) = obind (s_get s) (\<lambda>sc. oseq (free_block (sched_stack sc)) (free_stacks ss))"

definition free_source :: "('k world, unit) op" where
  "free_source = obind (oget (\<lambda>w. sched_with_stack (glob w))) free_stacks"

text \<open>
  \<^verbatim>\<open>_sched_run\<close>: rounds while there is work; when no uthread is left anywhere the process exits,
  which is the result \<open>Some (Inr m)\<close>; otherwise it starts again.
\<close>

partial_function (option) sched_loop ::
  "'k os \<Rightarrow> (ptr \<Rightarrow> ptr \<Rightarrow> ('k world, unit) co) \<Rightarrow> ptr \<Rightarrow> 'k machine \<Rightarrow> 'k machine loop" where
  "sched_loop os prog s m =
     (case has_work s m of
        Inl e \<Rightarrow> Some (Inl e)
      | Inr (work, m) \<Rightarrow>
          if work then
            (case sched_round os prog s m of
               None \<Rightarrow> None
             | Some (Inl e) \<Rightarrow> Some (Inl e)
             | Some (Inr m) \<Rightarrow> sched_loop os prog s m)
          else if n_uthread (glob (fst m)) = 0
          then (case on_world free_source m of Inl e \<Rightarrow> Some (Inl e) | Inr (_, m) \<Rightarrow> Some (Inr m))
          else sched_loop os prog s m)"

declare sched_loop.simps [code]

definition sched_run ::
  "'k os \<Rightarrow> (ptr \<Rightarrow> ptr \<Rightarrow> ('k world, unit) co) \<Rightarrow> 'k machine \<Rightarrow> 'k machine loop" where
  "sched_run os prog m = sched_loop os prog (tsd (fst m)) m"

text \<open>The function of a thread that \<^verbatim>\<open>pthread_disk_read\<close> or \<^verbatim>\<open>pthread_disk_write\<close> starts.\<close>

definition sched_create_another ::
  "'k os \<Rightarrow> (ptr \<Rightarrow> ptr \<Rightarrow> ('k world, unit) co) \<Rightarrow> ptr \<Rightarrow> 'k machine \<Rightarrow> 'k machine loop" where
  "sched_create_another os prog s m =
     (case on_world (obind (s_get s) (\<lambda>sc.
        obind (oget (\<lambda>w. os_pthread_self os (kern w))) (\<lambda>self.
        oseq (p_upd (sched_p sc) (\<lambda>q. q\<lparr>tid := self\<rparr>))
        (oupd (\<lambda>w. w\<lparr>tsd := s\<rparr>))))) m of
        Inl e \<Rightarrow> Some (Inl e)
      | Inr (_, m) \<Rightarrow> sched_run os prog m)"

text \<open>
  A whole program: \<open>main\<close> runs on the thread until its first \<^verbatim>\<open>uthread_create\<close> switches to the
  scheduler, which the new context of the scheduler starts at \<^verbatim>\<open>_sched_run\<close>.
\<close>

definition run_program ::
  "'k os \<Rightarrow> (ptr \<Rightarrow> ptr \<Rightarrow> ('k world, unit) co) \<Rightarrow> ('k world, unit) co \<Rightarrow> 'k world \<Rightarrow> 'k machine loop" where
  "run_program os prog main w =
     (case main w of
        Ret _ w \<Rightarrow> Some (Inr (w, Map.empty))
      | Fail e \<Rightarrow> Some (Inl e)
      | Susp u w c \<Rightarrow> sched_run os prog (w, [u \<mapsto> c]))"

end
