(* ===== verification/Ut_Expire.thy ===== *)
theory Ut_Expire
  imports Ut_Resume Ut_Sched
begin

text \<open>
  How the scheduler takes a uthread off the trees: when its time has come (\<^verbatim>\<open>_uthread_cancel_event\<close> and
  \<^verbatim>\<open>_uthread_resume_expired\<close>) and when its descriptor is ready (\<^verbatim>\<open>handle_event\<close>).
\<close>

subsection \<open>The first sleeper\<close>

lemma least_first:
  assumes "sorted_by key xs" "a \<in> set xs" "\<And>b. b \<in> set xs \<Longrightarrow> key a \<le> key b"
  shows "first_of xs = a"
proof (cases xs)
  case (Cons x ys)
  have "\<not> key x < key a" using assms(3) [of x] Cons by auto
  then have "a = x" using assms(1,2) Cons by (auto dest: bspec)
  with Cons show ?thesis by (simp add: first_of_def)
qed (use assms(2) in simp)

lemma first_sleeper:
  assumes c: "core R W w" and q: "ps w p = Some q"
    and ut: "ut \<in> of_p (uts w) p \<inter> asleep (uts w)"
      "\<forall>b \<in> of_p (uts w) p \<inter> asleep (uts w). skey (uts w) ut \<le> skey (uts w) b"
  shows "RB_MIN (sleep_mem w, sleeping q) = Some ut"
proof -
  obtain xs where xs: "rbtree (skey (uts w)) (sleep_mem w) (sleeping q) xs" "set xs = of_p (uts w) p \<inter> asleep (uts w)"
    using core_parts(9) [OF c q] by (auto simp: p_ok_def)
  have "first_of xs = ut"
    by (rule least_first [OF rbtree_sorted [OF xs(1)]]) (use ut xs(2) in auto)
  then show ?thesis using rbtree_min_max(1) [OF xs(1)] by simp
qed

lemma no_sleeper:
  assumes c: "core R W w" and q: "ps w p = Some q" and "of_p (uts w) p \<inter> asleep (uts w) = {}"
  shows "RB_MIN (sleep_mem w, sleeping q) = Some NULL"
proof -
  obtain xs where xs: "rbtree (skey (uts w)) (sleep_mem w) (sleeping q) xs" "set xs = of_p (uts w) p \<inter> asleep (uts w)"
    using core_parts(9) [OF c q] by (auto simp: p_ok_def)
  then have "xs = []" using assms(3) by simp
  then show ?thesis using rbtree_min_max(1) [OF xs(1)] by (simp add: first_of_def)
qed

lemma first_sleeper_cases:
  assumes c: "core R W w" and q: "ps w p = Some q"
  obtains (none) "RB_MIN (sleep_mem w, sleeping q) = Some NULL" "of_p (uts w) p \<inter> asleep (uts w) = {}"
  | (least) ut where "RB_MIN (sleep_mem w, sleeping q) = Some ut" "ut \<in> of_p (uts w) p \<inter> asleep (uts w)"
      "\<forall>b \<in> of_p (uts w) p \<inter> asleep (uts w). skey (uts w) ut \<le> skey (uts w) b"
proof -
  obtain xs where xs: "rbtree (skey (uts w)) (sleep_mem w) (sleeping q) xs" "set xs = of_p (uts w) p \<inter> asleep (uts w)"
    using core_parts(9) [OF c q] by (auto simp: p_ok_def)
  show thesis
  proof (cases xs)
    case Nil
    then show ?thesis using xs no_sleeper [OF c q] none by simp
  next
    case (Cons x ys)
    have "skey (uts w) x \<le> skey (uts w) b" if "b \<in> set xs" for b
      using rbtree_sorted [OF xs(1)] that Cons by auto
    moreover have "RB_MIN (sleep_mem w, sleeping q) = Some x"
      using rbtree_min_max(1) [OF xs(1)] Cons by (simp add: first_of_def)
    ultimately show ?thesis using least [of x] xs(2) Cons by auto
  qed
qed

subsection \<open>Unwatching a descriptor\<close>

text \<open>What \<open>unwatch\<close> leaves of a uthread: everything but two bits of the status.\<close>

definition unwatched :: "uthread \<Rightarrow> uthread" where
  "unwatched u = u\<lparr>status := if bit (status u) UT_ST_WAIT_RD then status u AND CLEARBIT UT_ST_WAIT_RD
     else if bit (status u) UT_EVENT_WR then status u AND CLEARBIT UT_EVENT_WR else status u\<rparr>"

definition unwatch_mask :: "uthread \<Rightarrow> 32 word" where
  "unwatch_mask u = (if bit (status u) UT_ST_WAIT_RD then event_mask UT_EVENT_RD
     else if bit (status u) UT_EVENT_WR then event_mask UT_EVENT_WR else 0)"

lemma unwatched_simps [simp]:
  "ut_p (unwatched u) = ut_p u" "wakeup_time_usec (unwatched u) = wakeup_time_usec u"
  "fd_wait (unwatched u) = fd_wait u" "ut_joined (unwatched u) = ut_joined u" "stack (unwatched u) = stack u"
  "is_main (unwatched u) = is_main u" "ut_id (unwatched u) = ut_id u"
  "bit (status (unwatched u)) UT_ST_SLEEPING \<longleftrightarrow> bit (status u) UT_ST_SLEEPING"
  "bit (status (unwatched u)) UT_ST_EXITED \<longleftrightarrow> bit (status u) UT_ST_EXITED"
  "bit (status (unwatched u)) UT_ST_NEW \<longleftrightarrow> bit (status u) UT_ST_NEW"
  by (auto simp: unwatched_def)

lemma like_unwatched: "like u (unwatched u)"
  by (simp add: like_def)

lemma unwatch_run:
  assumes u: "ut \<noteq> NULL" "uts w ut = Some u" and q: "ut_p u \<noteq> NULL" "ps w (ut_p u) = Some q"
    and ctl: "os_epoll_ctl os (poller_fd q) EPOLL_CTL_DEL fd (unwatch_mask u) (kern w) = (r, k)"
  shows "unwatch os ut fd w =
    (if r = 0 then Inr ((), w\<lparr>uts := (uts w)(ut \<mapsto> unwatched u), kern := k\<rparr>) else Inl AssertFail)"
proof -
  have idem: "(uts w)(ut \<mapsto> u) = uts w" using u(2) by (simp add: fun_upd_idem)
  show ?thesis
    using assms idem
    by (cases "bit (status u) UT_ST_WAIT_RD"; cases "bit (status u) UT_EVENT_WR")
      (auto simp: unwatch_def op_simps unwatched_def unwatch_mask_def Let_def)
qed

subsection \<open>A wait that ends\<close>

text \<open>The key of a uthread that waits for nothing may change.\<close>

lemma core_unkeyed:
  assumes c: "core R W w" and u: "uts w a = Some u" "a \<notin> W" "ut_p u' = ut_p u"
    "wakeup_time_usec u' = wakeup_time_usec u" "bit (status u') UT_ST_SLEEPING \<longleftrightarrow> bit (status u) UT_ST_SLEEPING"
  shows "core R W (w\<lparr>uts := (uts w)(a \<mapsto> u')\<rparr>)"
proof -
  let ?U = "(uts w)(a \<mapsto> u')"
  note upd = upd_keeps [where U = "uts w" and a = a and u = u and u' = u', OF u(1,3)]
  have as: "asleep ?U = asleep (uts w)" using upd(5) u(1,5) by (auto simp: asleep_def)
  have p: "p_ok ?U R W sm wm p q" if *: "p_ok (uts w) R W sm wm p q" for sm wm p q
  proof -
    obtain ys where ys: "rbtree (wkey (uts w)) wm (waiting q) ys" "set ys = of_p (uts w) p \<inter> W"
      using * by (auto simp: p_ok_def)
    have "rbtree (wkey ?U) wm (waiting q) ys"
      by (rule rbtree_rekey [OF ys(1)]) (use ys(2) u(2) in \<open>auto intro!: wkey_other\<close>)
    then show ?thesis using * ys(2) unfolding p_ok_def upd(2) upd(3) [OF u(4)] as by auto
  qed
  show ?thesis
    using core_parts [OF c] u(1,3) p unfolding core_def by (auto simp: upd(1) as)
qed

text \<open>The wait of \<open>ut\<close> is cancelled: it is off both trees, no longer watched, and in hand.\<close>

lemma cancel_event_core:
  assumes inv: "inv_at R w" and u: "uts w ut = Some u" "ut \<in> waiters (uts w)" "fd_wait u = FD_KEY fd e"
    and fd: "0 \<le> fd" "fd < 2 ^ 31" "e < 2 ^ 31"
    and s: "scheds w (tsd w) = Some sc" "tsd w \<noteq> NULL" "sched_p sc = ut_p u"
    and q: "ps w (ut_p u) = Some q"
    and ctl: "os_epoll_ctl os (poller_fd q) EPOLL_CTL_DEL fd (unwatch_mask u) (kern w) = (0, k)"
  shows "\<exists>w'. uthread_cancel_event os ut w = Inr ((), w') \<and> inv_at (insert ut R) w' \<and>
    uts w' = (uts w)(ut \<mapsto> (woken (unwatched u))\<lparr>fd_wait := -1\<rparr>) \<and> tsd w' = tsd w \<and> scheds w' = scheds w \<and>
    kern w' = k \<and> glob w' = glob w \<and> blocks w' = blocks w \<and> dead w' = dead w \<and> wheel w' = wheel w \<and>
    trees_only (ut_p u) w w'"
proof -
  have c: "core R (waiters (uts w)) w" using inv by (simp add: inv_at_def)
  have ut0: "ut \<noteq> NULL" and p0: "ut_p u \<noteq> NULL" using coreD(1,2) [OF c u(1)] by auto
  note key = FD_KEY_roundtrip [OF _ fd(2,3)]
  have only: "FD_ONLY (fd_wait u) = fd" "nat (FD_EVENT (fd_wait u)) = e" using key fd(1) u(3) by simp_all
  have pos: "0 \<le>s fd_wait u" using wait_key_nonneg [OF fd] u(3) by simp
  let ?u = "unwatched u" let ?w1 = "w\<lparr>uts := (uts w)(ut \<mapsto> ?u), kern := k\<rparr>"
  note same = like_upd [where U = "uts w", OF u(1) like_unwatched]
  have c1: "core R (waiters (uts w)) ?w1"
    by (rule core_fields [OF core_like [OF c u(1) like_unwatched]]) simp_all
  have W1: "waiters (uts w) \<subseteq> asleep (uts ?w1)" using waiters_asleep [of "uts w"] same(5) by simp
  obtain w2 where w2: "uthread_desched_event fd e ?w1 = Inr (ut, w2)" "core (insert ut R) (waiters (uts w) - {ut}) w2"
    "uts w2 = (uts w)(ut \<mapsto> woken ?u)" "tsd w2 = tsd w" "scheds w2 = scheds w" "kern w2 = k" "glob w2 = glob w"
    "blocks w2 = blocks w" "dead w2 = dead w" "wheel w2 = wheel w" "trees_only (ut_p u) w w2"
    using desched_event_found [OF c1 W1, of sc ?u ut fd e] s u(2,3) by (force intro!: trees_onlyI)
  let ?v = "(woken ?u)\<lparr>fd_wait := -1\<rparr>" let ?w3 = "w2\<lparr>uts := (uts w2)(ut \<mapsto> ?v)\<rparr>"
  have un: "unwatch os ut fd w = Inr ((), ?w1)"
    using unwatch_run [OF ut0 u(1) p0 q, of os fd 0 k] ctl by simp
  have run: "uthread_cancel_event os ut w = Inr ((), ?w3)"
    using ut0 u(1) w2(1,3) un only pos by (simp add: uthread_cancel_event_def op_simps)
  have "core (insert ut R) (waiters (uts w) - {ut}) ?w3"
    by (rule core_unkeyed [OF w2(2), of ut "woken ?u"]) (use w2(3) in simp_all)
  moreover have "waiters (uts ?w3) = waiters (uts w) - {ut}" by (auto simp: waiters_def w2(3))
  ultimately have "inv_at (insert ut R) ?w3" by (simp add: inv_at_def)
  with run w2(3-) show ?thesis by (intro exI [of _ ?w3]) (simp add: trees_only_def)
qed

text \<open>A uthread in hand whose timeout has passed is marked.\<close>

lemma mark_expired_core:
  assumes inv: "inv_at (insert ut R) w" and u: "uts w ut = Some u"
  shows "\<exists>w'. oseq (uthread_desched_sleep ut) (ut_upd ut (\<lambda>u. u\<lparr>status := status u OR BIT UT_ST_EXPIRED\<rparr>)) w =
      Inr ((), w') \<and> inv_at (insert ut R) w' \<and>
    w' = w\<lparr>uts := (uts w)(ut \<mapsto> u\<lparr>status := status u OR BIT UT_ST_EXPIRED\<rparr>)\<rparr>"
proof -
  have c: "core (insert ut R) (waiters (uts w)) w" using inv by (simp add: inv_at_def)
  have ut0: "ut \<noteq> NULL" by (rule coreD(1) [OF c u])
  have ns: "\<not> bit (status u) UT_ST_SLEEPING" using core_parts(6) [OF c] u by (auto simp: asleep_def)
  let ?u = "u\<lparr>status := status u OR BIT UT_ST_EXPIRED\<rparr>"
  have like: "like u ?u" by (simp add: like_def)
  have "inv_at (insert ut R) (w\<lparr>uts := (uts w)(ut \<mapsto> ?u)\<rparr>)"
    using core_like [OF c u like] like_upd(6) [where U = "uts w", OF u like] by (simp add: inv_at_def)
  moreover have "oseq (uthread_desched_sleep ut) (ut_upd ut (\<lambda>u. u\<lparr>status := status u OR BIT UT_ST_EXPIRED\<rparr>)) w =
      Inr ((), w\<lparr>uts := (uts w)(ut \<mapsto> ?u)\<rparr>)"
    using desched_sleep_awake [OF ut0 u ns] u ut0 by (simp add: op_simps)
  ultimately show ?thesis by blast
qed

text \<open>
  The turn of \<^verbatim>\<open>_uthread_resume_expired\<close> on the first sleeper, up to the question whether its time has
  come.
\<close>

lemma expired_turn_look:
  assumes c: "core R W w" and s: "s \<noteq> NULL" "scheds w s = Some sc" "ps w (sched_p sc) = Some q"
    and ut: "RB_MIN (sleep_mem w, sleeping q) = Some ut" "uts w ut = Some u"
    and now: "os_gettimeofday os (kern w) = ((sec, usec), k)"
  shows "expired_turn os prog s (w, m) =
    (if wakeup_time_usec u \<le> sec * 1000000 + usec
     then oseq (on_world (uthread_cancel_event os ut))
       (oseq (on_world (uthread_desched_sleep ut))
       (oseq (on_world (ut_upd ut (\<lambda>u. u\<lparr>status := status u OR BIT UT_ST_EXPIRED\<rparr>)))
       (oseq (uthread_resume os prog ut)
       (oret True)))) (w\<lparr>kern := k\<rparr>, m)
     else Inr (False, w\<lparr>kern := k\<rparr>, m))"
proof -
  have ut0: "ut \<noteq> NULL" by (rule coreD(1) [OF c ut(2)])
  have p0: "sched_p sc \<noteq> NULL" using core_parts(2) [OF c] s(3) by (metis domI)
  have clock: "on_world (get_usec_now os) (w, m) = Inr (sec * 1000000 + usec, w\<lparr>kern := k\<rparr>, m)"
    using now by (simp add: get_usec_now_def op_simps on_world_def)
  show ?thesis
    using ut0 ut p0 s clock by (simp add: expired_turn_def op_simps)
qed

lemma FD_ONLY_minus [simp]: "FD_ONLY (-1) = -1"
  by (simp add: FD_ONLY_def)

subsection \<open>An event\<close>

definition eof_marked :: "bool \<Rightarrow> uthread \<Rightarrow> uthread" where
  "eof_marked eof u = (if eof then u\<lparr>status := status u OR BIT UT_ST_FDEOF\<rparr> else u)"

lemma like_eof: "like u (eof_marked eof u)"
  by (simp add: like_def eof_marked_def)

lemma inv_like:
  assumes "inv_at R w" "uts w a = Some u" "like u u'"
  shows "inv_at R (w\<lparr>uts := (uts w)(a \<mapsto> u')\<rparr>)"
  using core_like [OF _ assms(2,3), of R "waiters (uts w)"] like_upd(6) [where U = "uts w", OF assms(2,3)] assms(1)
  by (simp add: inv_at_def)

lemma inv_fields:
  assumes "inv_at R w" "uts w' = uts w" "ps w' = ps w" "sleep_mem w' = sleep_mem w" "wait_mem w' = wait_mem w"
  shows "inv_at R w'"
  using assms core_fields [of R "waiters (uts w)" w w'] by (simp add: inv_at_def)

text \<open>
  \<^verbatim>\<open>handle_event\<close> on the uthread that waits for the descriptor and the event, up to its resumption; the
  process aborts when the descriptor is not the one that was registered or cannot be unwatched.
\<close>

lemma handle_event_found:
  assumes inv: "inv_at R w" and s: "scheds w (tsd w) = Some sc" "tsd w \<noteq> NULL" and q: "ps w (sched_p sc) = Some q"
    and u: "uts w ut = Some u" "ut_p u = sched_p sc" "ut \<in> waiters (uts w)" "fd_wait u = FD_KEY fd e"
    and ctl: "os_epoll_ctl os (poller_fd q) EPOLL_CTL_DEL fd (unwatch_mask (woken u)) (kern w) = (r, k)"
  shows "\<exists>w'. handle_event os prog fd e eof (w, m) =
      (if fd = FD_ONLY (fd_wait u) \<and> r = 0 then obind (uthread_resume os prog ut) (\<lambda>_. oret ()) (w', m) else Inl AssertFail) \<and>
    inv_at (insert ut R) w' \<and> uts w' = (uts w)(ut \<mapsto> eof_marked eof (unwatched (woken u))) \<and> kern w' = k \<and>
    trees_only (ut_p u) w w'"
proof -
  have c: "core R (waiters (uts w)) w" using inv by (simp add: inv_at_def)
  have ut0: "ut \<noteq> NULL" and p0: "ut_p u \<noteq> NULL" using coreD(1,2) [OF c u(1)] by auto
  obtain q' sm wm sr wr where q': "ps w (ut_p u) = Some q'"
    "uthread_desched_event fd e w = Inr (ut, w\<lparr>uts := (uts w)(ut \<mapsto> woken u), sleep_mem := sm, wait_mem := wm,
      ps := (ps w)(ut_p u \<mapsto> q'\<lparr>waiting := wr, sleeping := sr\<rparr>)\<rparr>)"
    "core (insert ut R) (waiters (uts w) - {ut}) (w\<lparr>uts := (uts w)(ut \<mapsto> woken u), sleep_mem := sm, wait_mem := wm,
      ps := (ps w)(ut_p u \<mapsto> q'\<lparr>waiting := wr, sleeping := sr\<rparr>)\<rparr>)"
    using desched_event_found [OF c waiters_asleep s u(2) u(1,3,4)] by blast
  let ?w1 = "w\<lparr>uts := (uts w)(ut \<mapsto> woken u), sleep_mem := sm, wait_mem := wm,
      ps := (ps w)(ut_p u \<mapsto> q'\<lparr>waiting := wr, sleeping := sr\<rparr>)\<rparr>"
  have inv1: "inv_at (insert ut R) ?w1"
    using q'(3) waiters_upd [where U = "uts w", OF u(1)] by (simp add: inv_at_def)
  have qq: "q' = q" using q'(1) q u(2) by simp
  let ?w2 = "?w1\<lparr>uts := (uts w)(ut \<mapsto> unwatched (woken u)), kern := k\<rparr>"
  have un: "unwatch os ut fd ?w1 = (if r = 0 then Inr ((), ?w2) else Inl AssertFail)"
    using unwatch_run [of ut ?w1 "woken u" "q\<lparr>waiting := wr, sleeping := sr\<rparr>" os fd r k] ut0 p0 ctl qq by simp
  let ?w3 = "if eof then ?w2\<lparr>uts := (uts w)(ut \<mapsto> eof_marked eof (unwatched (woken u)))\<rparr> else ?w2"
  have run: "handle_event os prog fd e eof (w, m) =
      (if fd = FD_ONLY (fd_wait u) \<and> r = 0 then obind (uthread_resume os prog ut) (\<lambda>_. oret ()) (?w3, m) else Inl AssertFail)"
    using q'(2) ut0 un
    by (cases eof; cases "fd = FD_ONLY (fd_wait u)"; cases "r = 0")
      (simp_all add: handle_event_def op_simps eof_marked_def owhen_def)
  have "inv_at (insert ut R) (?w1\<lparr>uts := (uts ?w1)(ut \<mapsto> unwatched (woken u))\<rparr>)"
    by (rule inv_like [OF inv1 _ like_unwatched]) simp
  from inv_like [OF this _ like_eof, of ut "unwatched (woken u)" eof]
  have "inv_at (insert ut R) (?w1\<lparr>uts := uts ?w3\<rparr>)" by (cases eof) (simp_all add: eof_marked_def)
  then have "inv_at (insert ut R) ?w3" by (rule inv_fields) auto
  moreover have "trees_only (ut_p u) w ?w3"
    by (rule trees_onlyI [where q' = "q'\<lparr>waiting := wr, sleeping := sr\<rparr>" and sr = sr and wr = wr, OF q'(1)]) simp_all
  ultimately show ?thesis using run by (intro exI [of _ ?w3]) (simp add: eof_marked_def)
qed

text \<open>\<^verbatim>\<open>_uthread_cancel_event\<close> when the descriptor cannot be unwatched.\<close>

lemma cancel_event_refused:
  assumes c: "core R W w" and u: "uts w ut = Some u" and q: "ps w (ut_p u) = Some q"
    and ctl: "os_epoll_ctl os (poller_fd q) EPOLL_CTL_DEL (FD_ONLY (fd_wait u)) (unwatch_mask u) (kern w) = (r, k)" "r \<noteq> 0"
  shows "uthread_cancel_event os ut w = Inl AssertFail"
proof -
  have ut0: "ut \<noteq> NULL" and p0: "ut_p u \<noteq> NULL" using coreD(1,2) [OF c u(1)] by auto
  have "unwatch os ut (FD_ONLY (fd_wait u)) w = Inl AssertFail" using unwatch_run [OF ut0 u(1) p0 q ctl(1)] ctl(2) by simp
  then show ?thesis using ut0 u by (simp add: uthread_cancel_event_def op_simps)
qed

lemma cancel_join_aborts:
  assumes c: "core R W w" and u: "uts w ut = Some u" "fd_wait u = -1" and q: "ps w (ut_p u) = Some q"
    and ctl: "\<forall>m k. fst (os_epoll_ctl os (poller_fd q) EPOLL_CTL_DEL (-1) m k) \<noteq> 0"
  shows "uthread_cancel_event os ut w = Inl AssertFail"
proof -
  obtain r k where r: "os_epoll_ctl os (poller_fd q) EPOLL_CTL_DEL (-1) (unwatch_mask u) (kern w) = (r, k)" by force
  have "r \<noteq> 0" using ctl r by (metis fst_conv)
  then show ?thesis using cancel_event_refused [OF c u(1) q, of os r k] r u(2) by simp
qed

end
