(* ===== verification/Ut_Join.thy ===== *)
theory Ut_Join
  imports Ut_Life Ut_Expire
begin

text \<open>
  The properties of \<^verbatim>\<open>uthread_exit\<close> and \<^verbatim>\<open>uthread_join\<close>, from the call to the wake-up of the joiner.
\<close>

lemma current_ut_run:
  assumes "current_is ut w"
  shows "current_ut w = Inr (ut, w)"
  using assms by (auto simp: current_is_def current_ut_def op_simps)

lemma lift_current: "current_is ut w \<Longrightarrow> cbind (lift current_ut) f w = f ut w"
  by (rule lift_run(1)) (rule current_ut_run)

subsection \<open>Exit\<close>

text \<open>
  \<^verbatim>\<open>uthread_exit\<close> marks the running uthread as exited and switches to the scheduler; it stores the
  value for the joiner when the value, the joiner and the place are all there, and stores nothing
  otherwise.
\<close>

theorem uthread_exit_stores:
  assumes "current_is ut w" "uts w ut = Some u"
    and "rv \<noteq> NULL \<and> ut_joined u \<noteq> NULL \<and> retval u \<noteq> NULL \<longrightarrow> retval u \<in> dom (words w)"
  shows "\<exists>w' rest. uthread_exit rv w = Susp ut w' rest \<and>
    uts w' = (uts w)(ut \<mapsto> u\<lparr>status := status u OR BIT UT_ST_EXITED, is_wating_yield_signal := 0\<rparr>) \<and>
    words w' = (if rv \<noteq> NULL \<and> ut_joined u \<noteq> NULL \<and> retval u \<noteq> NULL
                then (words w)(retval u \<mapsto> rv) else words w)"
proof -
  let ?store = "rv \<noteq> NULL \<and> ut_joined u \<noteq> NULL \<and> retval u \<noteq> NULL"
  let ?u = "u\<lparr>status := status u OR BIT UT_ST_EXITED\<rparr>"
  let ?w = "w\<lparr>uts := (uts w)(ut \<mapsto> ?u), words := (if ?store then (words w)(retval u \<mapsto> rv) else words w)\<rparr>"
  have ut: "ut \<noteq> NULL" using assms(1) by (rule current_isD(3))
  have "exit_enter rv w = Inr ((), ?w)"
    using assms(2,3) ut current_ut_run [OF assms(1)] by (auto simp: exit_enter_def op_simps owhen_def)
  moreover have "current_is ut ?w" using assms(1) by (simp add: current_is_def)
  then have "\<exists>rest. uthread_yield ?w = Susp ut (?w\<lparr>uts := (uts ?w)(ut \<mapsto> ?u\<lparr>is_wating_yield_signal := 0\<rparr>)\<rparr>) rest"
    using yield_switches [of ut ?w ?u] by simp
  then obtain rest where "uthread_yield ?w = Susp ut (?w\<lparr>uts := (uts ?w)(ut \<mapsto> ?u\<lparr>is_wating_yield_signal := 0\<rparr>)\<rparr>) rest" ..
  ultimately have run: "uthread_exit rv w = Susp ut (?w\<lparr>uts := (uts ?w)(ut \<mapsto> ?u\<lparr>is_wating_yield_signal := 0\<rparr>)\<rparr>) rest"
    unfolding uthread_exit_def by (simp only: lift_run(2) [of "exit_enter rv"])
  show ?thesis by (rule exI, rule exI, rule conjI, rule run) simp
qed

definition ex_joined :: uthread where
  "ex_joined = ex_ut\<lparr>ut_id := 1, ut_joined := 11, retval := 500\<rparr>"

definition ex_joined_world :: "ex_kern world" where
  "ex_joined_world = ex_world\<lparr>uts := (uts ex_world)(10 \<mapsto> ex_joined), words := [500 \<mapsto> 0]\<rparr>"

theorem uthread_exit_stores_witness:
  "\<exists>w' rest. uthread_exit 42 ex_joined_world = Susp 10 w' rest \<and> words w' 500 = Some 42"
proof -
  have "current_is 10 ex_joined_world"
    by (simp add: current_is_def ex_joined_world_def ex_world_def ex_sched_def)
  moreover have "uts ex_joined_world 10 = Some ex_joined" "500 \<in> dom (words ex_joined_world)"
    by (simp_all add: ex_joined_world_def)
  moreover have "ut_joined ex_joined = 11" "retval ex_joined = 500" by (simp_all add: ex_joined_def)
  ultimately show ?thesis using uthread_exit_stores [of 10 ex_joined_world ex_joined 42] by auto
qed

text \<open>
  C5: What the scheduler does with a uthread that has exited: the uthread is freed, its structure
  as well as its stack and whether or not it is detached (the comment in \<^verbatim>\<open>_uthread_resume\<close> says that without being
  detached it keeps its structure), the count goes down by one, its joiner, if there is one, is no longer asleep and in its ready queue, and the
  invariant holds without the uthread.
\<close>

theorem exit_frees_and_wakes:
  assumes "inv_at (insert ut R) w" "ut \<notin> R" "uts w ut = Some u" "bit (status u) UT_ST_EXITED"
    and "s \<noteq> NULL" "scheds w s = Some sc"
    and "joiner_ok (insert ut R) w (ut_joined u)" "ut_joined u \<notin> waiters (uts w)" "stack_ok w u"
    and "bit (status (after_free os u)) UT_ST_DETACHED \<longrightarrow> ut_id (after_free os u) < MAX_COUNT_UTHREAD"
  shows "\<exists>w'. resume_leave os s ut w = Inr (0, w') \<and> inv_at R w' \<and> uts w' ut = None \<and>
    n_uthread (glob w') = n_uthread (glob w) - 1 \<and>
    (ut_joined u \<noteq> NULL \<longrightarrow> ut_joined u \<notin> asleep (uts w') \<and>
      (\<exists>v q. uts w (ut_joined u) = Some v \<and> ps w' (ut_p v) = Some q \<and> ut_joined u \<in> set (ready q)))"
proof -
  let ?j = "ut_joined u"
  have c: "core (insert ut R) (waiters (uts w)) w" using assms(1) by (simp add: inv_at_def)
  have nw: "ut \<notin> waiters (uts w)" using core_parts(6) [OF c] waiters_asleep by auto
  obtain w' where w': "resume_leave os s ut w = Inr (0, w')" "core R (waiters (uts w)) w'"
    "uts w' = (after_wake (uts w) ?j)(ut := None)" "n_uthread (glob w') = n_uthread (glob w) - 1"
    "?j \<noteq> NULL \<longrightarrow> (\<exists>v q. uts w ?j = Some v \<and> ps w' (ut_p v) = Some q \<and> ?j \<in> set (ready q))"
    using resume_leave_exit [OF c assms(2) nw assms(3,5,6,4,7,9,10)] by blast
  have "?j = NULL \<or> ?j \<in> dom (uts w)" using assms(7) by (auto simp: joiner_ok_def asleep_def)
  then have "waiters (uts w') = waiters (uts w)"
    unfolding w'(3) using nw assms(8) by (rule waiters_after_exit [rotated 2])
  moreover have "?j \<noteq> NULL \<longrightarrow> ?j \<notin> asleep (uts w')" "uts w' ut = None"
    unfolding w'(3) by (auto simp: asleep_def after_wake_def)
  ultimately show ?thesis using w' by (auto simp: inv_at_def)
qed

theorem exit_frees_and_wakes_witness:
  "\<exists>w'. resume_leave ex_os 6 10 (ex_world\<lparr>uts := (uts ex_world)(10 \<mapsto> ex_ut\<lparr>ut_id := 1, status := BIT UT_ST_EXITED\<rparr>)\<rparr>) =
    Inr (0, w') \<and> inv_at {} w' \<and> uts w' 10 = None \<and> n_uthread (glob w') = 2"
proof -
  let ?u = "ex_ut\<lparr>ut_id := 1, status := BIT UT_ST_EXITED\<rparr>"
  let ?w = "ex_world\<lparr>uts := (uts ex_world)(10 \<mapsto> ?u)\<rparr>"
  have like: "like (ex_ut\<lparr>ut_id := 1\<rparr>) ?u" by (simp add: like_def)
  have "inv_at {10} ?w"
    using core_like [OF ex_core ex_uts(1) like] like_upd(6) [where U = "uts ex_world", OF ex_uts(1) like]
    by (simp add: inv_at_def ex_sets)
  moreover have "stack_ok ?w ?u" "0 \<notin> waiters (uts ?w)"
    by (simp_all add: stack_ok_def waiters_def ex_world_def)
  ultimately show ?thesis
    using exit_frees_and_wakes [of 10 "{}" ?w ?u 6 ex_sched ex_os] ex_scheds
    by (simp add: joiner_ok_def) (auto simp: ex_os_def ex_world_def)
qed

subsection \<open>Join\<close>

text \<open>
  C36: \<^verbatim>\<open>uthread_join\<close> refuses to join the caller itself (\<^verbatim>\<open>EDEADLK\<close>), a detached uthread and a uthread
  that is being joined already (\<^verbatim>\<open>EINVAL\<close>): it returns -1 at once and changes \<^verbatim>\<open>errno\<close> only.
\<close>

theorem uthread_join_refuses:
  assumes "current_is cur w" "ut = cur \<or> uts w ut = Some v \<and> (bit (status v) UT_ST_DETACHED \<or> ut_joined v \<noteq> NULL)"
    and "ut \<noteq> NULL"
  shows "uthread_join os ut rv w =
    Ret (-1) (w\<lparr>errno := if ut = cur then EDEADLK else EINVAL\<rparr>)"
proof -
  have "join_tests os cur ut w = Inr (Some (-1), w\<lparr>errno := if ut = cur then EDEADLK else EINVAL\<rparr>)"
    using assms(2,3) by (auto simp: join_tests_def op_simps ut_get_stale_def)
  then show ?thesis
    by (simp add: uthread_join_def lift_current [OF assms(1)] lift_run(1) [of "join_tests os cur ut"] cret_run)
qed

theorem uthread_join_refuses_witness:
  "uthread_join ex_os 10 0 ex_world = Ret (-1) (ex_world\<lparr>errno := EDEADLK\<rparr>)"
  using uthread_join_refuses [OF ex_current, of 10 undefined ex_os 0] by simp

text \<open>The call, the state at the switch, and the rest of it after the switch back.\<close>

lemma join_core:
  assumes "inv_at (insert cur R) w" "cur \<notin> R" "current_is cur w" "uts w cur = Some c" "\<not> 0 \<le>s fd_wait c"
    and "ut \<noteq> cur" "uts w ut = Some v" "\<not> bit (status v) UT_ST_DETACHED" "ut_joined v = NULL"
    and "\<not> bit (status v) UT_ST_EXITED"
    and "os_gettimeofday os (kern w) = (now, k)"
    and "\<forall>b \<in> of_p (uts w) (ut_p c) \<inter> asleep (uts w). skey (uts w) b \<noteq> wake_at now 10000"
  shows "\<exists>w' rest. uthread_join os ut rv w = Susp cur w' rest \<and> inv_at R w' \<and> scheds w' = scheds w \<and>
    uts w' = (uts w)(ut \<mapsto> v\<lparr>ut_joined := cur, retval := rv\<rparr>, cur \<mapsto> slept (wake_at now 10000) c) \<and>
    (\<forall>w'' c'' v''. uts w'' cur = Some c'' \<and> \<not> bit (status c'') UT_ST_EXPIRED \<and> uts w'' ut = None \<and>
       dead w'' ut = Some v'' \<and> ut_id (after_free os v'') < MAX_COUNT_UTHREAD \<longrightarrow>
       (\<exists>w3. rest w'' = Ret 0 w3 \<and> bitmap_ut (glob w3) (ut_id (after_free os v'')) = 0)) \<and>
    (\<forall>w'' c''. uts w'' cur = Some c'' \<and> bit (status c'') UT_ST_EXPIRED \<and> uts w'' ut = None \<longrightarrow>
       rest w'' = Fail BadAccess)"
proof -
  let ?v = "v\<lparr>ut_joined := cur, retval := rv\<rparr>" let ?w = "w\<lparr>uts := (uts w)(ut \<mapsto> ?v)\<rparr>"
  have core: "core (insert cur R) (waiters (uts w)) w" using assms(1) by (simp add: inv_at_def)
  have ut0: "ut \<noteq> NULL" by (rule coreD(1) [OF core assms(7)])
  have cur0: "cur \<noteq> NULL" by (rule coreD(1) [OF core assms(4)])
  have like: "like v ?v" by (simp add: like_def)
  note same = like_upd [where U = "uts w", OF assms(7) like]
  have c1: "core (insert cur R) (waiters (uts w)) ?w" by (rule core_like [OF core assms(7) like])
  have cur1: "current_is cur ?w" using assms(3) by (simp add: current_is_def)
  have t: "join_tests os cur ut w = Inr (None, w)"
    using assms(6-10) ut0 by (auto simp: join_tests_def op_simps ut_get_stale_def)
  have mark: "oseq (ut_upd ut (\<lambda>u. u\<lparr>ut_joined := cur\<rparr>)) (ut_upd ut (\<lambda>u. u\<lparr>retval := rv\<rparr>)) w = Inr ((), ?w)"
    using ut0 assms(7) by (simp add: op_simps)
  have cc: "uts ?w cur = Some c" using assms(4,6) by simp
  have new: "\<forall>b \<in> of_p (uts ?w) (ut_p c) \<inter> asleep (uts ?w). skey (uts ?w) b \<noteq> wake_at now 10000"
    using assms(12) by (simp add: same)
  have now: "os_gettimeofday os (kern ?w) = (now, k)" using assms(11) by simp
  obtain w' where w': "uthread_sched_sleep os cur 10000 ?w = Susp cur w' (lift (sleep_leave cur))"
    "core R (waiters (uts w)) w'" "uts w' = (uts ?w)(cur \<mapsto> slept (wake_at now 10000) c)" "scheds w' = scheds w"
    using sched_sleep_core [OF c1 assms(2) cur1 cc now new] by auto
  let ?rest = "cseq (lift (sleep_leave cur)) (lift (join_leave os cur ut rv))"
  have run: "uthread_join os ut rv w = Susp cur w' ?rest"
    unfolding uthread_join_def lift_current [OF assms(3)] lift_run(1) [of "join_tests os cur ut", OF t] option.case
      lift_run(2) [of "oseq (ut_upd ut (\<lambda>u. u\<lparr>ut_joined := cur\<rparr>)) (ut_upd ut (\<lambda>u. u\<lparr>retval := rv\<rparr>))", OF mark]
    by (rule cseq_Susp') (rule w'(1))
  have "cur \<notin> waiters (uts w)" using assms(4,5) by (simp add: waiters_def)
  then have "waiters (uts w') = waiters (uts w)"
    unfolding w'(3) using waiters_upd [where U = "uts ?w" and ut = cur, OF cc] assms(5) same(6) by simp
  then have "inv_at R w'" using w'(2) by (simp add: inv_at_def)
  moreover have "\<exists>w3. ?rest w2 = Ret 0 w3 \<and> bitmap_ut (glob w3) (ut_id (after_free os v2)) = 0"
    if *: "uts w2 cur = Some c2" "\<not> bit (status c2) UT_ST_EXPIRED" "uts w2 ut = None" "dead w2 ut = Some v2"
      "ut_id (after_free os v2) < MAX_COUNT_UTHREAD" for w2 c2 v2
  proof -
    let ?w2 = "w2\<lparr>uts := (uts w2)(cur \<mapsto> c2\<lparr>status := status c2 AND CLEARBIT UT_ST_SLEEPING\<rparr>)\<rparr>"
    have l: "sleep_leave cur w2 = Inr ((), ?w2)" using *(1) cur0 by (simp add: sleep_leave_def op_simps)
    have "join_leave os cur ut rv ?w2 =
        Inr (0, ?w2\<lparr>glob := (glob w2)\<lparr>bitmap_ut := (bitmap_ut (glob w2))(ut_id (after_free os v2) := 0)\<rparr>\<rparr>)"
      using * cur0 ut0 assms(6) by (simp add: join_leave_def op_simps ut_get_stale_def set_bitmap_ut_def)
    then show ?thesis
      by (simp add: lift_run(2) [of "sleep_leave cur", OF l] lift_run(3))
  qed
  moreover have "?rest w2 = Fail BadAccess"
    if *: "uts w2 cur = Some c2" "bit (status c2) UT_ST_EXPIRED" "uts w2 ut = None" for w2 c2
  proof -
    let ?w2 = "w2\<lparr>uts := (uts w2)(cur \<mapsto> c2\<lparr>status := status c2 AND CLEARBIT UT_ST_SLEEPING\<rparr>)\<rparr>"
    have l: "sleep_leave cur w2 = Inr ((), ?w2)" using *(1) cur0 by (simp add: sleep_leave_def op_simps)
    have "join_leave os cur ut rv ?w2 = Inl BadAccess"
      using * cur0 ut0 assms(6) by (simp add: join_leave_def op_simps ut_upd_def deref_def)
    then show ?thesis by (simp add: lift_run(2) [of "sleep_leave cur", OF l]) (simp add: lift_def)
  qed
  ultimately show ?thesis using run w'(3,4) by (intro exI [of _ w'] exI [of _ ?rest]) auto
qed

text \<open>
  C14: \<^verbatim>\<open>uthread_join\<close> on a uthread that is still there: the target remembers the caller and the place
  for its value, the caller sleeps with a timeout of ten seconds and the invariant holds at the
  switch.  When the caller runs again without having timed out, after the target has been freed,
  the call returns 0 and the id read from the freed structure is free in the bitmap.  If the
  caller has timed out in any wait before, the call takes the branch for a timeout and writes to
  the freed target.
\<close>

theorem uthread_join_waits:
  assumes "inv_at (insert cur R) w" "cur \<notin> R" "current_is cur w" "uts w cur = Some c" "\<not> 0 \<le>s fd_wait c"
    and "ut \<noteq> cur" "uts w ut = Some v" "\<not> bit (status v) UT_ST_DETACHED" "ut_joined v = NULL"
    and "\<not> bit (status v) UT_ST_EXITED"
    and "os_gettimeofday os (kern w) = (now, k)"
    and "\<forall>b \<in> of_p (uts w) (ut_p c) \<inter> asleep (uts w). skey (uts w) b \<noteq> wake_at now 10000"
  shows "\<exists>w' rest. uthread_join os ut rv w = Susp cur w' rest \<and> inv_at R w' \<and>
    uts w' = (uts w)(ut \<mapsto> v\<lparr>ut_joined := cur, retval := rv\<rparr>, cur \<mapsto> slept (wake_at now 10000) c) \<and>
    (\<forall>w'' c'' v''. uts w'' cur = Some c'' \<and> \<not> bit (status c'') UT_ST_EXPIRED \<and> uts w'' ut = None \<and>
       dead w'' ut = Some v'' \<and> ut_id (after_free os v'') < MAX_COUNT_UTHREAD \<longrightarrow>
       (\<exists>w3. rest w'' = Ret 0 w3 \<and> bitmap_ut (glob w3) (ut_id (after_free os v'')) = 0)) \<and>
    (\<forall>w'' c''. uts w'' cur = Some c'' \<and> bit (status c'') UT_ST_EXPIRED \<and> uts w'' ut = None \<longrightarrow>
       rest w'' = Fail BadAccess)"
  using join_core [OF assms, of rv] by blast

theorem uthread_join_waits_witness:
  "\<exists>w' rest. uthread_join ex_os 11 0 ex_world = Susp 10 w' rest \<and> inv_at {} w' \<and>
    (\<exists>v. uts w' 11 = Some v \<and> ut_joined v = 10)"
proof -
  let ?v = "ex_ut\<lparr>ut_id := 2\<rparr>" and ?c = "ex_ut\<lparr>ut_id := 1\<rparr>"
  have "\<exists>w' rest. uthread_join ex_os 11 0 ex_world = Susp 10 w' rest \<and> inv_at {} w' \<and>
    uts w' = (uts ex_world)(11 \<mapsto> ?v\<lparr>ut_joined := 10, retval := 0\<rparr>, 10 \<mapsto> slept (wake_at (0, 100) 10000) ?c) \<and>
    (\<forall>w'' c'' v''. uts w'' 10 = Some c'' \<and> \<not> bit (status c'') UT_ST_EXPIRED \<and> uts w'' 11 = None \<and>
       dead w'' 11 = Some v'' \<and> ut_id (after_free ex_os v'') < MAX_COUNT_UTHREAD \<longrightarrow>
       (\<exists>w3. rest w'' = Ret 0 w3 \<and> bitmap_ut (glob w3) (ut_id (after_free ex_os v'')) = 0)) \<and>
    (\<forall>w'' c''. uts w'' 10 = Some c'' \<and> bit (status c'') UT_ST_EXPIRED \<and> uts w'' 11 = None \<longrightarrow>
       rest w'' = Fail BadAccess)"
    by (rule uthread_join_waits [where R = "{}" and w = ex_world, OF _ _ ex_current ex_uts(1) _ _ ex_uts(2) _ _ _ ex_now])
      (use ex_inv in \<open>simp_all add: ex_sets skey_def ex_uts wake_at_def word_sle_eq\<close>)
  then show ?thesis by force
qed

text \<open>A state in which a joiner (12) sleeps and its ten seconds are over.\<close>

definition ex_late :: "ex_kern world" where
  "ex_late = ex_world\<lparr>uts := (uts ex_world)(12 \<mapsto> ex_waiter\<lparr>fd_wait := -1\<rparr>),
     ps := [4 \<mapsto> ex_proc\<lparr>waiting := NULL\<rparr>], kern := (2000000, [])\<rparr>"

lemma ex_late_core: "core {10} {} ex_late"
proof -
  have u: "uts ex_late a = Some u \<longleftrightarrow> a = 10 \<and> u = ex_ut\<lparr>ut_id := 1\<rparr> \<or> a = 11 \<and> u = ex_ut\<lparr>ut_id := 2\<rparr> \<or>
     a = 12 \<and> u = ex_waiter\<lparr>fd_wait := -1\<rparr>" for a u
    by (auto simp: ex_late_def ex_world_def)
  have sets: "asleep (uts ex_late) = {12}" "of_p (uts ex_late) 4 = {10, 11, 12}" "dom (uts ex_late) = {10, 11, 12}"
    by (auto simp: asleep_def of_p_def u dom_def)
  have "p_ok (uts ex_late) {10} {} (sleep_mem ex_late) (wait_mem ex_late) 4 (ex_proc\<lparr>waiting := NULL\<rparr>)"
    unfolding p_ok_def sets
  proof (intro conjI)
    show "\<exists>xs. rbtree (skey (uts ex_late)) (sleep_mem ex_late) (sleeping (ex_proc\<lparr>waiting := NULL\<rparr>)) xs \<and>
        set xs = {10, 11, 12} \<inter> {12}"
      using rbtree_single [of 12 "sleep_mem ex_late"]
      by (intro exI [of _ "[12]"]) (simp add: ex_proc_def ex_late_def ex_world_def)
  qed (auto simp: ex_proc_def rbtree_empty intro: exI [of _ "[]"])
  moreover have "ps ex_late = [4 \<mapsto> ex_proc\<lparr>waiting := NULL\<rparr>]" "dom (sleep_mem ex_late) = {10, 11, 12}"
    "dom (wait_mem ex_late) = {10, 11, 12}" by (auto simp: ex_late_def ex_world_def)
  moreover have "ut_p v = 4" if "uts ex_late a = Some v" for a v using that by (auto simp: u)
  ultimately show ?thesis unfolding core_def sets by (auto split: if_splits)
qed

text \<open>
  C19: The timeout of \<^verbatim>\<open>uthread_join\<close> never reaches the caller.  When the time of the first sleeper is over
  and it sleeps in a join, so that its \<^verbatim>\<open>fd_wait\<close> is -1, and \<^verbatim>\<open>epoll_ctl\<close> fails on the descriptor -1 as it is
  documented to, then the assertion in \<^verbatim>\<open>_uthread_cancel_event\<close> aborts the process.
\<close>

theorem join_timeout_aborts:
  assumes "inv_at R w" "s \<noteq> NULL" "scheds w s = Some sc" "ps w (sched_p sc) = Some q"
    and "uts w ut = Some u" "ut_p u = sched_p sc" "bit (status u) UT_ST_SLEEPING" "fd_wait u = -1"
    and "\<forall>b \<in> of_p (uts w) (sched_p sc) \<inter> asleep (uts w). skey (uts w) ut \<le> skey (uts w) b"
    and "os_gettimeofday os (kern w) = ((sec, usec), k)" "wakeup_time_usec u \<le> sec * 1000000 + usec"
    and "\<forall>m k. fst (os_epoll_ctl os (poller_fd q) EPOLL_CTL_DEL (-1) m k) \<noteq> 0"
  shows "expired_turn os prog s (w, m) = Inl AssertFail"
proof -
  have c: "core R (waiters (uts w)) w" using assms(1) by (simp add: inv_at_def)
  have "ut \<in> of_p (uts w) (sched_p sc) \<inter> asleep (uts w)" using assms(5-7) by (auto simp: of_p_def asleep_def)
  note first = first_sleeper [OF c assms(4) this assms(9)]
  have "core R (waiters (uts w)) (w\<lparr>kern := k\<rparr>)" by (rule core_fields [OF c]) simp_all
  from cancel_join_aborts [OF this, of ut u q os] assms(4-6,8,12)
  have "uthread_cancel_event os ut (w\<lparr>kern := k\<rparr>) = Inl AssertFail" by simp
  then show ?thesis
    using expired_turn_look [OF c assms(2-4) first assms(5,10), of prog m] assms(11) by (simp add: op_simps)
qed

theorem join_timeout_aborts_witness:
  "expired_turn ex_os (\<lambda>_ _. uthread_yield) 6 (ex_late, Map.empty) = Inl AssertFail"
proof (rule join_timeout_aborts [where R = "{10}" and ut = 12 and u = "ex_waiter\<lparr>fd_wait := -1\<rparr>" and sc = ex_sched
      and q = "ex_proc\<lparr>waiting := NULL\<rparr>" and sec = 0 and usec = 2000000 and k = "(2000001, [])"])
  have w: "waiters (uts ex_late) = {}"
    by (auto simp: waiters_def ex_late_def ex_world_def word_sle_eq split: if_splits)
  show "inv_at {10} ex_late" using ex_late_core by (simp add: inv_at_def w)
  have "asleep (uts ex_late) \<subseteq> {12}" by (auto simp: asleep_def ex_late_def ex_world_def split: if_splits)
  then show "\<forall>b \<in> of_p (uts ex_late) (sched_p ex_sched) \<inter> asleep (uts ex_late).
      skey (uts ex_late) 12 \<le> skey (uts ex_late) b" by auto
qed (simp_all add: ex_late_def ex_world_def ex_sched_def ex_os_def)

end
