(* ===== verification/Ut_Coop.thy ===== *)
theory Ut_Coop
  imports Ut_Boot Ut_Join
begin

text \<open>
  Cooperative code: what a uthread has to guarantee each time it switches to the scheduler, what it
  may rely on when it runs again, and the operations of the library that keep to it.

  The fragment is that of uthreads that compute, make system calls, create uthreads, yield and end;
  nobody sleeps and nobody waits.
\<close>

subsection \<open>Guarantees of a run\<close>

text \<open>
  \<open>coop F ut G I X Q r w\<close>: the run \<open>r\<close> of \<open>ut\<close>, started in the state \<open>w\<close>, ends in no crash but one of \<open>F\<close>; every
  part of it, from its start or from a switch back up to a return or a switch to the scheduler, is a step
  of \<open>G\<close>; after each switch, unless \<open>X\<close> holds there, it may go on in any state of \<open>I\<close> in the same way;
  if it returns, \<open>Q\<close> holds.
\<close>

primrec coop ::
  "(crash \<Rightarrow> bool) \<Rightarrow> ptr \<Rightarrow> ('s \<Rightarrow> 's \<Rightarrow> bool) \<Rightarrow> ('s \<Rightarrow> bool) \<Rightarrow> ('s \<Rightarrow> bool) \<Rightarrow> ('a \<Rightarrow> 's \<Rightarrow> bool) \<Rightarrow>
   ('s, 'a) outcome \<Rightarrow> 's \<Rightarrow> bool" where
  "coop F ut G I X Q (Ret a s) s0 = (G s0 s \<and> Q a s)"
| "coop F ut G I X Q (Fail e) s0 = F e"
| "coop F ut G I X Q (Susp u s c) s0 = (u = ut \<and> G s0 s \<and> (X s \<or> (\<forall>s'. I s' \<longrightarrow> coop F ut G I X Q (c s') s')))"

lemma coop_base:
  assumes "coop F ut G I X Q r s1" "G s0 s1" "\<And>s. G s0 s1 \<Longrightarrow> G s1 s \<Longrightarrow> G s0 s"
  shows "coop F ut G I X Q r s0"
  using assms by (cases r) auto

lemma coop_and_then:
  assumes trans: "\<And>a b c. G a b \<Longrightarrow> G b c \<Longrightarrow> G a c"
  shows "coop F ut G I X (\<lambda>a s. coop F ut G I X Q (f a s) s) r s0 \<Longrightarrow> coop F ut G I X Q (and_then r f) s0"
proof (induction r arbitrary: s0)
  case (Ret a s)
  then show ?case using coop_base [of F ut G I X Q "f a s" s s0] trans by auto
qed auto

lemma coop_mono:
  "coop F ut G I X P r s0 \<Longrightarrow> (\<And>s0 a s. G s0 s \<Longrightarrow> P a s \<Longrightarrow> Q a s) \<Longrightarrow> coop F ut G I X Q r s0"
  by (induction r arbitrary: s0) auto

subsection \<open>The rest of a run gets smaller\<close>

definition shorter :: "(('s, 'a) co \<times> ('s, 'a) co) set" where
  "shorter = {(c', c). \<exists>s u s'. c s = Susp u s' c'}"

lemma wf_shorter: "wf (shorter :: (('s, 'a) co \<times> ('s, 'a) co) set)"
proof (rule wfUNIVI)
  fix P :: "('s, 'a) co \<Rightarrow> bool" and c
  assume step: "\<forall>c. (\<forall>c'. (c', c) \<in> shorter \<longrightarrow> P c') \<longrightarrow> P c"
  have "\<forall>u s' c'. r = Susp u s' c' \<longrightarrow> P c'" for r :: "('s, 'a) outcome"
  proof (induction r)
    case (Susp u s' k)
    have "P c'" if "(c', k) \<in> shorter" for c' using Susp [OF rangeI] that unfolding shorter_def by blast
    then have "P k" using step by blast
    then show ?case by simp
  qed simp_all
  then have "P c'" if "(c', c) \<in> shorter" for c' using that unfolding shorter_def by blast
  then show "P c" using step by blast
qed

subsection \<open>The contract of the system\<close>

text \<open>
  \<open>owned k\<close> are the addresses that the allocator has handed out.  Allocation succeeds and gives an address
  that has not been handed out before; the other calls hand out nothing that the program is told
  about.
\<close>

definition alloc_ok :: "'k os \<Rightarrow> ('k \<Rightarrow> ptr set) \<Rightarrow> bool" where
  "alloc_ok os owned \<longleftrightarrow>
     (\<forall>k a k'. os_malloc os k = (a, k') \<longrightarrow> a \<noteq> NULL \<and> a \<notin> owned k \<and> insert a (owned k) \<subseteq> owned k') \<and>
     (\<forall>k r a k'. os_memalign os k = ((r, a), k') \<longrightarrow> r = 0 \<and> a \<notin> owned k \<and> insert a (owned k) \<subseteq> owned k') \<and>
     (\<forall>c k. owned k \<subseteq> owned (snd (os_call os c k))) \<and>
     (\<forall>k. owned k \<subseteq> owned (snd (os_epoll_create os k))) \<and>
     (\<forall>k. owned k \<subseteq> owned (snd (os_pthread_create os k)))"

lemma alloc_okD:
  assumes "alloc_ok os owned"
  shows "os_malloc os k = (a, k') \<Longrightarrow> a \<noteq> NULL \<and> a \<notin> owned k \<and> a \<in> owned k' \<and> owned k \<subseteq> owned k'"
    "os_memalign os k = ((r, a), k') \<Longrightarrow> r = 0 \<and> a \<notin> owned k \<and> a \<in> owned k' \<and> owned k \<subseteq> owned k'"
    "os_call os c k = (x, k') \<Longrightarrow> owned k \<subseteq> owned k'"
    "os_epoll_create os k = (y, k') \<Longrightarrow> owned k \<subseteq> owned k'"
    "os_pthread_create os k = (y, k') \<Longrightarrow> owned k \<subseteq> owned k'"
  using assms unfolding alloc_ok_def by (blast, blast, metis snd_conv, metis snd_conv, metis snd_conv)

subsection \<open>The state\<close>

definition sched_stacks :: "'k world \<Rightarrow> ptr list" where
  "sched_stacks w = map (\<lambda>s. sched_stack (the (scheds w s))) (sched_with_stack (glob w))"

text \<open>
  The memory: what the program uses has been handed out; the stacks of the schedulers and of the uthreads
  are allocated and different from each other (\<^verbatim>\<open>main\<close> keeps the stack of its thread).
\<close>

definition mem_ok :: "('k \<Rightarrow> ptr set) \<Rightarrow> 'k world \<Rightarrow> bool" where
  "mem_ok owned w \<longleftrightarrow>
     dom (uts w) \<union> dom (blocks w) \<subseteq> owned (kern w) \<and> finite (dom (uts w)) \<and>
     NULL \<notin> set (sched_with_stack (glob w)) \<and> set (sched_with_stack (glob w)) \<subseteq> dom (scheds w) \<and>
     distinct (sched_stacks w) \<and> set (sched_stacks w) \<subseteq> dom (blocks w) \<and>
     (\<forall>a u. uts w a = Some u \<and> is_main u = 0 \<longrightarrow> stack u \<in> dom (blocks w) - set (sched_stacks w)) \<and>
     (\<forall>a b u v. uts w a = Some u \<and> uts w b = Some v \<and> is_main u = 0 \<and> is_main v = 0 \<and> stack u = stack v \<longrightarrow> a = b)"

text \<open>
  The scheduler \<open>s\<close> of the running thread holds the only \<^verbatim>\<open>p\<close> with uthreads; nobody joins, and nobody but the
  running uthread has exited; the count is right.
\<close>

definition orderly :: "('k \<Rightarrow> ptr set) \<Rightarrow> ptr \<Rightarrow> ptr \<Rightarrow> ptr set \<Rightarrow> 'k world \<Rightarrow> bool" where
  "orderly owned s p R w \<longleftrightarrow>
     inv_at R w \<and> mem_ok owned w \<and>
     s \<noteq> NULL \<and> tsd w = s \<and> p \<in> dom (ps w) \<and> (\<exists>sc. scheds w s = Some sc \<and> sched_p sc = p) \<and>
     (\<forall>a u. uts w a = Some u \<longrightarrow> ut_p u = p \<and> ut_joined u = NULL \<and> ut_id u < MAX_COUNT_UTHREAD \<and>
       (a \<notin> R \<longrightarrow> \<not> bit (status u) UT_ST_EXITED)) \<and>
     n_uthread (glob w) = of_nat (card (dom (uts w))) \<and> next_ut_id (glob w) < MAX_COUNT_UTHREAD \<and>
     length (slot (wheel w)) = TIME_WHEEL_SIZE \<and> current (wheel w) < TIME_WHEEL_SIZE"

lemma orderlyD:
  assumes "orderly owned s p R w"
  shows "inv_at R w" "mem_ok owned w" "s \<noteq> NULL" "tsd w = s" "p \<in> dom (ps w)"
    "\<exists>sc. scheds w s = Some sc \<and> sched_p sc = p"
    "\<And>a u. uts w a = Some u \<Longrightarrow> ut_p u = p" "\<And>a u. uts w a = Some u \<Longrightarrow> ut_joined u = NULL"
    "\<And>a u. uts w a = Some u \<Longrightarrow> ut_id u < MAX_COUNT_UTHREAD"
    "\<And>a u. uts w a = Some u \<Longrightarrow> a \<notin> R \<Longrightarrow> \<not> bit (status u) UT_ST_EXITED"
    "n_uthread (glob w) = of_nat (card (dom (uts w)))" "next_ut_id (glob w) < MAX_COUNT_UTHREAD"
    "length (slot (wheel w)) = TIME_WHEEL_SIZE" "current (wheel w) < TIME_WHEEL_SIZE"
  using assms unfolding orderly_def by blast+

text \<open>In the cooperative fragment nobody sleeps.\<close>

definition calm :: "('k \<Rightarrow> ptr set) \<Rightarrow> ptr \<Rightarrow> ptr \<Rightarrow> ptr set \<Rightarrow> 'k world \<Rightarrow> bool" where
  "calm owned s p R w \<longleftrightarrow> orderly owned s p R w \<and> asleep (uts w) = {}"

lemma calmD:
  assumes "calm owned s p R w"
  shows "inv_at R w" "asleep (uts w) = {}" "mem_ok owned w" "s \<noteq> NULL" "tsd w = s" "p \<in> dom (ps w)"
    "\<exists>sc. scheds w s = Some sc \<and> sched_p sc = p"
    "\<And>a u. uts w a = Some u \<Longrightarrow> ut_p u = p" "\<And>a u. uts w a = Some u \<Longrightarrow> ut_joined u = NULL"
    "\<And>a u. uts w a = Some u \<Longrightarrow> ut_id u < MAX_COUNT_UTHREAD"
    "\<And>a u. uts w a = Some u \<Longrightarrow> a \<notin> R \<Longrightarrow> \<not> bit (status u) UT_ST_EXITED"
    "n_uthread (glob w) = of_nat (card (dom (uts w)))" "next_ut_id (glob w) < MAX_COUNT_UTHREAD"
    "length (slot (wheel w)) = TIME_WHEEL_SIZE" "current (wheel w) < TIME_WHEEL_SIZE"
  using assms unfolding calm_def orderly_def by blast+

text \<open>
  The uthread \<open>ut\<close> runs.  \<open>rank\<close> gives each function a level; code of a level creates uthreads with functions of
  lower levels only, so that creation ends.
\<close>

definition runs :: "('k \<Rightarrow> ptr set) \<Rightarrow> ptr \<Rightarrow> ptr \<Rightarrow> (ptr \<Rightarrow> nat) \<Rightarrow> nat \<Rightarrow> ptr \<Rightarrow> 'k world \<Rightarrow> bool" where
  "runs owned s p rank r ut w \<longleftrightarrow> calm owned s p {ut} w \<and> current_is ut w \<and>
     (\<exists>u. uts w ut = Some u \<and> rank (func u) = r \<and> \<not> bit (status u) UT_ST_NEW)"

definition exited :: "ptr \<Rightarrow> 'k world \<Rightarrow> bool" where
  "exited ut w \<longleftrightarrow> (\<exists>u. uts w ut = Some u \<and> bit (status u) UT_ST_EXITED)"

text \<open>
  What a part of a run may do: it leaves the running state as it should be, keeps the other uthreads,
  adds new ones of lower levels, and appends to the ready queue.
\<close>

definition kept_code :: "uthread \<Rightarrow> uthread \<Rightarrow> bool" where
  "kept_code u v \<longleftrightarrow> func v = func u \<and> (bit (status v) UT_ST_NEW \<longleftrightarrow> bit (status u) UT_ST_NEW)"

definition queue_of :: "ptr \<Rightarrow> 'k world \<Rightarrow> ptr list" where
  "queue_of p w = ready (the (ps w p))"

definition part ::
  "('k \<Rightarrow> ptr set) \<Rightarrow> ptr \<Rightarrow> ptr \<Rightarrow> (ptr \<Rightarrow> nat) \<Rightarrow> nat \<Rightarrow> ptr \<Rightarrow> 'k world \<Rightarrow> 'k world \<Rightarrow> bool" where
  "part owned s p rank r ut w0 w \<longleftrightarrow> runs owned s p rank r ut w \<and>
     (\<forall>a u. uts w0 a = Some u \<longrightarrow> (\<exists>v. uts w a = Some v \<and> kept_code u v)) \<and>
     (\<forall>a v. uts w a = Some v \<and> uts w0 a = None \<longrightarrow> bit (status v) UT_ST_NEW \<and> rank (func v) < r) \<and>
     (\<exists>xs. queue_of p w = queue_of p w0 @ xs)"

lemma part_trans:
  assumes "part owned s p rank r ut w0 w1" "part owned s p rank r ut w1 w2"
  shows "part owned s p rank r ut w0 w2"
proof -
  have "\<exists>v. uts w2 a = Some v \<and> kept_code u v" if "uts w0 a = Some u" for a u
  proof -
    obtain v where v: "uts w1 a = Some v" "kept_code u v" using assms(1) \<open>uts w0 a = Some u\<close> unfolding part_def by blast
    then obtain v' where "uts w2 a = Some v'" "kept_code v v'" using assms(2) unfolding part_def by blast
    with v show ?thesis by (auto simp: kept_code_def)
  qed
  moreover have "bit (status v) UT_ST_NEW \<and> rank (func v) < r" if v: "uts w2 a = Some v" "uts w0 a = None" for a v
  proof (cases "uts w1 a")
    case None
    then show ?thesis using assms(2) v unfolding part_def by blast
  next
    case (Some u)
    then have "bit (status u) UT_ST_NEW \<and> rank (func u) < r" using assms(1) v unfolding part_def by blast
    moreover have "kept_code u v" using assms(2) Some v(1) unfolding part_def by fastforce
    ultimately show ?thesis by (auto simp: kept_code_def)
  qed
  moreover have "\<exists>xs. queue_of p w2 = queue_of p w0 @ xs" using assms unfolding part_def by fastforce
  ultimately show ?thesis using assms(2) unfolding part_def by blast
qed

text \<open>The contract of the code of a uthread, and of a program.\<close>

abbreviation cooperates ::
  "('k \<Rightarrow> ptr set) \<Rightarrow> ptr \<Rightarrow> ptr \<Rightarrow> (ptr \<Rightarrow> nat) \<Rightarrow> nat \<Rightarrow> ptr \<Rightarrow> ('a \<Rightarrow> 'k world \<Rightarrow> bool) \<Rightarrow>
   ('k world, 'a) outcome \<Rightarrow> 'k world \<Rightarrow> bool" where
  "cooperates owned s p rank r ut \<equiv>
     coop (\<lambda>_. False) ut (part owned s p rank r ut) (\<lambda>w. runs owned s p rank r ut w \<and> \<not> exited ut w) (exited ut)"

definition cooperative ::
  "('k \<Rightarrow> ptr set) \<Rightarrow> ptr \<Rightarrow> ptr \<Rightarrow> (ptr \<Rightarrow> nat) \<Rightarrow> nat \<Rightarrow> ('k world, 'a) co \<Rightarrow> bool" where
  "cooperative owned s p rank r c \<longleftrightarrow>
     (\<forall>ut w. runs owned s p rank r ut w \<and> \<not> exited ut w \<longrightarrow>
        cooperates owned s p rank r ut (\<lambda>_ w. \<not> exited ut w) (c w) w)"

subsection \<open>Changes that leave the state orderly\<close>

text \<open>A change of a uthread that keeps its \<^verbatim>\<open>p\<close>, its id, its stack and its joiner.\<close>

definition kin :: "uthread \<Rightarrow> uthread \<Rightarrow> bool" where
  "kin u v \<longleftrightarrow> ut_p v = ut_p u \<and> ut_joined v = ut_joined u \<and> ut_id v = ut_id u \<and> is_main v = is_main u \<and> stack v = stack u"

lemma kin_refl [simp]: "kin u u"
  by (simp add: kin_def)

lemma kin_upd: "U a = Some u \<Longrightarrow> kin u u' \<Longrightarrow> rel_option kin (U b) ((U(a \<mapsto> u')) b)"
  by (cases "U b") (auto simp: kin_def)

lemma kin_dom: "(\<And>a. rel_option kin (U a) (U' a)) \<Longrightarrow> dom U' = dom U"
  by (auto simp: dom_def) (metis option.rel_distinct(1,2) option.exhaust)+

lemma mem_ok_keep:
  assumes m: "mem_ok owned w" and kin: "\<And>a. rel_option kin (uts w a) (uts w' a)" and "blocks w' = blocks w"
    "sched_with_stack (glob w') = sched_with_stack (glob w)" "owned (kern w) \<subseteq> owned (kern w')"
    and sc: "\<And>a. map_option (\<lambda>sc. (sched_p sc, sched_stack sc)) (scheds w' a) = map_option (\<lambda>sc. (sched_p sc, sched_stack sc)) (scheds w a)"
  shows "mem_ok owned w'"
proof -
  have d: "dom (scheds w') = dom (scheds w)" using sc by (metis (no_types) domIff map_option_is_None subsetI subset_antisym)
  have st: "sched_stack (the (scheds w' a)) = sched_stack (the (scheds w a))" if "a \<in> dom (scheds w)" for a
    using sc [of a] that by (cases "scheds w' a") auto
  have s: "sched_stacks w' = sched_stacks w"
    unfolding sched_stacks_def using assms(4) m by (auto simp: mem_ok_def st subset_iff)
  have old: "\<exists>v. uts w b = Some v \<and> is_main v = is_main v' \<and> stack v = stack v'" if "uts w' b = Some v'" for b v'
    using kin [of b] that by (cases "uts w b") (auto simp: kin_def)
  have "stack v' \<in> dom (blocks w) - set (sched_stacks w)" if "uts w' b = Some v'" "is_main v' = 0" for b v'
    using old [OF that(1)] that(2) m unfolding mem_ok_def by metis
  moreover have "b = c" if "uts w' b = Some v" "uts w' c = Some v'" "is_main v = 0"
      "is_main v' = 0" "stack v = stack v'" for b c v v'
    using old [OF that(1)] old [OF that(2)] that(3-) m unfolding mem_ok_def by metis
  ultimately show ?thesis using m assms(3-5) unfolding mem_ok_def s d kin_dom [of "uts w" "uts w'", OF kin] by auto
qed

lemma orderly_keep:
  assumes c: "orderly owned s p R w" and "inv_at R' w'" and kin: "\<And>a. rel_option kin (uts w a) (uts w' a)"
    and ex: "\<And>a u. uts w' a = Some u \<Longrightarrow> a \<notin> R' \<Longrightarrow> \<not> bit (status u) UT_ST_EXITED"
    and "p \<in> dom (ps w')" "blocks w' = blocks w" "tsd w' = tsd w" "glob w' = glob w"
    and sc: "\<And>a. map_option (\<lambda>sc. (sched_p sc, sched_stack sc)) (scheds w' a) = map_option (\<lambda>sc. (sched_p sc, sched_stack sc)) (scheds w a)"
    and "length (slot (wheel w')) = length (slot (wheel w))" "current (wheel w') = current (wheel w)"
    and "owned (kern w) \<subseteq> owned (kern w')"
  shows "orderly owned s p R' w'"
proof -
  have m: "mem_ok owned w'" by (rule mem_ok_keep [OF orderlyD(2) [OF c] kin _ _ _ sc]) (use assms in simp_all)
  obtain sc0 where sc0: "scheds w s = Some sc0" "sched_p sc0 = p" using orderlyD(6) [OF c] by blast
  then have "\<exists>sc. scheds w' s = Some sc \<and> sched_p sc = p" using sc [of s] by auto
  moreover have "ut_p u = p \<and> ut_joined u = NULL \<and> ut_id u < MAX_COUNT_UTHREAD" if "uts w' a = Some u" for a u
    using kin [of a] that orderlyD(7-9) [OF c] by (cases "uts w a") (auto simp: kin_def)
  ultimately show ?thesis
    using c m assms kin_dom [of "uts w" "uts w'", OF kin] unfolding orderly_def by simp
qed

lemma calm_like:
  assumes c: "calm owned s p R w" and u: "uts w a = Some u" "like u u'" "is_main u' = is_main u" "stack u' = stack u"
    "ut_joined u' = ut_joined u" "ut_id u' = ut_id u"
    and ex: "a \<in> R \<or> (bit (status u') UT_ST_EXITED \<longleftrightarrow> bit (status u) UT_ST_EXITED)"
  shows "calm owned s p R (w\<lparr>uts := (uts w)(a \<mapsto> u')\<rparr>)"
proof -
  note upd = like_upd [where U = "uts w", OF u(1,2)]
  have o: "orderly owned s p R w" using c by (simp add: calm_def)
  have "inv_at R (w\<lparr>uts := (uts w)(a \<mapsto> u')\<rparr>)"
    using core_like [OF _ u(1,2), of R "waiters (uts w)"] calmD(1) [OF c] upd(6) by (simp add: inv_at_def)
  moreover have "rel_option kin (uts w b) (((uts w)(a \<mapsto> u')) b)" for b
    by (rule kin_upd [where U = "uts w", OF u(1)]) (use u(2-) in \<open>simp add: kin_def like_def\<close>)
  moreover have "\<not> bit (status v) UT_ST_EXITED" if "((uts w)(a \<mapsto> u')) b = Some v" "b \<notin> R" for b v
    using that calmD(11) [OF c] u(1) ex by (auto split: if_splits)
  ultimately have "orderly owned s p R (w\<lparr>uts := (uts w)(a \<mapsto> u')\<rparr>)"
    using calmD(6) [OF c] by (intro orderly_keep [OF o]) simp_all
  then show ?thesis using upd(5) calmD(2) [OF c] by (simp add: calm_def)
qed

lemma calm_fields:
  assumes c: "calm owned s p R w" and "uts w' = uts w" "ps w' = ps w" "sleep_mem w' = sleep_mem w"
    "wait_mem w' = wait_mem w" "blocks w' = blocks w" "tsd w' = tsd w" "glob w' = glob w"
    and sc: "\<And>a. map_option (\<lambda>sc. (sched_p sc, sched_stack sc)) (scheds w' a) = map_option (\<lambda>sc. (sched_p sc, sched_stack sc)) (scheds w a)"
    and "length (slot (wheel w')) = length (slot (wheel w))" "current (wheel w') = current (wheel w)"
    and "owned (kern w) \<subseteq> owned (kern w')"
  shows "calm owned s p R w'"
proof -
  have o: "orderly owned s p R w" using c by (simp add: calm_def)
  have "inv_at R w'" using calmD(1) [OF c] assms(2-5) core_fields [of R _ w w'] by (simp add: inv_at_def)
  then have "orderly owned s p R w'"
    by (rule orderly_keep [OF o _ _ _ _ _ _ _ sc]) (use assms calmD(6,11) [OF c] in \<open>auto simp: option.rel_refl\<close>)
  then show ?thesis using c assms(2) by (simp add: calm_def)
qed

text \<open>A uthread moves between the queue and the hands of the scheduler.\<close>

lemma calm_move:
  assumes c: "calm owned s p R w" and "inv_at R' (w\<lparr>ps := P\<rparr>)" "p \<in> dom P"
    and "\<And>a u. uts w a = Some u \<Longrightarrow> a \<notin> R' \<Longrightarrow> \<not> bit (status u) UT_ST_EXITED"
  shows "calm owned s p R' (w\<lparr>ps := P\<rparr>)"
proof -
  have o: "orderly owned s p R w" using c by (simp add: calm_def)
  have "orderly owned s p R' (w\<lparr>ps := P\<rparr>)"
    by (rule orderly_keep [OF o assms(2)]) (use assms(3,4) in \<open>auto simp: option.rel_refl\<close>)
  then show ?thesis using c by (simp add: calm_def)
qed

lemma runs_part:
  assumes "runs owned s p rank r ut w"
  shows "part owned s p rank r ut w w"
  using assms by (auto simp: part_def kept_code_def)

subsection \<open>Cooperative code\<close>

lemma cooperative_cret: "cooperative owned s p rank r (cret a)"
  by (simp add: cooperative_def cret_def runs_part)

lemma cooperative_cbind:
  assumes "cooperative owned s p rank r m" "\<And>a. cooperative owned s p rank r (f a)"
  shows "cooperative owned s p rank r (cbind m f)"
  unfolding cooperative_def
proof (intro allI impI)
  fix ut w
  assume w: "runs owned s p rank r ut w \<and> \<not> exited ut w"
  let ?C = "cooperates owned s p rank r ut"
  have "?C (\<lambda>_ w'. \<not> exited ut w') (m w) w" using assms(1) w unfolding cooperative_def by blast
  moreover have "?C (\<lambda>_ w. \<not> exited ut w) (f a w1) w1" if "runs owned s p rank r ut w1" "\<not> exited ut w1" for a w1
    using assms(2) [of a] that unfolding cooperative_def by blast
  ultimately have "?C (\<lambda>a w1. ?C (\<lambda>_ w. \<not> exited ut w) (f a w1) w1) (m w) w"
    by (rule coop_mono) (auto simp: part_def)
  then show "?C (\<lambda>_ w. \<not> exited ut w) (cbind m f w) w"
    unfolding cbind_def by (rule coop_and_then [where G = "part owned s p rank r ut", rotated]) (rule part_trans)
qed

lemma cooperates_base:
  "cooperates owned s p rank r ut Q x w1 \<Longrightarrow> part owned s p rank r ut w0 w1 \<Longrightarrow> cooperates owned s p rank r ut Q x w0"
  by (erule coop_base) (auto intro: part_trans)

lemma cooperative_cseq:
  assumes "cooperative owned s p rank r m" "cooperative owned s p rank r f"
  shows "cooperative owned s p rank r (cseq m f)"
  unfolding cseq_def by (intro cooperative_cbind assms)

text \<open>A change of the running uthread itself.\<close>

lemma runs_like:
  assumes w: "runs owned s p rank r ut w" and u: "uts w ut = Some u" "like u u'" "is_main u' = is_main u"
    "stack u' = stack u" "ut_joined u' = ut_joined u" "ut_id u' = ut_id u" "func u' = func u"
    "\<not> bit (status u') UT_ST_NEW"
  shows "part owned s p rank r ut w (w\<lparr>uts := (uts w)(ut \<mapsto> u')\<rparr>)"
proof -
  have "calm owned s p {ut} (w\<lparr>uts := (uts w)(ut \<mapsto> u')\<rparr>)"
    using w u(1-6) unfolding runs_def by (intro calm_like) auto
  then have "runs owned s p rank r ut (w\<lparr>uts := (uts w)(ut \<mapsto> u')\<rparr>)"
    using w u(1,7,8) by (auto simp: runs_def current_is_def)
  then show ?thesis using w u(1,7,8) by (auto simp: part_def runs_def kept_code_def queue_of_def)
qed

lemma runs_switch:
  assumes w: "runs owned s p rank r ut w" "uts w ut = Some u" and e: "exited ut w \<or> (\<forall>w'. runs owned s p rank r ut w' \<and> \<not> exited ut w' \<longrightarrow>
      cooperates owned s p rank r ut Q (f w') w')"
  shows "cooperates owned s p rank r ut Q (cseq uthread_yield f w) w"
proof -
  let ?u = "u\<lparr>is_wating_yield_signal := 0\<rparr>" let ?w = "w\<lparr>uts := (uts w)(ut \<mapsto> ?u)\<rparr>"
  have cur: "current_is ut w" "\<not> bit (status u) UT_ST_NEW" using w by (auto simp: runs_def)
  have "part owned s p rank r ut w ?w" by (rule runs_like [OF w]) (use cur(2) in \<open>simp_all add: like_def\<close>)
  moreover have "exited ut ?w \<longleftrightarrow> exited ut w" using w(2) by (simp add: exited_def)
  moreover have "cseq uthread_yield f w = Susp ut ?w f" by (rule cseq_Susp) (rule yield_suspends [OF cur(1) w(2)])
  ultimately show ?thesis using e by simp
qed

lemma yield_ret: "cseq uthread_yield (cret ()) = uthread_yield"
  by (simp add: cseq_def) (metis (mono_tags, lifting) cbind_cret(2) old.unit.exhaust ext)

lemma cooperative_yield: "cooperative owned s p rank r uthread_yield"
  unfolding cooperative_def
proof (intro allI impI)
  fix ut w
  assume w: "runs owned s p rank r ut w \<and> \<not> exited ut w"
  then obtain u where "uts w ut = Some u" by (auto simp: runs_def)
  then have "cooperates owned s p rank r ut (\<lambda>_ w. \<not> exited ut w) (cseq uthread_yield (cret ()) w) w"
    using w by (intro runs_switch) (auto simp: cret_def runs_part)
  then show "cooperates owned s p rank r ut (\<lambda>_ w. \<not> exited ut w) (uthread_yield w) w" by (simp add: yield_ret)
qed

text \<open>System calls.\<close>

lemma cooperative_libc:
  assumes "alloc_ok os owned"
  shows "cooperative owned s p rank r (lift (libc os c))"
  unfolding cooperative_def
proof (intro allI impI)
  fix ut w
  assume w: "runs owned s p rank r ut w \<and> \<not> exited ut w"
  obtain x e k where x: "os_call os c (kern w) = ((x, e), k)" by (metis surj_pair)
  let ?w = "w\<lparr>kern := k, errno := (if x = -1 then e else errno w)\<rparr>"
  have "libc os c w = Inr (x, ?w)" using libc_run [OF x] by simp
  moreover have "calm owned s p {ut} w" using w by (simp add: runs_def)
  from calm_fields [OF this, of ?w] have "calm owned s p {ut} ?w" using alloc_okD(3) [OF assms x] by simp
  then have "part owned s p rank r ut w ?w"
    using w by (auto simp: part_def runs_def kept_code_def queue_of_def current_is_def)
  moreover have "exited ut ?w \<longleftrightarrow> exited ut w" by (simp add: exited_def)
  ultimately show "cooperates owned s p rank r ut (\<lambda>_ w. \<not> exited ut w) (lift (libc os c) w) w"
    using w by (simp add: lift_run(3) [of "libc os c"])
qed

text \<open>The end of a uthread.\<close>

abbreviation ended :: "uthread \<Rightarrow> uthread" where
  "ended u \<equiv> u\<lparr>status := status u OR BIT UT_ST_EXITED\<rparr>"

lemma runs_end:
  assumes w: "runs owned s p rank r ut w" "uts w ut = Some u"
  shows "cooperates owned s p rank r ut Q (cseq uthread_yield f (w\<lparr>uts := (uts w)(ut \<mapsto> ended u)\<rparr>)) w"
proof -
  let ?w = "w\<lparr>uts := (uts w)(ut \<mapsto> ended u)\<rparr>"
  have "\<not> bit (status u) UT_ST_NEW" using w by (auto simp: runs_def)
  then have p: "part owned s p rank r ut w ?w" by (intro runs_like [OF w]) (simp_all add: like_def)
  moreover have "cooperates owned s p rank r ut Q (cseq uthread_yield f ?w) ?w"
    by (rule runs_switch [where u = "ended u"]) (use p in \<open>auto simp: part_def exited_def\<close>)
  ultimately show ?thesis by (rule cooperates_base [rotated])
qed

lemma cooperative_exit: "cooperative owned s p rank r (uthread_exit rv)"
  unfolding cooperative_def
proof (intro allI impI)
  fix ut w
  assume w: "runs owned s p rank r ut w \<and> \<not> exited ut w"
  then obtain u where u: "uts w ut = Some u" "current_is ut w" "ut_joined u = NULL"
    by (auto simp: runs_def dest: calmD(9))
  have "exit_enter rv w = Inr ((), w\<lparr>uts := (uts w)(ut \<mapsto> ended u)\<rparr>)"
    using u current_isD(3) [OF u(2)] current_ut_run [OF u(2)] by (simp add: exit_enter_def op_simps)
  then have e: "uthread_exit rv w = cseq uthread_yield (cret ()) (w\<lparr>uts := (uts w)(ut \<mapsto> ended u)\<rparr>)"
    unfolding uthread_exit_def yield_ret by (simp only: lift_run(2) [of "exit_enter rv"])
  show "cooperates owned s p rank r ut (\<lambda>_ w. \<not> exited ut w) (uthread_exit rv w) w"
    unfolding e by (rule runs_end [OF conjunct1 [OF w] u(1)])
qed

lemma main_end_runs:
  assumes "runs owned s p rank r ut w" "uts w ut = Some u"
  shows "main_end w = cseq uthread_yield (cret ()) (w\<lparr>uts := (uts w)(ut \<mapsto> ended u)\<rparr>)"
proof -
  have cur: "current_is ut w" using assms(1) by (simp add: runs_def)
  have "obind current_ut (\<lambda>ut. ut_upd ut ended) w = Inr ((), w\<lparr>uts := (uts w)(ut \<mapsto> ended u)\<rparr>)"
    using assms(2) current_isD(3) [OF cur] current_ut_run [OF cur] by (simp add: op_simps)
  then show ?thesis
    unfolding main_end_def yield_ret by (simp only: lift_run(2) [of "obind current_ut (\<lambda>ut. ut_upd ut ended)"])
qed

text \<open>Creation.\<close>

lemma mem_ok_new:
  assumes m: "mem_ok owned w" and a: "a \<notin> owned (kern w)" "stk \<notin> owned (kern w)" "stack u = stk"
    and w': "uts w' = (uts w)(a \<mapsto> u)" "blocks w' = (blocks w)(stk \<mapsto> n)" "scheds w' = scheds w"
      "sched_with_stack (glob w') = sched_with_stack (glob w)"
      "insert a (insert stk (owned (kern w))) \<subseteq> owned (kern w')"
  shows "mem_ok owned w'"
proof -
  have s: "sched_stacks w' = sched_stacks w" using w' by (simp add: sched_stacks_def)
  have n: "a \<notin> dom (uts w)" "stk \<notin> dom (blocks w)" using m a unfolding mem_ok_def by blast+
  have st: "stk \<notin> set (sched_stacks w)" using m n(2) unfolding mem_ok_def by blast
  have old: "stack v \<noteq> stk" if "uts w b = Some v" "is_main v = 0" for b v
    using m n(2) that unfolding mem_ok_def by (metis DiffE)
  have "stack v \<in> dom (blocks w') - set (sched_stacks w)" if "uts w' b = Some v" "is_main v = 0" for b v
  proof (cases "b = a")
    case True
    then show ?thesis using that w'(1,2) a(3) st by simp
  next
    case False
    then have "uts w b = Some v" using that w'(1) by simp
    then show ?thesis using m that(2) w'(2) unfolding mem_ok_def by (metis DiffE DiffI domIff fun_upd_other fun_upd_same option.distinct(1))
  qed
  moreover have "b = c" if "uts w' b = Some v" "uts w' c = Some v'" "is_main v = 0" "is_main v' = 0" "stack v = stack v'"
    for b c v v'
  proof (cases "b = a \<or> c = a")
    case True
    then show ?thesis using that old w'(1) a(3) by (auto split: if_splits)
  next
    case False
    then have "uts w b = Some v" "uts w c = Some v'" using that w'(1) by auto
    then show ?thesis using m that(3-5) unfolding mem_ok_def by blast
  qed
  moreover have "dom (uts w') \<union> dom (blocks w') \<subseteq> owned (kern w')" "finite (dom (uts w'))"
    "set (sched_stacks w) \<subseteq> dom (blocks w')"
    using m w' unfolding mem_ok_def by auto
  ultimately show ?thesis using m w'(3,4) unfolding mem_ok_def s by auto
qed

lemma create_orderly:
  assumes os: "alloc_ok os owned" and c: "orderly owned s p R w"
  shows "\<exists>a k1 stk q w'. os_malloc os (kern w) = (a, k1) \<and> os_memalign os k1 = ((0, stk), kern w') \<and>
    create_ut os s f ar w = Inr ((0, a), w') \<and> orderly owned s p R w' \<and> uts w a = None \<and>
    uts w' = (uts w)(a \<mapsto> new_uthread (next_ut_id (glob w)) p f ar stk) \<and>
    ps w p = Some q \<and> ps w' = (ps w)(p \<mapsto> q\<lparr>ready := ready q @ [a]\<rparr>) \<and> scheds w' = scheds w \<and> tsd w' = tsd w"
proof -
  obtain a k1 where a: "os_malloc os (kern w) = (a, k1)" by fastforce
  obtain x stk k2 where "os_memalign os k1 = ((x, stk), k2)" by (metis surj_pair)
  with alloc_okD(2) [OF os] have stk: "os_memalign os k1 = ((0, stk), k2)" by blast
  note ma = alloc_okD(1) [OF os a] and ms = alloc_okD(2) [OF os stk]
  obtain sc q where s: "scheds w s = Some sc" "sched_p sc = p" "ps w p = Some q" "s \<noteq> NULL" "tsd w = s"
    using orderlyD(3-6) [OF c] by auto
  have n: "uts w a = None" using ma orderlyD(2) [OF c] unfolding mem_ok_def by blast
  let ?u = "new_uthread (next_ut_id (glob w)) p f ar stk"
  obtain w' where w': "create_ut os s f ar w = Inr ((0, a), w')" "inv_at R w'" "uts w' = (uts w)(a \<mapsto> ?u)"
    "ps w' = (ps w)(p \<mapsto> q\<lparr>ready := ready q @ [a]\<rparr>)" "n_uthread (glob w') = n_uthread (glob w) + 1"
    "blocks w' = (blocks w)(stk \<mapsto> STACK_SIZE)" "next_ut_id (glob w') = bump_id (next_ut_id (glob w))"
    "sched_with_stack (glob w') = sched_with_stack (glob w)" "scheds w' = scheds w" "tsd w' = tsd w" "kern w' = k2"
    "wheel w' = wheel w"
    using create_ut_core [OF orderlyD(1) [OF c] a _ n orderlyD(12) [OF c] stk s(4,1), of q f ar] ma s(2,3) by auto
  have m: "mem_ok owned w'"
    by (rule mem_ok_new [where u = ?u, OF orderlyD(2) [OF c] _ _ _ w'(3,6)])
      (use ma ms w'(8,9,11) in \<open>auto simp: new_uthread_def\<close>)
  have fin: "finite (dom (uts w))" using orderlyD(2) [OF c] by (simp add: mem_ok_def)
  then have card: "card (dom (uts w')) = Suc (card (dom (uts w)))" using n w'(3) by (simp add: domIff)
  have u: "ut_p v = p \<and> ut_joined v = NULL \<and> ut_id v < MAX_COUNT_UTHREAD \<and> (b \<notin> R \<longrightarrow> \<not> bit (status v) UT_ST_EXITED)"
    if "uts w' b = Some v" for b v
    using that orderlyD(7-10,12) [OF c] w'(3) by (cases "b = a") (auto simp: new_uthread_def zero_uthread_def)
  have "orderly owned s p R w'"
    unfolding orderly_def using w'(2,4,5,7,9,10,12) m u card s orderlyD(11-14) [OF c] bump_id_less by auto
  with a stk n s(3) w' show ?thesis by blast
qed

lemma cooperative_create:
  assumes os: "alloc_ok os owned" and f: "rank f < r"
  shows "cooperative owned s p rank r (uthread_create os f ar)"
  unfolding cooperative_def
proof (intro allI impI)
  fix ut w
  assume w: "runs owned s p rank r ut w \<and> \<not> exited ut w"
  then have c: "orderly owned s p {ut} w" "asleep (uts w) = {}" by (simp_all add: runs_def calm_def)
  obtain a k1 stk q w' where w': "create_ut os s f ar w = Inr ((0, a), w')" "orderly owned s p {ut} w'" "uts w a = None"
    "uts w' = (uts w)(a \<mapsto> new_uthread (next_ut_id (glob w)) p f ar stk)" "ps w p = Some q"
    "ps w' = (ps w)(p \<mapsto> q\<lparr>ready := ready q @ [a]\<rparr>)" "scheds w' = scheds w" "tsd w' = tsd w"
    using create_orderly [OF os c(1), of f ar] by blast
  have "asleep (uts w') = {}" using c(2) w'(4) by (auto simp: asleep_def)
  then have "calm owned s p {ut} w'" using w'(2) by (simp add: calm_def)
  moreover have na: "ut \<noteq> a" using w w'(3) by (auto simp: runs_def)
  ultimately have "runs owned s p rank r ut w'" using w w'(4,7,8) by (auto simp: runs_def current_is_def)
  then have "part owned s p rank r ut w w'"
    using w'(3-6) f by (auto simp: part_def kept_code_def queue_of_def new_uthread_def split: if_splits)
  moreover have "uthread_create os f ar w = Ret (0, a) w'" using create_runs [of w os f ar] w'(1) orderlyD(3,4) [OF c(1)] by simp
  moreover have "\<not> exited ut w'" using w na w'(4) by (auto simp: exited_def)
  ultimately show "cooperates owned s p rank r ut (\<lambda>_ w. \<not> exited ut w) (uthread_create os f ar w) w" by simp
qed

end
