(* ===== verification/Ut_Complete.thy ===== *)
theory Ut_Complete
  imports Ut_Coop
begin

text \<open>
  Programs of cooperative uthreads run to completion.
\<close>

subsection \<open>The machine\<close>

text \<open>The code of a uthread: that of \<^verbatim>\<open>_uthread_exec\<close> before its first run, afterwards what its context holds.\<close>

definition code_of ::
  "(ptr \<Rightarrow> ptr \<Rightarrow> ('k world, unit) co) \<Rightarrow> (ptr \<rightharpoonup> ('k world, unit) co) \<Rightarrow> ptr \<Rightarrow> uthread \<Rightarrow> ('k world, unit) co option" where
  "code_of prog k a u = (if bit (status u) UT_ST_NEW then Some (uthread_exec prog a) else k a)"

definition lively ::
  "('k \<Rightarrow> ptr set) \<Rightarrow> ptr \<Rightarrow> ptr \<Rightarrow> (ptr \<Rightarrow> nat) \<Rightarrow> nat \<Rightarrow> ptr \<Rightarrow> ('k world, unit) co \<Rightarrow> bool" where
  "lively owned s p rank r ut c \<longleftrightarrow>
     (\<forall>w. runs owned s p rank r ut w \<and> \<not> exited ut w \<longrightarrow> cooperates owned s p rank r ut (\<lambda>_ _. False) (c w) w)"

text \<open>Every uthread has code, and \<open>L\<close> holds of it and the uthread's function and address.\<close>

definition coded ::
  "(ptr \<Rightarrow> ptr \<Rightarrow> ('k world, unit) co) \<Rightarrow> (ptr \<Rightarrow> ptr \<Rightarrow> ('k world, unit) co \<Rightarrow> bool) \<Rightarrow> 'k machine \<Rightarrow> bool" where
  "coded prog L m \<longleftrightarrow> (\<forall>a u. uts (fst m) a = Some u \<longrightarrow>
     (\<exists>c. code_of prog (snd m) a u = Some c \<and> L (func u) a c))"

definition codes_ok ::
  "('k \<Rightarrow> ptr set) \<Rightarrow> ptr \<Rightarrow> ptr \<Rightarrow> (ptr \<Rightarrow> nat) \<Rightarrow> (ptr \<Rightarrow> ptr \<Rightarrow> ('k world, unit) co) \<Rightarrow> 'k machine \<Rightarrow> bool" where
  "codes_ok owned s p rank prog = coded prog (\<lambda>f. lively owned s p rank (rank f))"

text \<open>What is left to do: for each uthread its level and the rest of its code.\<close>

definition weight ::
  "(ptr \<Rightarrow> nat) \<Rightarrow> (ptr \<Rightarrow> ptr \<Rightarrow> ('k world, unit) co) \<Rightarrow> 'k machine \<Rightarrow> (nat \<times> ('k world, unit) co) multiset" where
  "weight rank prog m =
     image_mset (\<lambda>a. let u = the (uts (fst m) a) in (rank (func u), the (code_of prog (snd m) a u)))
       (mset_set (dom (uts (fst m))))"

definition lighter :: "((nat \<times> ('k world, unit) co) multiset \<times> (nat \<times> ('k world, unit) co) multiset) set" where
  "lighter = mult (less_than <*lex*> shorter)"

lemma wf_lighter: "wf lighter"
  unfolding lighter_def by (intro wf_mult wf_lex_prod wf_less_than wf_shorter)

lemma lighter_trans: "(a, b) \<in> lighter \<Longrightarrow> (b, c) \<in> lighter \<Longrightarrow> (a, c) \<in> lighter"
  unfolding lighter_def mult_def by (rule trancl_trans)

text \<open>The code of a function that cooperates, wrapped by \<^verbatim>\<open>_uthread_exec\<close>, ends with an exit.\<close>

lemma exec_lively:
  assumes prog: "\<forall>f ar. cooperative owned s p rank (rank f) (prog f ar)"
  shows "lively owned s p rank r ut (uthread_exec prog ut)"
  unfolding lively_def
proof (intro allI impI)
  fix w
  assume w: "runs owned s p rank r ut w \<and> \<not> exited ut w"
  let ?C = "cooperates owned s p rank r ut"
  obtain u where u: "uts w ut = Some u" "rank (func u) = r" "ut \<noteq> NULL"
    using w current_isD(3) by (auto simp: runs_def)
  let ?fin = "cseq (lift (ut_upd ut ended)) (cseq uthread_yield (cfail NullDeref)) :: (_, unit) co"
  have e: "?C (\<lambda>_ _. False) (?fin w1) w1" if w1: "runs owned s p rank r ut w1" for w1
  proof -
    obtain u1 where u1: "uts w1 ut = Some u1" using w1 by (auto simp: runs_def)
    have "ut_upd ut ended w1 = Inr ((), w1\<lparr>uts := (uts w1)(ut \<mapsto> ended u1)\<rparr>)" using u1 u(3) by (simp add: op_simps)
    then have "?fin w1 = cseq uthread_yield (cfail NullDeref) (w1\<lparr>uts := (uts w1)(ut \<mapsto> ended u1)\<rparr>)"
      by (simp only: lift_run(2) [of "ut_upd ut ended"])
    then show ?thesis using runs_end [OF w1 u1] by simp
  qed
  have "?C (\<lambda>_ w. \<not> exited ut w) (prog (func u) (arg u) w) w"
    using prog u(2) w unfolding cooperative_def by blast
  then have "?C (\<lambda>a w1. ?C (\<lambda>_ _. False) (?fin w1) w1) (prog (func u) (arg u) w) w"
    by (rule coop_mono) (auto simp: part_def intro!: e)
  then have "?C (\<lambda>_ _. False) (and_then (prog (func u) (arg u) w) (\<lambda>_. ?fin)) w"
    by (rule coop_and_then [where G = "part owned s p rank r ut", rotated]) (rule part_trans)
  moreover have "ut_get ut w = Inr (u, w)" using u by (simp add: op_simps)
  then have "uthread_exec prog ut w = and_then (prog (func u) (arg u) w) (\<lambda>_. ?fin)"
    by (simp add: uthread_exec_def lift_run(1) [of "ut_get ut"]) (simp add: cseq_def cbind_def)
  ultimately show "?C (\<lambda>_ _. False) (uthread_exec prog ut w) w" by (simp only:)
qed

subsection \<open>Resuming a uthread\<close>

lemma add_timer_ok:
  assumes "length (slot wh) = TIME_WHEEL_SIZE" "current wh < TIME_WHEEL_SIZE" "n \<noteq> NULL"
  shows "\<exists>wh'. add_timer 1 ut n wh = Inr wh' \<and> length (slot wh') = length (slot wh) \<and> current wh' = current wh"
  using assms by (simp add: add_timer_def c_int_def Let_def smod_nonneg TIME_WHEEL_SIZE_def not_le not_less)

lemma resume_enter_orderly:
  assumes os: "alloc_ok os owned" and c: "orderly owned s p {a} w" and u: "uts w a = Some u" "\<not> bit (status u) UT_ST_EXITED"
  shows "\<exists>w1 n. resume_enter os prog s a (w, k) =
      Inr ((), w1, if bit (status u) UT_ST_NEW then k(a \<mapsto> uthread_exec prog a) else k) \<and>
    orderly owned s p {a} w1 \<and> current_is a w1 \<and> uts w1 = (uts w)(a \<mapsto> started u) \<and> ps w1 = ps w \<and>
    os_malloc os (kern w) = (n, kern w1)"
proof -
  obtain sc where s: "scheds w s = Some sc" "sched_p sc = p" "s \<noteq> NULL" "tsd w = s" using orderlyD(3,4,6) [OF c] by blast
  obtain n kn where n: "os_malloc os (kern w) = (n, kn)" by fastforce
  note al = alloc_okD(1) [OF os n]
  obtain wh where wh: "add_timer 1 a n (wheel w) = Inr wh" "length (slot wh) = length (slot (wheel w))"
    "current wh = current (wheel w)"
    using add_timer_ok [OF orderlyD(13,14) [OF c]] al by blast
  have core: "core {a} (waiters (uts w)) w" using orderlyD(1) [OF c] by (simp add: inv_at_def)
  have nsl: "\<not> bit (status u) UT_ST_SLEEPING" using core_parts(6) [OF core] u(1) by (auto simp: asleep_def)
  let ?w1 = "w\<lparr>uts := (uts w)(a \<mapsto> started u), scheds := (scheds w)(s \<mapsto> sc\<lparr>cur_uthread := a\<rparr>), kern := kn, wheel := wh\<rparr>"
  have run: "resume_enter os prog s a (w, k) =
      Inr ((), ?w1, if bit (status u) UT_ST_NEW then k(a \<mapsto> uthread_exec prog a) else k)" "core {a} (waiters (uts w)) ?w1"
    using resume_enter_core [OF core _ u(1) s(3,1) n wh(1), of prog k] by auto
  have "inv_at {a} ?w1" using run(2) waiters_started [where U = "uts w", OF nsl u(1)] by (simp add: inv_at_def)
  moreover have "rel_option kin (uts w b) (((uts w)(a \<mapsto> started u)) b)" for b
    by (rule kin_upd [where U = "uts w", OF u(1)]) (simp add: kin_def started_def)
  moreover have "\<not> bit (status v) UT_ST_EXITED" if "((uts w)(a \<mapsto> started u)) b = Some v" "b \<notin> {a}" for b v
    using that orderlyD(10) [OF c] by auto
  ultimately have "orderly owned s p {a} ?w1"
    using orderlyD(5) [OF c] wh(2,3) al s(1) by (intro orderly_keep [OF c]) auto
  moreover have "current_is a ?w1" using s u(1) coreD(1) [OF core u(1)] by (auto simp: current_is_def)
  ultimately show ?thesis using run(1) n by (intro exI [of _ ?w1] exI [of _ n]) simp
qed

lemma resume_enter_runs:
  assumes os: "alloc_ok os owned" and c: "calm owned s p {a} w" and u: "uts w a = Some u" "\<not> bit (status u) UT_ST_EXITED"
  shows "\<exists>w1. resume_enter os prog s a (w, k) =
      Inr ((), w1, if bit (status u) UT_ST_NEW then k(a \<mapsto> uthread_exec prog a) else k) \<and>
    runs owned s p rank (rank (func u)) a w1 \<and> \<not> exited a w1 \<and> uts w1 = (uts w)(a \<mapsto> started u) \<and> ps w1 = ps w"
proof -
  have o: "orderly owned s p {a} w" using c by (simp add: calm_def)
  obtain w1 where w1: "resume_enter os prog s a (w, k) =
      Inr ((), w1, if bit (status u) UT_ST_NEW then k(a \<mapsto> uthread_exec prog a) else k)"
    "orderly owned s p {a} w1" "current_is a w1" "uts w1 = (uts w)(a \<mapsto> started u)" "ps w1 = ps w"
    using resume_enter_orderly [OF os o u] by blast
  have st: "func (started u) = func u" "\<not> bit (status (started u)) UT_ST_NEW" "\<not> bit (status (started u)) UT_ST_EXITED"
    using u(2) by (simp_all add: started_def)
  have "\<not> bit (status u) UT_ST_SLEEPING" using calmD(2) [OF c] u(1) by (auto simp: asleep_def)
  then have "asleep (uts w1) = {}"
    using like_upd(5) [where U = "uts w", OF u(1) like_started] calmD(2) [OF c] w1(4) by simp
  then have "runs owned s p rank (rank (func u)) a w1" using w1(2-4) st(1,2) by (simp add: runs_def calm_def)
  with w1 st(3) show ?thesis by (auto simp: exited_def)
qed

text \<open>A uthread that switches back without having exited goes to the end of the queue.\<close>

lemma resume_leave_kept:
  assumes c: "orderly owned s p {a} w" and u: "uts w a = Some u" "\<not> bit (status u) UT_ST_EXITED"
  shows "\<exists>w' q. resume_leave os s a w = Inr (0, w') \<and> orderly owned s p {} w' \<and> uts w' = uts w \<and> kern w' = kern w \<and>
    ps w p = Some q \<and> ps w' = (ps w)(p \<mapsto> q\<lparr>ready := ready q @ [a]\<rparr>)"
proof -
  obtain sc where s: "scheds w s = Some sc" "sched_p sc = p" "s \<noteq> NULL" using orderlyD(3,6) [OF c] by blast
  have up: "ut_p u = p" by (rule orderlyD(7) [OF c u(1)])
  have core: "core {a} (waiters (uts w)) w" using orderlyD(1) [OF c] by (simp add: inv_at_def)
  obtain q where q: "ps w p = Some q" using orderlyD(5) [OF c] by blast
  let ?w = "w\<lparr>scheds := (scheds w)(s \<mapsto> sc\<lparr>cur_uthread := NULL\<rparr>), ps := (ps w)(p \<mapsto> q\<lparr>ready := ready q @ [a]\<rparr>)\<rparr>"
  have run: "resume_leave os s a w = Inr (0, ?w)" "core {} (waiters (uts w)) ?w"
    using resume_leave_yield [OF core _ u(1) s(3,1) _ u(2), of os] s(2) up q by auto
  have "\<not> bit (status v) UT_ST_EXITED" if "uts w b = Some v" for b v
    using orderlyD(10) [OF c that] u that by (cases "b = a") auto
  then have "orderly owned s p {} ?w"
    using run(2) s(1) by (intro orderly_keep [OF c]) (auto simp: inv_at_def option.rel_refl)
  with run(1) q show ?thesis by (intro exI [of _ ?w] exI [of _ q]) simp
qed

lemma resume_leave_calm:
  assumes w: "runs owned s p rank r a w" "\<not> exited a w"
  shows "\<exists>w'. resume_leave os s a w = Inr (0, w') \<and> calm owned s p {} w' \<and> uts w' = uts w \<and>
    queue_of p w' = queue_of p w @ [a]"
proof -
  have c: "orderly owned s p {a} w" "asleep (uts w) = {}" using w(1) by (simp_all add: runs_def calm_def)
  obtain u where "uts w a = Some u" "\<not> bit (status u) UT_ST_EXITED" using w by (auto simp: runs_def exited_def)
  from resume_leave_kept [OF c(1) this, of os] c(2) show ?thesis by (auto simp: queue_of_def calm_def)
qed

text \<open>A uthread that has exited is freed, with its stack.\<close>

definition blocks_without :: "uthread \<Rightarrow> (ptr \<rightharpoonup> nat) \<Rightarrow> ptr \<rightharpoonup> nat" where
  "blocks_without u b = (if is_main u \<noteq> 0 \<or> stack u = NULL then b else b(stack u := None))"

lemma mem_ok_free:
  assumes m: "mem_ok owned w" and u: "uts w a = Some u"
    and w': "uts w' = (uts w)(a := None)" "blocks w' = blocks_without u (blocks w)" "kern w' = kern w" "scheds w' = scheds w"
      "sched_with_stack (glob w') = sched_with_stack (glob w)"
  shows "mem_ok owned w'"
proof -
  have s: "sched_stacks w' = sched_stacks w" using w'(4,5) by (simp add: sched_stacks_def)
  have old: "uts w b = Some v" "b \<noteq> a" if "uts w' b = Some v" for b v using that w'(1) by (auto split: if_splits)
  have sub: "dom (uts w') \<subseteq> dom (uts w)" "dom (blocks w') \<subseteq> dom (blocks w)"
    using w'(1,2) by (auto simp: blocks_without_def split: if_splits)
  have own: "is_main u = 0 \<longrightarrow> stack u \<notin> set (sched_stacks w)" using m u unfolding mem_ok_def by blast
  have keep: "x \<in> dom (blocks w')" if "x \<in> dom (blocks w)" "is_main u = 0 \<longrightarrow> x \<noteq> stack u" for x
    using that w'(2) by (auto simp: blocks_without_def)
  have "stack v \<in> dom (blocks w') - set (sched_stacks w)" if v: "uts w' b = Some v" "is_main v = 0" for b v
  proof -
    have "is_main u = 0 \<longrightarrow> stack v \<noteq> stack u" using m u old [OF v(1)] v(2) unfolding mem_ok_def by metis
    moreover have "stack v \<in> dom (blocks w) - set (sched_stacks w)" using m old [OF v(1)] v(2) unfolding mem_ok_def by blast
    ultimately show ?thesis using keep [of "stack v"] by blast
  qed
  moreover have "b = c" if "uts w' b = Some v" "uts w' c = Some v'" "is_main v = 0" "is_main v' = 0" "stack v = stack v'"
    for b c v v'
    using m old(1) [OF that(1)] old(1) [OF that(2)] that(3-) unfolding mem_ok_def by blast
  moreover have "x \<in> dom (blocks w')" if "x \<in> set (sched_stacks w)" for x
    using keep [of x] own that m unfolding mem_ok_def by blast
  moreover have "dom (uts w') \<union> dom (blocks w') \<subseteq> owned (kern w')"
    using conjunct1 [OF m [unfolded mem_ok_def]] sub unfolding w'(3) by (meson Un_mono subset_trans)
  moreover have "finite (dom (uts w'))" using m sub(1) unfolding mem_ok_def by (meson finite_subset)
  ultimately show ?thesis using m unfolding mem_ok_def s w'(4,5) by blast
qed

lemma resume_leave_freed:
  assumes c: "orderly owned s p {a} w" and u: "uts w a = Some u" "bit (status u) UT_ST_EXITED"
    and af: "\<forall>u. ut_id u < MAX_COUNT_UTHREAD \<longrightarrow> ut_id (after_free os u) < MAX_COUNT_UTHREAD"
  shows "\<exists>w'. resume_leave os s a w = Inr (0, w') \<and> orderly owned s p {} w' \<and> uts w' = (uts w)(a := None) \<and>
    ps w' = ps w \<and> kern w' = kern w"
proof -
  obtain sc where s: "scheds w s = Some sc" "sched_p sc = p" "s \<noteq> NULL" using orderlyD(3,6) [OF c] by blast
  have core: "core {a} (waiters (uts w)) w" using orderlyD(1) [OF c] by (simp add: inv_at_def)
  have a0: "a \<noteq> NULL" by (rule coreD(1) [OF core u(1)])
  have j: "ut_joined u = NULL" by (rule orderlyD(8) [OF c u(1)])
  have st: "stack_ok w u" using orderlyD(2) [OF c] u(1) unfolding mem_ok_def stack_ok_def by blast
  have id: "ut_id (after_free os u) < MAX_COUNT_UTHREAD" using af orderlyD(9) [OF c u(1)] by blast
  let ?g = "(glob w)\<lparr>n_uthread := n_uthread (glob w) - 1,
    bitmap_ut := if bit (status (after_free os u)) UT_ST_DETACHED
      then (bitmap_ut (glob w))(ut_id (after_free os u) := 0) else bitmap_ut (glob w)\<rparr>"
  let ?w = "w\<lparr>scheds := (scheds w)(s \<mapsto> sc\<lparr>cur_uthread := NULL\<rparr>), uts := (uts w)(a := None),
    sleep_mem := (sleep_mem w)(a := None), wait_mem := (wait_mem w)(a := None), dead := (dead w)(a \<mapsto> u),
    blocks := blocks_without u (blocks w), glob := ?g\<rparr>"
  have run: "resume_leave os s a w = Inr (0, ?w)"
  proof (cases "is_main u = 0")
    case True
    have "free_block (stack u) (w\<lparr>scheds := (scheds w)(s \<mapsto> sc\<lparr>cur_uthread := NULL\<rparr>)\<rparr>) =
        Inr ((), w\<lparr>scheds := (scheds w)(s \<mapsto> sc\<lparr>cur_uthread := NULL\<rparr>), blocks := blocks_without u (blocks w)\<rparr>)"
      using st True by (auto simp: stack_ok_def free_block_def blocks_without_def)
    then show ?thesis using a0 u s j True id
      by (simp add: resume_leave_def uthread_free_def free_uthread_def count_uthread_def ut_get_stale_def set_bitmap_ut_def
          op_simps owhen_def)
  next
    case False
    then show ?thesis using a0 u s j id
      by (simp add: resume_leave_def uthread_free_main_def free_uthread_def count_uthread_def ut_get_stale_def
          set_bitmap_ut_def op_simps owhen_def blocks_without_def)
  qed
  have nw: "a \<notin> waiters (uts w)" using core_parts(6) [OF core] waiters_asleep by auto
  have "core {} (waiters (uts w)) ?w"
    using resume_leave_exit [OF core _ nw u(1) s(3,1) u(2), of os] j st id run by (auto simp: joiner_ok_def)
  moreover have "waiters (uts ?w) = waiters (uts w)" using nw by (auto simp: waiters_def)
  ultimately have inv: "inv_at {} ?w" by (simp add: inv_at_def)
  let ?v = "w\<lparr>scheds := (scheds w)(s \<mapsto> sc\<lparr>cur_uthread := NULL\<rparr>)\<rparr>"
  have "mem_ok owned ?v" by (rule mem_ok_keep [OF orderlyD(2) [OF c]]) (use s(1) in \<open>auto simp: option.rel_refl\<close>)
  from mem_ok_free [OF this, of a u ?w] u(1) have m: "mem_ok owned ?w" by simp
  have fin: "finite (dom (uts w))" "a \<in> dom (uts w)" using orderlyD(2) [OF c] u(1) by (auto simp: mem_ok_def)
  then have "card (dom (uts w)) = Suc (card (dom (uts w) - {a}))" by (rule card.remove)
  then have n: "n_uthread (glob ?w) = of_nat (card (dom (uts ?w)))" using orderlyD(11) [OF c] by simp
  have "ut_p v = p \<and> ut_joined v = NULL \<and> ut_id v < MAX_COUNT_UTHREAD \<and> \<not> bit (status v) UT_ST_EXITED"
    if "uts ?w b = Some v" for b v
    using that orderlyD(7-10) [OF c] by (auto split: if_splits)
  then have "orderly owned s p {} ?w"
    unfolding orderly_def using inv m n s orderlyD(4,5,12-14) [OF c] by auto
  with run show ?thesis by (intro exI [of _ ?w]) simp
qed

lemma resume_leave_gone:
  assumes w: "runs owned s p rank r a w" "exited a w"
    and af: "\<forall>u. ut_id u < MAX_COUNT_UTHREAD \<longrightarrow> ut_id (after_free os u) < MAX_COUNT_UTHREAD"
  shows "\<exists>w'. resume_leave os s a w = Inr (0, w') \<and> calm owned s p {} w' \<and> uts w' = (uts w)(a := None) \<and>
    queue_of p w' = queue_of p w"
proof -
  have c: "orderly owned s p {a} w" "asleep (uts w) = {}" using w(1) by (simp_all add: runs_def calm_def)
  obtain u where u: "uts w a = Some u" "bit (status u) UT_ST_EXITED" using w by (auto simp: exited_def)
  from resume_leave_freed [OF c(1) u af] obtain w' where w': "resume_leave os s a w = Inr (0, w')"
    "orderly owned s p {} w'" "uts w' = (uts w)(a := None)" "ps w' = ps w" by blast
  have "asleep (uts w') = {}" using c(2) w'(3) by (auto simp: asleep_def)
  with w' show ?thesis by (simp add: calm_def queue_of_def)
qed

text \<open>
  A part of a run makes the machine lighter: \<open>w\<close>, \<open>k\<close> before, \<open>w2\<close> at the switch back with the rest \<open>c'\<close> of the
  code \<open>c\<close> of \<open>a\<close>, \<open>w'\<close>, \<open>k'\<close> after it; \<open>E\<close> are the uthreads that are gone then.
\<close>

lemma weight_part:
  assumes u: "uts w a = Some u" "code_of prog k a u = Some c" "rank (func u) = r" and c': "(c', c) \<in> shorter"
    and fin: "finite (dom (uts w'))" "finite (dom (uts w))"
    and old: "\<And>b v. uts w b = Some v \<Longrightarrow> b \<noteq> a \<Longrightarrow> \<exists>v'. uts w' b = Some v' \<and> kept_code v v' \<and> k' b = k b"
    and new: "\<And>b v. uts w' b = Some v \<Longrightarrow> uts w b = None \<Longrightarrow> rank (func v) < r"
    and self: "\<And>v. uts w' a = Some v \<Longrightarrow> rank (func v) = r \<and> code_of prog k' a v = Some c'"
  shows "(weight rank prog (w', k'), weight rank prog (w, k)) \<in> lighter"
proof -
  let ?f = "\<lambda>w k b. let u = the (uts w b) in (rank (func u), the (code_of prog k b u))"
  let ?D = "dom (uts w) - {a}" and ?N = "dom (uts w') - (dom (uts w) - {a})"
  have sub: "?D \<subseteq> dom (uts w')" using old by blast
  have "?f w' k' b = ?f w k b" if "b \<in> ?D" for b
  proof -
    obtain v where v: "uts w b = Some v" using \<open>b \<in> ?D\<close> by blast
    then obtain v' where v': "uts w' b = Some v'" "kept_code v v'" "k' b = k b" using old [OF v] \<open>b \<in> ?D\<close> by blast
    then show ?thesis using v by (simp add: kept_code_def code_of_def)
  qed
  then have D: "image_mset (?f w' k') (mset_set ?D) = image_mset (?f w k) (mset_set ?D)"
    using fin(2) by (intro image_mset_cong) simp
  have "mset_set (dom (uts w')) = mset_set ?D + mset_set ?N"
    using mset_set_Union [of ?D ?N] fin sub by (simp add: Un_absorb1 Un_Diff_cancel2 sup.absorb2)
  then have w': "weight rank prog (w', k') = image_mset (?f w k) (mset_set ?D) + image_mset (?f w' k') (mset_set ?N)"
    by (simp add: weight_def D)
  have w: "weight rank prog (w, k) = image_mset (?f w k) (mset_set ?D) + {#(r, c)#}"
    using fin(2) u mset_set.remove [of "dom (uts w)" a] by (simp add: weight_def domI)
  have "(x, (r, c)) \<in> less_than <*lex*> shorter" if x: "x \<in># image_mset (?f w' k') (mset_set ?N)" for x
  proof -
    have "finite ?N" using fin(1) by blast
    then obtain b where b: "b \<in> ?N" "x = ?f w' k' b" using x by auto
    then obtain v where v: "uts w' b = Some v" by blast
    show ?thesis
    proof (cases "b = a")
      case True
      then show ?thesis using self [of v] v b(2) c' by simp
    next
      case False
      then have "uts w b = None" using b(1) by blast
      then show ?thesis using new [OF v] v b(2) by simp
    qed
  qed
  then show ?thesis unfolding lighter_def w w' by (intro one_step_implies_mult) auto
qed

lemma coded_after:
  assumes ok: "coded prog L (w, k)" and exec: "\<And>f b. L f b (uthread_exec prog b)"
    and old: "\<And>b v. uts w b = Some v \<Longrightarrow> b \<noteq> a \<Longrightarrow> \<exists>v'. uts w' b = Some v' \<and> kept_code v v' \<and> k' b = k b"
    and new: "\<And>b v. uts w' b = Some v \<Longrightarrow> uts w b = None \<Longrightarrow> bit (status v) UT_ST_NEW"
    and self: "\<And>v. uts w' a = Some v \<Longrightarrow> \<exists>c. code_of prog k' a v = Some c \<and> L (func v) a c"
  shows "coded prog L (w', k')"
  unfolding coded_def fst_conv snd_conv
proof (intro allI impI)
  fix b v'
  assume v': "uts w' b = Some v'"
  show "\<exists>c. code_of prog k' b v' = Some c \<and> L (func v') b c"
  proof (cases "b = a")
    case True
    then show ?thesis using self v' by blast
  next
    case False
    show ?thesis
    proof (cases "uts w b")
      case None
      then show ?thesis using new [OF v'] exec by (simp add: code_of_def)
    next
      case (Some v)
      then obtain c where c: "code_of prog k b v = Some c" "L (func v) b c" using ok by (auto simp: coded_def)
      have "kept_code v v'" "k' b = k b" using old [OF Some False] v' by auto
      with c show ?thesis by (auto simp: code_of_def kept_code_def)
    qed
  qed
qed

lemma resume_step:
  assumes os: "alloc_ok os owned" and prog: "\<forall>f ar. cooperative owned s p rank (rank f) (prog f ar)"
    and af: "\<forall>u. ut_id u < MAX_COUNT_UTHREAD \<longrightarrow> ut_id (after_free os u) < MAX_COUNT_UTHREAD"
    and c: "calm owned s p {a} w" and ok: "codes_ok owned s p rank prog (w, k)"
    and u: "uts w a = Some u" "\<not> bit (status u) UT_ST_EXITED"
  shows "\<exists>w' k'. uthread_resume os prog a (w, k) = Inr (0, w', k') \<and> calm owned s p {} w' \<and>
    codes_ok owned s p rank prog (w', k') \<and> (weight rank prog (w', k'), weight rank prog (w, k)) \<in> lighter \<and>
    (\<exists>xs. queue_of p w' = queue_of p w @ xs)"
proof -
  let ?r = "rank (func u)" and ?k1 = "if bit (status u) UT_ST_NEW then k(a \<mapsto> uthread_exec prog a) else k"
  obtain w1 where w1: "resume_enter os prog s a (w, k) = Inr ((), w1, ?k1)" "runs owned s p rank ?r a w1" "\<not> exited a w1"
    "uts w1 = (uts w)(a \<mapsto> started u)" "ps w1 = ps w"
    using resume_enter_runs [OF os c u] by blast
  obtain co where co: "code_of prog k a u = Some co" "lively owned s p rank ?r a co" using ok u(1) by (auto simp: codes_ok_def coded_def)
  have "cooperates owned s p rank ?r a (\<lambda>_ _. False) (co w1) w1" using co(2) w1(2,3) unfolding lively_def by blast
  then obtain w2 c' where sw: "co w1 = Susp a w2 c'" "part owned s p rank ?r a w1 w2"
    "exited a w2 \<or> lively owned s p rank ?r a c'"
    unfolding lively_def by (cases "co w1") auto
  have r2: "runs owned s p rank ?r a w2" using sw(2) by (simp add: part_def)
  let ?k' = "?k1(a \<mapsto> c')"
  have "?k1 a = Some co" using co(1) by (simp add: code_of_def split: if_splits)
  then have to: "switch_to a (w1, ?k1) = Inr ((), w2, ?k')" using sw(1) by (simp add: switch_to_def)
  obtain w' where w': "resume_leave os s a w2 = Inr (0, w')" "calm owned s p {} w'"
    "uts w' = (if exited a w2 then (uts w2)(a := None) else uts w2)" "\<exists>xs. queue_of p w' = queue_of p w2 @ xs"
    using resume_leave_gone [OF r2 _ af] resume_leave_calm [OF r2] by (cases "exited a w2") fastforce+
  have run: "uthread_resume os prog a (w, k) = Inr (0, w', ?k')"
    using w1(1) to w'(1) calmD(5) [OF c] by (simp add: uthread_resume_def op_simps)
  have old: "\<exists>v'. uts w' b = Some v' \<and> kept_code v v' \<and> ?k' b = k b" if b: "uts w b = Some v" "b \<noteq> a" for b v
  proof -
    have "uts w1 b = Some v" using b w1(4) by simp
    then obtain v' where "uts w2 b = Some v'" "kept_code v v'" using sw(2) unfolding part_def by blast
    with b(2) w'(3) show ?thesis by auto
  qed
  have new: "bit (status v) UT_ST_NEW \<and> rank (func v) < ?r" if b: "uts w' b = Some v" "uts w b = None" for b v
  proof -
    have "uts w2 b = Some v" using b(1) w'(3) by (auto split: if_splits)
    moreover have "uts w1 b = None" using b(2) u(1) w1(4) by (auto split: if_splits)
    ultimately show ?thesis using sw(2) unfolding part_def by blast
  qed
  have self: "rank (func v) = ?r \<and> code_of prog ?k' a v = Some c' \<and> lively owned s p rank ?r a c'" if "uts w' a = Some v" for v
  proof -
    have v: "uts w2 a = Some v" "\<not> exited a w2" using that w'(3) by (auto split: if_splits)
    then show ?thesis using r2 sw(3) by (auto simp: runs_def code_of_def)
  qed
  have fin: "finite (dom (uts w'))" "finite (dom (uts w))"
    using calmD(3) [OF w'(2)] calmD(3) [OF c] by (simp_all add: mem_ok_def)
  have "(c', co) \<in> shorter" using sw(1) unfolding shorter_def by blast
  then have "(weight rank prog (w', ?k'), weight rank prog (w, k)) \<in> lighter"
    by (intro weight_part [where r = ?r and a = a and u = u and c = co and c' = c'] u(1) co(1) fin refl)
      (use old new self in blast)+
  moreover have "codes_ok owned s p rank prog (w', ?k')"
    unfolding codes_ok_def
    by (rule coded_after [OF ok [unfolded codes_ok_def], where a = a])
      (use exec_lively [OF prog] old new self in \<open>blast, blast, blast, metis\<close>)
  moreover have "\<exists>xs. queue_of p w' = queue_of p w @ xs"
    using w'(4) sw(2) w1(5) unfolding part_def by (auto simp: queue_of_def)
  ultimately show ?thesis using run w'(2) by blast
qed

subsection \<open>A round of the scheduler\<close>

definition machine_ok ::
  "('k \<Rightarrow> ptr set) \<Rightarrow> ptr \<Rightarrow> ptr \<Rightarrow> (ptr \<Rightarrow> nat) \<Rightarrow> (ptr \<Rightarrow> ptr \<Rightarrow> ('k world, unit) co) \<Rightarrow> 'k machine \<Rightarrow> bool" where
  "machine_ok owned s p rank prog m \<longleftrightarrow> calm owned s p {} (fst m) \<and> codes_ok owned s p rank prog m"

text \<open>The reference: the uthreads of a list are taken out of the queue and resumed, one after the other.\<close>

fun resume_each ::
  "'k os \<Rightarrow> (ptr \<Rightarrow> ptr \<Rightarrow> ('k world, unit) co) \<Rightarrow> ptr \<Rightarrow> ptr list \<Rightarrow> ('k machine, unit) op" where
  "resume_each os prog p [] = oret ()"
| "resume_each os prog p (a # as) =
     oseq (on_world (p_upd p (\<lambda>q. q\<lparr>ready := remove1 a (ready q)\<rparr>)))
     (oseq (uthread_resume os prog a)
     (resume_each os prog p as))"

lemma ready_step:
  assumes os: "alloc_ok os owned" and prog: "\<forall>f ar. cooperative owned s p rank (rank f) (prog f ar)"
    and af: "\<forall>u. ut_id u < MAX_COUNT_UTHREAD \<longrightarrow> ut_id (after_free os u) < MAX_COUNT_UTHREAD"
    and m: "machine_ok owned s p rank prog (w, k)" and q: "queue_of p w = a # as"
  shows "\<exists>w' k' xs. oseq (on_world (p_upd p (\<lambda>q. q\<lparr>ready := remove1 a (ready q)\<rparr>))) (uthread_resume os prog a) (w, k) = Inr (0, w', k') \<and>
    machine_ok owned s p rank prog (w', k') \<and> (weight rank prog (w', k'), weight rank prog (w, k)) \<in> lighter \<and>
    queue_of p w' = as @ xs \<and>
    ready_turn os prog s lr (w, k) = Inr (a \<noteq> lr, w', k')"
proof -
  have c: "calm owned s p {} w" and ok: "codes_ok owned s p rank prog (w, k)" using m by (simp_all add: machine_ok_def)
  obtain sc where s: "scheds w s = Some sc" "sched_p sc = p" "s \<noteq> NULL" using calmD(4,7) [OF c] by blast
  obtain q where p: "ps w p = Some q" "ready q = a # as" using calmD(6) [OF c] q by (auto simp: queue_of_def)
  have core: "core {} (waiters (uts w)) w" using calmD(1) [OF c] by (simp add: inv_at_def)
  have p0: "p \<noteq> NULL" using core_parts(2) [OF core] p(1) by (metis domI)
  let ?q = "q\<lparr>ready := as\<rparr>" let ?w = "w\<lparr>ps := (ps w)(p \<mapsto> ?q)\<rparr>"
  have take: "core {a} (waiters (uts w)) ?w" "\<exists>u. uts w a = Some u"
    using core_take [OF core p(1), of a] p(2) by auto
  have c1: "calm owned s p {a} ?w"
    by (rule calm_move [OF c]) (use take(1) calmD(11) [OF c] in \<open>auto simp: inv_at_def\<close>)
  obtain u where u: "uts ?w a = Some u" "\<not> bit (status u) UT_ST_EXITED" using take(2) calmD(11) [OF c] by auto
  have ok1: "codes_ok owned s p rank prog (?w, k)" using ok by (simp add: codes_ok_def coded_def)
  obtain w' k' xs where r: "uthread_resume os prog a (?w, k) = Inr (0, w', k')" "calm owned s p {} w'"
    "codes_ok owned s p rank prog (w', k')" "(weight rank prog (w', k'), weight rank prog (?w, k)) \<in> lighter"
    "queue_of p w' = queue_of p ?w @ xs"
    using resume_step [OF os prog af c1 ok1 u] by blast
  have w: "weight rank prog (?w, k) = weight rank prog (w, k)" by (simp add: weight_def)
  have up: "p_upd p (\<lambda>q. q\<lparr>ready := remove1 a (ready q)\<rparr>) w = Inr ((), ?w)" using p p0 by (simp add: op_simps)
  have run: "oseq (on_world (p_upd p (\<lambda>q. q\<lparr>ready := remove1 a (ready q)\<rparr>))) (uthread_resume os prog a) (w, k) = Inr (0, w', k')"
    using r(1) up by (simp add: op_simps)
  obtain sc' where s': "scheds w' s = Some sc'" "sched_p sc' = p" using calmD(7) [OF r(2)] by blast
  have "ready_turn os prog s lr (w, k) = Inr (a \<noteq> lr, w', k')"
    using s s' p up r(1) p0 by (simp add: ready_turn_def op_simps Let_def)
  with r w run show ?thesis by (auto simp: machine_ok_def queue_of_def)
qed

lemma run_ready_steps:
  assumes os: "alloc_ok os owned" and prog: "\<forall>f ar. cooperative owned s p rank (rank f) (prog f ar)"
    and af: "\<forall>u. ut_id u < MAX_COUNT_UTHREAD \<longrightarrow> ut_id (after_free os u) < MAX_COUNT_UTHREAD"
  shows "machine_ok owned s p rank prog m \<Longrightarrow> queue_of p (fst m) = as @ xs \<Longrightarrow> as \<noteq> [] \<Longrightarrow> distinct as \<Longrightarrow>
    \<exists>m'. resume_each os prog p as m = Inr ((), m') \<and> while_turn (ready_turn os prog s (last as)) m = Some (Inr m') \<and>
      machine_ok owned s p rank prog m' \<and> (weight rank prog m', weight rank prog m) \<in> lighter"
proof (induction as arbitrary: m xs)
  case (Cons a as)
  obtain w k where m: "m = (w, k)" by fastforce
  obtain w' k' ys where st: "oseq (on_world (p_upd p (\<lambda>q. q\<lparr>ready := remove1 a (ready q)\<rparr>))) (uthread_resume os prog a) (w, k) = Inr (0, w', k')"
    "machine_ok owned s p rank prog (w', k')" "(weight rank prog (w', k'), weight rank prog (w, k)) \<in> lighter"
    "queue_of p w' = (as @ xs) @ ys" "ready_turn os prog s (last (a # as)) (w, k) = Inr (a \<noteq> last (a # as), w', k')"
    using ready_step [OF os prog af, of w k a "as @ xs" "last (a # as)"] Cons.prems(1,2) m by auto
  have each: "resume_each os prog p (a # as) m = resume_each os prog p as (w', k')"
    using st(1) unfolding m by (auto simp: oseq_Inr_iff oseq_def obind_def split: sum.splits)
  show ?case
  proof (cases "as = []")
    case True
    then have "resume_each os prog p (a # as) m = Inr ((), w', k')" using each by (simp add: op_simps)
    moreover have "while_turn (ready_turn os prog s (last (a # as))) m = Some (Inr (w', k'))"
      using st(5) True unfolding m by (subst while_turn.simps) simp
    ultimately show ?thesis using st(2,3) m by blast
  next
    case False
    have dist: "a \<noteq> last as" using Cons.prems(4) False by auto
    have "while_turn (ready_turn os prog s (last (a # as))) m = while_turn (ready_turn os prog s (last as)) (w', k')"
      using st(5) False dist unfolding m by (subst while_turn.simps) simp
    moreover obtain m' where "resume_each os prog p as (w', k') = Inr ((), m')"
      "while_turn (ready_turn os prog s (last as)) (w', k') = Some (Inr m')" "machine_ok owned s p rank prog m'"
      "(weight rank prog m', weight rank prog (w', k')) \<in> lighter"
      using Cons.IH [OF st(2), of "xs @ ys"] st(4) Cons.prems(4) False by auto
    ultimately show ?thesis using each st(3) lighter_trans unfolding m by metis
  qed
qed simp

lemma rbtree_Nil: "rbtree key m root [] \<Longrightarrow> root = NULL"
  by (auto simp: rbtree_def rb_def elim: inorder.elims)

lemma rbtree_null: "rbtree key m NULL xs \<Longrightarrow> xs = []"
  using tree_at_NULL [of m NULL] by (auto simp: rbtree_def rb_def elim!: root_of.elims)

lemma calm_p:
  assumes c: "calm owned s p {} w"
  shows "\<exists>q. ps w p = Some q \<and> queue_of p w = ready q \<and> set (ready q) = dom (uts w) \<and> distinct (ready q) \<and>
    sleeping q = NULL \<and> waiting q = NULL \<and> p \<noteq> NULL \<and> RB_MIN (sleep_mem w, sleeping q) = Some NULL"
proof -
  obtain q where q: "ps w p = Some q" using calmD(6) [OF c] by blast
  have core: "core {} (waiters (uts w)) w" using calmD(1) [OF c] by (simp add: inv_at_def)
  have ok: "p_ok (uts w) {} (waiters (uts w)) (sleep_mem w) (wait_mem w) p q" by (rule core_parts(9) [OF core q])
  have W: "waiters (uts w) = {}" using calmD(2) [OF c] waiters_asleep by blast
  have all: "of_p (uts w) p = dom (uts w)" using calmD(8) [OF c] by (auto simp: of_p_def)
  have "sleeping q = NULL" "waiting q = NULL" using ok rbtree_Nil unfolding p_ok_def calmD(2) [OF c] W by auto
  moreover have "RB_MIN (sleep_mem w, sleeping q) = Some NULL"
    by (rule no_sleeper [OF core q]) (simp add: calmD(2) [OF c])
  moreover have "p \<noteq> NULL" using core_parts(2) [OF core] q by (metis domI)
  ultimately show ?thesis using q ok calmD(2) [OF c] all by (auto simp: p_ok_def queue_of_def)
qed

lemma run_ready_round:
  assumes os: "alloc_ok os owned" and prog: "\<forall>f ar. cooperative owned s p rank (rank f) (prog f ar)"
    and af: "\<forall>u. ut_id u < MAX_COUNT_UTHREAD \<longrightarrow> ut_id (after_free os u) < MAX_COUNT_UTHREAD"
    and m: "machine_ok owned s p rank prog m" "queue_of p (fst m) \<noteq> []"
  shows "\<exists>m'. resume_each os prog p (queue_of p (fst m)) m = Inr ((), m') \<and> run_ready os prog s m = Some (Inr m') \<and>
    machine_ok owned s p rank prog m' \<and> (weight rank prog m', weight rank prog m) \<in> lighter"
proof -
  obtain w k where w: "m = (w, k)" by fastforce
  have c: "calm owned s p {} w" using m(1) w by (simp add: machine_ok_def)
  obtain sc where s: "scheds w s = Some sc" "sched_p sc = p" "s \<noteq> NULL" using calmD(4,7) [OF c] by blast
  obtain q where q: "ps w p = Some q" "queue_of p w = ready q" "distinct (ready q)" "p \<noteq> NULL" using calm_p [OF c] by blast
  have last: "last_of (ready q) = last (ready q)" using m(2) q(2) w by (cases "ready q" rule: rev_cases) (auto simp: last_of_def)
  have "run_ready os prog s m = while_turn (ready_turn os prog s (last (ready q))) m"
    using s q(1,4) last unfolding w run_ready_def by (simp add: op_simps)
  then show ?thesis using run_ready_steps [OF os prog af m(1), of "ready q" "[]"] m(2) q(2,3) w by simp
qed

text \<open>\<^verbatim>\<open>epoll_wait\<close> on an instance that watches no descriptor returns 0 when its time is over.\<close>

definition idle_poll :: "'k os \<Rightarrow> ('k \<Rightarrow> ptr set) \<Rightarrow> bool" where
  "idle_poll os owned \<longleftrightarrow> (\<forall>fd t k. \<exists>e k'. os_epoll_wait os fd t k = ((0, [], e), k') \<and> owned k \<subseteq> owned k')"

lemma poll_calm:
  assumes idle: "idle_poll os owned" and c: "calm owned s p {} w"
  shows "\<exists>w' q. uthread_poll os w = Some (Inr w') \<and> calm owned s p {} w' \<and> uts w' = uts w \<and>
    ps w' p = Some q \<and> num_new_events q = 0"
proof -
  obtain sc where s: "scheds w s = Some sc" "sched_p sc = p" "s \<noteq> NULL" "tsd w = s" using calmD(4,5,7) [OF c] by blast
  obtain q where q: "ps w p = Some q" "p \<noteq> NULL" "RB_MIN (sleep_mem w, sleeping q) = Some NULL" using calm_p [OF c] by blast
  have like: "calm owned s p {} (w\<lparr>ps := (ps w)(p \<mapsto> q')\<rparr>)"
    if "ready q' = ready q" "sleeping q' = sleeping q" "waiting q' = waiting q" for q'
    by (rule calm_move [OF c])
      (use core_p_like [of "{}" _ w p q q'] that q(1) calmD(1,11) [OF c] in \<open>auto simp: inv_at_def\<close>)
  let ?q = "q\<lparr>num_new_events := 0\<rparr>" let ?w = "w\<lparr>ps := (ps w)(p \<mapsto> ?q)\<rparr>"
  have pre: "obind sched_get (\<lambda>s. obind (s_get s) (\<lambda>sc. oseq (p_upd (sched_p sc) (\<lambda>q. q\<lparr>num_new_events := 0\<rparr>))
      (obind (uthread_min_timeout os s) (\<lambda>usecs. obind (p_get (sched_p sc)) (\<lambda>q. oret (sched_p sc, usecs, q)))))) w =
    Inr ((p, 1000000, ?q), ?w)"
    using s q by (simp add: op_simps uthread_min_timeout_def of_tree_def)
  show ?thesis
  proof (cases "ready q = []")
    case False
    then have "uthread_poll os w = Some (Inr ?w)" unfolding uthread_poll_def pre by simp
    then show ?thesis using like [of ?q] by (intro exI [of _ ?w] exI [of _ ?q]) simp
  next
    case True
    obtain e k' where e: "os_epoll_wait os (poller_fd q) 1000 (kern w) = ((0, [], e), k')" "owned (kern w) \<subseteq> owned k'"
      using idle unfolding idle_poll_def by blast
    have t: "poll_timeout 1000000 = Inr 1000" by (simp add: poll_timeout_def Let_def c_int_def)
    have l: "epoll_wait_loop os (poller_fd ?q) 1000 ?w = Some (Inr ((0, []), ?w\<lparr>kern := k'\<rparr>))"
      using e(1) by (subst epoll_wait_loop.simps) simp
    have "uthread_poll os w = Some (Inr (?w\<lparr>kern := k'\<rparr>))"
      unfolding uthread_poll_def pre using True t l q(2) by (simp add: op_simps)
    moreover have "calm owned s p {} (?w\<lparr>kern := k'\<rparr>)" by (rule calm_fields [OF like [of ?q]]) (use e(2) in simp_all)
    ultimately show ?thesis by (intro exI [of _ "?w\<lparr>kern := k'\<rparr>"] exI [of _ ?q]) simp
  qed
qed

lemma expired_calm:
  assumes c: "calm owned s p {} w"
  shows "uthread_resume_expired os prog s (w, k) = Some (Inr (w, k))"
proof -
  obtain sc where s: "scheds w s = Some sc" "sched_p sc = p" "s \<noteq> NULL" using calmD(4,7) [OF c] by blast
  obtain q where q: "ps w p = Some q" "p \<noteq> NULL" "RB_MIN (sleep_mem w, sleeping q) = Some NULL" using calm_p [OF c] by blast
  have "expired_turn os prog s (w, k) = Inr (False, w, k)" using s q by (simp add: expired_turn_def op_simps of_tree_def)
  then show ?thesis unfolding uthread_resume_expired_def by (subst while_turn.simps) simp
qed

lemma round_ok:
  assumes os: "alloc_ok os owned" "idle_poll os owned"
    and prog: "\<forall>f ar. cooperative owned s p rank (rank f) (prog f ar)"
    and af: "\<forall>u. ut_id u < MAX_COUNT_UTHREAD \<longrightarrow> ut_id (after_free os u) < MAX_COUNT_UTHREAD"
    and m: "machine_ok owned s p rank prog m" "queue_of p (fst m) \<noteq> []"
  shows "\<exists>m'. sched_round os prog s m = Some (Inr m') \<and> machine_ok owned s p rank prog m' \<and>
    (weight rank prog m', weight rank prog m) \<in> lighter"
proof -
  obtain w k where w: "m = (w, k)" by fastforce
  have c: "calm owned s p {} w" using m(1) w by (simp add: machine_ok_def)
  obtain w1 k1 where r: "run_ready os prog s (w, k) = Some (Inr (w1, k1))" "machine_ok owned s p rank prog (w1, k1)"
    "(weight rank prog (w1, k1), weight rank prog (w, k)) \<in> lighter"
    using run_ready_round [OF os(1) prog af m] w by (metis surj_pair)
  have c1: "calm owned s p {} w1" and ok1: "codes_ok owned s p rank prog (w1, k1)" using r(2) by (simp_all add: machine_ok_def)
  obtain sc where s: "scheds w1 s = Some sc" "sched_p sc = p" "s \<noteq> NULL" using calmD(4,7) [OF c1] by blast
  have p0: "p \<noteq> NULL" using calm_p [OF c1] by blast
  obtain w2 q where p: "uthread_poll os w1 = Some (Inr w2)" "calm owned s p {} w2" "uts w2 = uts w1" "ps w2 p = Some q"
    "num_new_events q = 0"
    using poll_calm [OF os(2) c1] by blast
  obtain sc2 where s2: "scheds w2 s = Some sc2" "sched_p sc2 = p" using calmD(7) [OF p(2)] by blast
  have "events_turn os prog s (w2, k1) = Inr (False, w2, k1)" using s2 s(3) p0 p(4,5) by (simp add: events_turn_def op_simps)
  then have ev: "while_turn (events_turn os prog s) (w2, k1) = Some (Inr (w2, k1))" by (subst while_turn.simps) simp
  have "sched_round os prog s m = Some (Inr (w2, k1))"
    unfolding sched_round_def w expired_calm [OF c] using r(1) s p0 p(1) ev by (simp add: then_op_def op_simps)
  moreover have "codes_ok owned s p rank prog (w2, k1)" "weight rank prog (w2, k1) = weight rank prog (w1, k1)"
    using ok1 p(3) by (simp_all add: codes_ok_def coded_def weight_def)
  ultimately show ?thesis using r(3) p(2) w by (auto simp: machine_ok_def)
qed

lemma free_stacks_ok:
  assumes "NULL \<notin> set ss" "set ss \<subseteq> dom (scheds w)" "distinct (map (\<lambda>s. sched_stack (the (scheds w s))) ss)"
    "(\<lambda>s. sched_stack (the (scheds w s))) ` set ss \<subseteq> dom (blocks w)"
  shows "\<exists>w'. free_stacks ss w = Inr ((), w') \<and> uts w' = uts w \<and> glob w' = glob w"
  using assms
proof (induction ss arbitrary: w)
  case Nil
  then show ?case by (simp add: op_simps)
next
  case (Cons s ss)
  obtain sc where s: "scheds w s = Some sc" "s \<noteq> NULL" using Cons.prems(1,2) by auto
  let ?b = "if sched_stack sc = NULL then blocks w else (blocks w)(sched_stack sc := None)"
  have "free_block (sched_stack sc) w = Inr ((), w\<lparr>blocks := ?b\<rparr>)" using Cons.prems(4) s(1) by (auto simp: free_block_def)
  moreover have "sched_stack (the (scheds w t)) \<in> dom ?b" if "t \<in> set ss" for t
    using that Cons.prems(3,4) s(1) by (auto simp: image_iff)
  then have "\<exists>w'. free_stacks ss (w\<lparr>blocks := ?b\<rparr>) = Inr ((), w') \<and> uts w' = uts (w\<lparr>blocks := ?b\<rparr>) \<and> glob w' = glob (w\<lparr>blocks := ?b\<rparr>)"
    using Cons.prems by (intro Cons.IH) auto
  ultimately show ?case using s by (auto simp: op_simps)
qed

lemma sched_loop_done:
  assumes os: "alloc_ok os owned" "idle_poll os owned"
    and prog: "\<forall>f ar. cooperative owned s p rank (rank f) (prog f ar)"
    and af: "\<forall>u. ut_id u < MAX_COUNT_UTHREAD \<longrightarrow> ut_id (after_free os u) < MAX_COUNT_UTHREAD"
  shows "machine_ok owned s p rank prog m \<Longrightarrow>
    \<exists>m'. sched_loop os prog s m = Some (Inr m') \<and> uts (fst m') = Map.empty \<and> n_uthread (glob (fst m')) = 0"
proof (induction "weight rank prog m" arbitrary: m rule: wf_induct_rule [OF wf_lighter])
  case 1
  obtain w k where w: "m = (w, k)" by fastforce
  have c: "calm owned s p {} w" using 1(2) w by (simp add: machine_ok_def)
  obtain sc where s: "scheds w s = Some sc" "sched_p sc = p" "s \<noteq> NULL" using calmD(4,7) [OF c] by blast
  obtain q where q: "ps w p = Some q" "queue_of p w = ready q" "set (ready q) = dom (uts w)" "sleeping q = NULL"
    "waiting q = NULL" "p \<noteq> NULL" using calm_p [OF c] by blast
  have work: "has_work s (w, k) = Inr (ready q \<noteq> [], w, k)"
    using s q(1,4-6) by (simp add: has_work_def op_simps sched_work_done_def RB_EMPTY_def)
  show ?case
  proof (cases "ready q = []")
    case False
    then obtain m' where m': "sched_round os prog s m = Some (Inr m')" "machine_ok owned s p rank prog m'"
      "(weight rank prog m', weight rank prog m) \<in> lighter"
      using round_ok [OF os prog af 1(2)] q(2) w by auto
    have "sched_loop os prog s m = sched_loop os prog s m'"
      using work False m'(1) unfolding w by (subst sched_loop.simps) simp
    then show ?thesis using 1(1) [OF m'(3) m'(2)] by simp
  next
    case True
    then have e: "uts w = Map.empty" "n_uthread (glob w) = 0" using q(3) calmD(12) [OF c] by auto
    have mem: "NULL \<notin> set (sched_with_stack (glob w))" "set (sched_with_stack (glob w)) \<subseteq> dom (scheds w)"
      "distinct (sched_stacks w)" "set (sched_stacks w) \<subseteq> dom (blocks w)"
      using calmD(3) [OF c] unfolding mem_ok_def by blast+
    obtain w' where "free_stacks (sched_with_stack (glob w)) w = Inr ((), w')" "uts w' = uts w" "glob w' = glob w"
      using free_stacks_ok [OF mem(1,2)] mem(3,4) by (auto simp: sched_stacks_def)
    then have "on_world free_source (w, k) = Inr ((), w', k)" "uts w' = uts w" "glob w' = glob w"
      by (simp_all add: free_source_def op_simps)
    then have "sched_loop os prog s m = Some (Inr (w', k))"
      using work True e(2) unfolding w by (subst sched_loop.simps) simp
    with e show ?thesis using \<open>uts w' = uts w\<close> \<open>glob w' = glob w\<close> by simp
  qed
qed

end
