(* ===== verification/Ut_Program.thy ===== *)
theory Ut_Program
  imports Ut_Complete
begin

text \<open>
  Whole programs: from the first \<^verbatim>\<open>uthread_create\<close> in \<^verbatim>\<open>main\<close> to the end of the process.
\<close>

subsection \<open>The memory after the start\<close>

text \<open>The state of a program that has not called the library yet.\<close>

definition unused :: "('k \<Rightarrow> ptr set) \<Rightarrow> 'k world \<Rightarrow> bool" where
  "unused owned w \<longleftrightarrow> unstarted w \<and> dom (blocks w) \<subseteq> owned (kern w) \<and> n_uthread (glob w) = 0 \<and>
     length (slot (wheel w)) = TIME_WHEEL_SIZE"

text \<open>The stacks of the first \<open>i\<close> schedulers.\<close>

definition stacked :: "('k \<Rightarrow> ptr set) \<Rightarrow> nat \<Rightarrow> 'k world \<Rightarrow> bool" where
  "stacked owned i w \<longleftrightarrow> sched_with_stack (glob w) = map all_sched [0..<i] \<and> distinct (sched_stacks w) \<and>
     set (sched_stacks w) \<subseteq> dom (blocks w) \<and> dom (blocks w) \<subseteq> owned (kern w)"

lemma stacked_step:
  assumes os: "alloc_ok os owned" and st: "stacked owned i w"
    and w': "os_malloc os (kern w) = (a, kern w')" "blocks w' = (blocks w)(a \<mapsto> n)" "scheds w' = (scheds w)(all_sched i \<mapsto> sc)"
      "sched_stack sc = a" "sched_with_stack (glob w') = sched_with_stack (glob w) @ [all_sched i]"
  shows "stacked owned (Suc i) w'"
proof -
  have "sched_stack (the (scheds w' b)) = sched_stack (the (scheds w b))" if "b \<in> set (sched_with_stack (glob w))" for b
    using that st w'(3) by (auto simp: stacked_def)
  then have s: "sched_stacks w' = sched_stacks w @ [a]" using w'(3-5) by (simp add: sched_stacks_def)
  have a: "a \<notin> owned (kern w)" "a \<in> owned (kern w')" "owned (kern w) \<subseteq> owned (kern w')" using alloc_okD(1) [OF os w'(1)] by auto
  then have "a \<notin> set (sched_stacks w)" using st unfolding stacked_def by blast
  then show ?thesis using st a w'(2,5) unfolding stacked_def s by auto
qed

lemma stacked_loop:
  assumes os: "alloc_ok os owned"
  shows "inited i w \<Longrightarrow> stacked owned i w \<Longrightarrow> i + n \<le> MAX_PROCS \<Longrightarrow>
    \<exists>w'. runtime_init_loop os i n w = Inr (True, w') \<and> inited (i + n) w' \<and> stacked owned (i + n) w' \<and>
      n_uthread (glob w') = n_uthread (glob w) \<and> wheel w' = wheel w"
proof (induction n arbitrary: i w)
  case 0
  then show ?case by (simp add: op_simps)
next
  case (Suc n)
  have nn: "fst (os_malloc os k) \<noteq> NULL" for k using alloc_okD(1) [OF os] by (metis surj_pair fst_conv)
  obtain w1 a sc where w1: "runtime_init_turn os i w = Inr (True, w1)" "inited (Suc i) w1"
    "n_uthread (glob w1) = n_uthread (glob w)" "wheel w1 = wheel w" "os_malloc os (kern w) = (a, kern w1)"
    "blocks w1 = (blocks w)(a \<mapsto> STACK_SIZE)" "scheds w1 = (scheds w)(all_sched i \<mapsto> sc)" "sched_stack sc = a"
    "sched_with_stack (glob w1) = sched_with_stack (glob w) @ [all_sched i]"
    using inited_turn [OF Suc.prems(1) _ nn] Suc.prems(3) by (auto simp: Suc_le_eq)
  have "stacked owned (Suc i) w1" by (rule stacked_step [OF os Suc.prems(2) w1(5-9)])
  with Suc.IH [OF w1(2)] Suc.prems(3) w1 show ?case by (auto simp: op_simps)
qed

lemma boot_calm:
  assumes os: "alloc_ok os owned" and w: "unused owned w"
  shows "\<exists>a w2. uthread_create os f ar w = Susp a w2 (cseq (cret (0 :: int)) (lift (create_ut os (all_sched 0) f ar))) \<and>
    calm owned (all_sched 0) (all_p 0) {} w2 \<and> uts w2 = [a \<mapsto> main_uthread (all_p 0)]"
proof -
  let ?w0 = "w\<lparr>glob := (glob w)\<lparr>sched_idle := [], sched_with_stack := [], bitmap_sched := (\<lambda>_. 0),
       next_sched_id := MAX_PROCS, p_idle := [], bitmap_ut := (\<lambda>_. 0), next_ut_id := 0\<rparr>\<rparr>"
  have "inited 0 ?w0" "stacked owned 0 ?w0"
    using w by (simp_all add: inited_def unstarted_def unused_def stacked_def sched_stacks_def)
  then obtain w1 where w1: "runtime_init_loop os 0 MAX_PROCS ?w0 = Inr (True, w1)" "inited MAX_PROCS w1"
    "stacked owned MAX_PROCS w1" "n_uthread (glob w1) = n_uthread (glob w)" "wheel w1 = wheel w"
    using stacked_loop [OF os, of 0 ?w0 MAX_PROCS] by auto
  obtain fd k where fd: "os_epoll_create os (kern w1) = (fd, k)" by fastforce
  obtain r k' where r: "os_pthread_create os k = (r, k')" by fastforce
  obtain wb sc where wb: "runtime_init os w = Inr (0, wb)" "booted wb" "n_uthread (glob wb) = n_uthread (glob w1)"
    "kern wb = k'" "blocks wb = blocks w1" "wheel wb = create_timewheel (wheel w1)"
    "sched_with_stack (glob wb) = sched_with_stack (glob w1)" "scheds w1 (all_sched 0) = Some sc"
    "scheds wb = (scheds w1)(all_sched 0 \<mapsto> sc\<lparr>sched_status := BIT SCHED_ST_RUNNING, sched_p := all_p 0\<rparr>)"
    using runtime_init_after_loop [OF w1(1,2) fd r] by blast
  obtain a k2 where a: "os_malloc os (kern wb) = (a, k2)" by fastforce
  note al = alloc_okD(1) [OF os a]
  then obtain w2 q where w2: "main_enter os wb = Inr (a, w2)" "inv_at {} w2" "uts w2 = [a \<mapsto> main_uthread (all_p 0)]"
    "ps w2 (all_p 0) = Some q" "n_uthread (glob w2) = n_uthread (glob wb) + 1" "next_ut_id (glob w2) = 1"
    "tsd w2 = all_sched 0" "scheds w2 = scheds wb" "blocks w2 = blocks wb" "wheel w2 = wheel wb" "kern w2 = k2"
    "sched_with_stack (glob w2) = sched_with_stack (glob wb)"
    using main_enter_core [OF wb(2) a] by blast
  have own: "owned (kern w1) \<subseteq> owned k2" "a \<in> owned k2"
    using alloc_okD(4) [OF os fd] alloc_okD(5) [OF os r] al wb(4) by auto
  have ss: "sched_stacks w2 = sched_stacks w1"
    unfolding sched_stacks_def w2(8,12) wb(7,9) using wb(8) by (auto split: if_splits)
  have "\<exists>y. scheds w1 (all_sched j) = Some y" if "j < MAX_PROCS" for j
    using w1(2) that by (auto simp: inited_def unstarted_def)
  then have sub: "set (sched_with_stack (glob w2)) \<subseteq> dom (scheds w2)" "NULL \<notin> set (sched_with_stack (glob w2))"
    using w1(3) unfolding w2(8,12) wb(7,9) by (auto simp: stacked_def)
  have bl: "set (sched_stacks w1) \<subseteq> dom (blocks w1)" "distinct (sched_stacks w1)" "dom (blocks w1) \<subseteq> owned k2"
    using w1(3) own(1) unfolding stacked_def by auto
  have "mem_ok owned w2"
    unfolding mem_ok_def ss w2(3,9,11) wb(5)
  proof (intro conjI)
    show "dom [a \<mapsto> main_uthread (all_p 0)] \<union> dom (blocks w1) \<subseteq> owned k2" using bl(3) own(2) by simp
  qed (use sub bl in \<open>auto simp: main_uthread_def split: if_splits\<close>)
  moreover have "asleep (uts w2) = {}" unfolding w2(3) by (auto simp: asleep_def split: if_splits)
  moreover have "\<exists>sc. scheds w2 (all_sched 0) = Some sc \<and> sched_p sc = all_p 0" unfolding w2(8) wb(9) by simp
  moreover have "ut_p u = all_p 0 \<and> ut_joined u = NULL \<and> ut_id u < MAX_COUNT_UTHREAD \<and>
      (b \<notin> {} \<longrightarrow> \<not> bit (status u) UT_ST_EXITED)" if "uts w2 b = Some u" for b u
    using that unfolding w2(3) by (auto simp: main_uthread_def zero_uthread_def MAX_COUNT_UTHREAD_def split: if_splits)
  moreover have "n_uthread (glob w2) = of_nat (card (dom (uts w2)))"
    using w2(3,5) wb(3) w1(4) w by (simp add: unused_def)
  moreover have "length (slot (wheel w2)) = TIME_WHEEL_SIZE" "current (wheel w2) < TIME_WHEEL_SIZE"
    using w w1(5) unfolding w2(10) wb(6) by (auto simp: unused_def create_timewheel_def TIME_WHEEL_SIZE_def)
  moreover have "next_ut_id (glob w2) < MAX_COUNT_UTHREAD" unfolding w2(6) by (simp add: MAX_COUNT_UTHREAD_def)
  moreover have "all_p 0 \<in> dom (ps w2)" using w2(4) by blast
  ultimately have "calm owned (all_sched 0) (all_p 0) {} w2" unfolding calm_def orderly_def using w2(2,7) by auto
  moreover have "tsd w = NULL" using w by (simp add: unused_def unstarted_def)
  ultimately show ?thesis using first_create_switches [OF _ wb(1,2) w2(1), of f ar] al w2(3) by blast
qed

subsection \<open>Completion\<close>

lemma lively_cbind:
  assumes "cooperative owned s p rank r m" "\<And>a. lively owned s p rank r ut (f a)"
  shows "lively owned s p rank r ut (cbind m f)"
  unfolding lively_def
proof (intro allI impI)
  fix w
  assume w: "runs owned s p rank r ut w \<and> \<not> exited ut w"
  let ?C = "cooperates owned s p rank r ut"
  have "?C (\<lambda>_ w'. \<not> exited ut w') (m w) w" using assms(1) w unfolding cooperative_def by blast
  moreover have "?C (\<lambda>_ _. False) (f a w1) w1" if "runs owned s p rank r ut w1" "\<not> exited ut w1" for a w1
    using assms(2) [of a] that unfolding lively_def by blast
  ultimately have "?C (\<lambda>a w1. ?C (\<lambda>_ _. False) (f a w1) w1) (m w) w"
    by (rule coop_mono) (auto simp: part_def)
  then show "?C (\<lambda>_ _. False) (cbind m f w) w"
    unfolding cbind_def by (rule coop_and_then [where G = "part owned s p rank r ut", rotated]) (rule part_trans)
qed

lemma main_end_lively: "lively owned s p rank r ut main_end"
  unfolding lively_def
proof (intro allI impI)
  fix w
  assume w: "runs owned s p rank r ut w \<and> \<not> exited ut w"
  then obtain u where u: "uts w ut = Some u" by (auto simp: runs_def)
  show "cooperates owned s p rank r ut (\<lambda>_ _. False) (main_end w) w"
    unfolding main_end_runs [OF conjunct1 [OF w] u] by (rule runs_end [OF conjunct1 [OF w] u])
qed

text \<open>
  What \<^verbatim>\<open>main\<close> does: it creates a uthread, does the rest of its work and calls \<^verbatim>\<open>main_end\<close>.
\<close>

definition main_prog :: "'k os \<Rightarrow> ptr \<Rightarrow> ptr \<Rightarrow> (int \<times> ptr \<Rightarrow> ('k world, unit) co) \<Rightarrow> ('k world, unit) co" where
  "main_prog os f ar body = cbind (uthread_create os f ar) (\<lambda>x. cseq (body x) main_end)"

lemma main_prog_boots:
  assumes os: "alloc_ok os owned" and w: "unused owned w" and f: "rank f < rank NULL"
    and body: "\<And>x. cooperative owned (all_sched 0) (all_p 0) rank (rank NULL) (body x)"
  shows "\<exists>a w2 c. main_prog os f ar body w = Susp a w2 c \<and> tsd w2 = all_sched 0 \<and> queue_of (all_p 0) w2 = [a] \<and>
    machine_ok owned (all_sched 0) (all_p 0) rank prog (w2, [a \<mapsto> c])"
proof -
  let ?s = "all_sched 0" and ?p = "all_p 0"
  obtain a w2 where w2: "uthread_create os f ar w = Susp a w2 (cseq (cret (0 :: int)) (lift (create_ut os ?s f ar)))"
    "calm owned ?s ?p {} w2" "uts w2 = [a \<mapsto> main_uthread ?p]"
    using boot_calm [OF os w] by blast
  let ?c = "cbind (cseq (cret (0 :: int)) (lift (create_ut os ?s f ar))) (\<lambda>x. cseq (body x) main_end)"
  have run: "main_prog os f ar body w = Susp a w2 ?c"
    unfolding main_prog_def cbind_def [of "uthread_create os f ar"] w2(1) by (simp add: cbind_def [abs_def])
  have main: "lively owned ?s ?p rank (rank NULL) a (main_prog os f ar body)"
    unfolding main_prog_def cseq_def
    by (intro lively_cbind cooperative_create os f body main_end_lively)
  have "?c w' = main_prog os f ar body w'" if "runs owned ?s ?p rank (rank NULL) a w'" for w'
  proof -
    have t: "tsd w' = ?s" "?s \<noteq> NULL" using that calmD(4,5) by (auto simp: runs_def)
    then have "uthread_create os f ar w' = lift (create_ut os ?s f ar) w'"
      by (simp add: uthread_create_def sched_get_def get_co)
    then show ?thesis by (simp add: main_prog_def cseq_def cbind_cret) (simp add: cbind_def)
  qed
  then have "lively owned ?s ?p rank (rank NULL) a ?c" using main unfolding lively_def by simp
  then have "codes_ok owned ?s ?p rank prog (w2, [a \<mapsto> ?c])"
    using w2(3) by (auto simp: codes_ok_def coded_def code_of_def main_uthread_def zero_uthread_def split: if_splits)
  then have "machine_ok owned ?s ?p rank prog (w2, [a \<mapsto> ?c])" using w2(2) by (simp add: machine_ok_def)
  moreover have "queue_of ?p w2 = [a]"
  proof -
    obtain q :: proc where q: "queue_of ?p w2 = ready q" "set (ready q) = dom (uts w2)" "distinct (ready q)" using calm_p [OF w2(2)] by blast
    then have "length (ready q) = 1" using distinct_card [OF q(3)] w2(3) by simp
    then show ?thesis using q(1,2) w2(3) by (auto simp: length_Suc_conv)
  qed
  ultimately show ?thesis using run calmD(5) [OF w2(2)] by blast
qed

text \<open>
  C3: A program whose functions cooperate (they compute, make system calls, yield, create uthreads of lower
  levels and end, but do not sleep, wait or join) runs to completion: \<^verbatim>\<open>_sched_run\<close> ends, every uthread has
  been freed, and the count of uthreads is 0.
\<close>

theorem cooperative_program_completes:
  assumes "alloc_ok os owned" "idle_poll os owned"
    and "\<forall>u. ut_id u < MAX_COUNT_UTHREAD \<longrightarrow> ut_id (after_free os u) < MAX_COUNT_UTHREAD"
    and "unused owned w"
    and "\<forall>g x. cooperative owned (all_sched 0) (all_p 0) rank (rank g) (prog g x)"
    and "\<forall>x. cooperative owned (all_sched 0) (all_p 0) rank (rank NULL) (body x)" "rank f < rank NULL"
  shows "\<exists>w' k'. run_program os prog (main_prog os f ar body) w = Some (Inr (w', k')) \<and>
    uts w' = Map.empty \<and> n_uthread (glob w') = 0"
proof -
  obtain a w2 c where m: "main_prog os f ar body w = Susp a w2 c" "tsd w2 = all_sched 0"
    "machine_ok owned (all_sched 0) (all_p 0) rank prog (w2, [a \<mapsto> c])"
    using main_prog_boots [OF assms(1,4,7), of body ar prog] assms(6) by blast
  have "\<exists>m'. sched_loop os prog (all_sched 0) (w2, [a \<mapsto> c]) = Some (Inr m') \<and> uts (fst m') = Map.empty \<and>
      n_uthread (glob (fst m')) = 0"
    by (rule sched_loop_done [OF assms(1,2,5,3) m(3)])
  then show ?thesis using m(1,2) by (auto simp: run_program_def sched_run_def)
qed

text \<open>A program: \<^verbatim>\<open>main\<close> creates two workers, which yield twice.\<close>

definition ex_owned :: "ex_kern \<Rightarrow> ptr set" where
  "ex_owned k = {..<1000 + fst k}"

definition ex_rank :: "ptr \<Rightarrow> nat" where
  "ex_rank g = (if g = NULL then 1 else 0)"

definition ex_prog :: "ptr \<Rightarrow> ptr \<Rightarrow> (ex_kern world, unit) co" where
  "ex_prog g x = cseq uthread_yield uthread_yield"

definition ex_body :: "int \<times> ptr \<Rightarrow> (ex_kern world, unit) co" where
  "ex_body x = cbind (uthread_create ex_os 6 0) (\<lambda>_. uthread_yield)"

lemma ex_env:
  "alloc_ok ex_os ex_owned" "idle_poll ex_os ex_owned" "after_free ex_os u = u" "unused ex_owned ex_static"
proof -
  show "alloc_ok ex_os ex_owned"
    unfolding alloc_ok_def ex_os_def ex_owned_def by (auto simp: Let_def split: prod.splits sys_call.splits)
  show "idle_poll ex_os ex_owned" by (simp add: idle_poll_def ex_os_def)
  show "after_free ex_os u = u" by (simp add: ex_os_def)
  show "unused ex_owned ex_static"
    using ex_static_unstarted by (simp add: unused_def ex_static_def ex_world_def zero_glob_def)
qed

lemma ex_cooperative:
  "cooperative ex_owned s p ex_rank (ex_rank g) (ex_prog g x)" "cooperative ex_owned s p ex_rank (ex_rank NULL) (ex_body y)"
proof -
  show "cooperative ex_owned s p ex_rank (ex_rank g) (ex_prog g x)"
    unfolding ex_prog_def by (intro cooperative_cseq cooperative_yield)
  show "cooperative ex_owned s p ex_rank (ex_rank NULL) (ex_body y)"
    unfolding ex_body_def
    by (intro cooperative_cbind cooperative_yield cooperative_create ex_env) (simp add: ex_rank_def)
qed

theorem cooperative_program_completes_witness:
  "\<exists>w' k'. run_program ex_os ex_prog (main_prog ex_os 5 0 ex_body) ex_static = Some (Inr (w', k')) \<and>
    uts w' = Map.empty \<and> n_uthread (glob w') = 0"
proof (rule cooperative_program_completes [where owned = ex_owned and rank = ex_rank])
  show "\<forall>u. ut_id u < MAX_COUNT_UTHREAD \<longrightarrow> ut_id (after_free ex_os u) < MAX_COUNT_UTHREAD" by (simp add: ex_env(3))
qed (simp_all add: ex_env ex_cooperative, simp add: ex_rank_def)

text \<open>
  C4: The inner loop of \<^verbatim>\<open>_sched_run\<close> over the ready queue: if all uthreads cooperate it ends, and it resumes
  exactly the uthreads that were in the queue when it started, each once and in their order; a
  uthread that is put into the queue meanwhile has to wait for the next round.
\<close>

theorem run_ready_in_order:
  assumes "alloc_ok os owned" "\<forall>u. ut_id u < MAX_COUNT_UTHREAD \<longrightarrow> ut_id (after_free os u) < MAX_COUNT_UTHREAD"
    and "\<forall>g x. cooperative owned s p rank (rank g) (prog g x)" "machine_ok owned s p rank prog m"
  shows "\<exists>m'. run_ready os prog s m = Some (Inr m') \<and>
    resume_each os prog p (queue_of p (fst m)) m = Inr ((), m') \<and> machine_ok owned s p rank prog m'"
proof (cases "queue_of p (fst m) = []")
  case False
  then show ?thesis using run_ready_round [OF assms(1,3,2,4)] by blast
next
  case True
  obtain w k where w: "m = (w, k)" by fastforce
  have c: "calm owned s p {} w" using assms(4) w by (simp add: machine_ok_def)
  obtain sc where s: "scheds w s = Some sc" "sched_p sc = p" "s \<noteq> NULL" using calmD(4,7) [OF c] by blast
  obtain q where q: "ps w p = Some q" "queue_of p w = ready q" "p \<noteq> NULL" using calm_p [OF c] by blast
  have "ready_turn os prog s (last_of (ready q)) (w, k) = Inr (False, w, k)"
    using s q True w by (simp add: ready_turn_def op_simps)
  then have "run_ready os prog s m = Some (Inr m)"
    using s q unfolding w run_ready_def by (simp add: op_simps) (subst while_turn.simps, simp)
  then show ?thesis using True assms(4) by (simp add: op_simps)
qed

theorem run_ready_in_order_witness:
  "\<exists>a w c m'. main_prog ex_os 5 0 ex_body ex_static = Susp a w c \<and> run_ready ex_os ex_prog 1 (w, [a \<mapsto> c]) = Some (Inr m') \<and>
    resume_each ex_os ex_prog 1 [a] (w, [a \<mapsto> c]) = Inr ((), m')"
proof -
  have sp: "all_sched 0 = 1" "all_p 0 = 1" by (simp_all add: all_sched_def all_p_def)
  have r: "ex_rank 5 < ex_rank NULL" by (simp add: ex_rank_def)
  obtain a w c where w: "main_prog ex_os 5 0 ex_body ex_static = Susp a w c" "queue_of 1 w = [a]"
    "machine_ok ex_owned 1 1 ex_rank ex_prog (w, [a \<mapsto> c])"
    using main_prog_boots [where rank = ex_rank and body = ex_body, OF ex_env(1,4) r ex_cooperative(2), of 0 ex_prog] unfolding sp by blast
  have "\<exists>m'. run_ready ex_os ex_prog 1 (w, [a \<mapsto> c]) = Some (Inr m') \<and>
    resume_each ex_os ex_prog 1 (queue_of 1 (fst (w, [a \<mapsto> c]))) (w, [a \<mapsto> c]) = Inr ((), m') \<and>
    machine_ok ex_owned 1 1 ex_rank ex_prog m'"
    by (rule run_ready_in_order [OF ex_env(1) _ _ w(3)]) (simp_all add: ex_env(3) ex_cooperative(1))
  with w(1,2) show ?thesis by auto
qed

end
