(* ===== verification/Ut_Poll.thy ===== *)
theory Ut_Poll
  imports Ut_Join
begin

text \<open>
  The properties of the scheduler's waiting: the time until the next sleeper, the timeout of
  \<^verbatim>\<open>epoll_wait\<close>; and the hand-over of the \<^verbatim>\<open>p\<close> when a uthread calls a disk operation.
\<close>

subsection \<open>Timeouts\<close>

text \<open>
  \<^verbatim>\<open>_uthread_min_timeout\<close>: one second when nobody sleeps; 0 when the time of the first sleeper has
  come; otherwise the difference between the wake-up time of the first sleeper and a second
  reading of the clock, taken modulo \<open>2 ^ 64\<close> even if the clock has passed the time meanwhile.
\<close>

theorem min_timeout_value:
  assumes "inv_at R w" "s \<noteq> NULL" "scheds w s = Some sc" "ps w (sched_p sc) = Some q"
    and "os_gettimeofday os (kern w) = ((s1, us1), k1)" "os_gettimeofday os k1 = ((s2, us2), k2)"
  shows "uthread_min_timeout os s w =
    (let A = of_p (uts w) (sched_p sc) \<inter> asleep (uts w); t = Min (skey (uts w) ` A) in
     if A = {} then Inr (1000000, w)
     else if s1 * 1000000 + us1 < t then Inr (t - (s2 * 1000000 + us2), w\<lparr>kern := k2\<rparr>)
     else Inr (0, w\<lparr>kern := k1\<rparr>))"
proof -
  have c: "core R (waiters (uts w)) w" using assms(1) by (simp add: inv_at_def)
  have p0: "sched_p sc \<noteq> NULL" using core_parts(2) [OF c] assms(4) by (metis domI)
  show ?thesis
  proof (cases rule: first_sleeper_cases [OF c assms(4)])
    case 1
    then show ?thesis using assms p0 by (simp add: uthread_min_timeout_def op_simps)
  next
    case (2 ut)
    let ?A = "of_p (uts w) (sched_p sc) \<inter> asleep (uts w)"
    obtain u where u: "uts w ut = Some u" using 2(2) by (auto simp: asleep_def)
    have ut0: "ut \<noteq> NULL" by (rule coreD(1) [OF c u])
    obtain xs where "set xs = ?A" using core_parts(9) [OF c assms(4)] by (auto simp: p_ok_def)
    then have "finite ?A" by (metis finite_set)
    then have "Min (skey (uts w) ` ?A) = skey (uts w) ut"
      using 2(2,3) by (intro Min_eqI) auto
    then have "Min (skey (uts w) ` ?A) = wakeup_time_usec u" using u by (simp add: skey_def)
    moreover have "?A \<noteq> {}" using 2(2) by blast
    ultimately show ?thesis
      using assms 2(1) p0 ut0 u by (simp add: uthread_min_timeout_def op_simps get_usec_now_def Let_def)
  qed
qed

theorem min_timeout_value_witness:
  "uthread_min_timeout ex_os 6 ex_world = Inr (999999, ex_world\<lparr>kern := (102, [])\<rparr>)"
proof -
  have "skey (uts ex_world) 12 = 1000100" by (simp add: skey_def ex_uts)
  then show ?thesis
    using min_timeout_value [OF ex_inv _ _ _ ex_later, of 6 ex_sched ex_proc] ex_scheds ex_ps
    by (simp add: ex_sets Let_def word_less_alt)
qed

text \<open>
  The timeout that \<^verbatim>\<open>_uthread_poll\<close> passes to \<^verbatim>\<open>epoll_wait\<close> is the number of whole milliseconds, as long
  as that number is in the range of \<^verbatim>\<open>int\<close>; otherwise the conversion is undefined, which is the case
  whenever the only sleeper has slept with the timeout 0 for less than 12400 days.
\<close>

theorem poll_timeout_milliseconds:
  "poll_timeout usecs = (if uint usecs div 1000 < 2 ^ 31 then Inr (uint usecs div 1000) else Inl SignedOverflow)"
proof -
  let ?u = "uint usecs"
  have u: "0 \<le> ?u" "?u < 2 ^ 64" using unsigned_less [of usecs, where 'a = int] by auto
  have d: "uint (usecs div 1000000) = ?u div 1000000" by (simp add: uint_div)
  have mod: "uint (usecs mod 1000000) = ?u mod 1000000" by (simp add: uint_mod)
  have ns: "uint ((usecs mod 1000000) * 1000) = (?u mod 1000000) * 1000"
    by (subst uint_word_arith_bintrs(3)) (simp add: mod take_bit_int_eq_self)
  have "uint (usecs div 1000000) * 1000 + uint (if usecs div 1000000 \<noteq> 0 then usecs mod 1000000 * 1000 else usecs * 1000) div 1000000
      = ?u div 1000"
  proof (cases "usecs div 1000000 = 0")
    case True
    then have "?u div 1000000 = 0" using d by simp
    then have "?u < 1000000" using u(1) by (simp add: div_eq_0_iff)
    moreover from this have "uint (usecs * 1000) = ?u * 1000"
      by (subst uint_word_arith_bintrs(3)) (simp add: take_bit_int_eq_self)
    ultimately show ?thesis using True d u(1) by simp
  next
    case False
    have gen: "(m + b * 1000) div 1000 = b + m div 1000" for m b :: int by simp
    have "?u = ?u mod 1000000 + (?u div 1000000 * 1000) * 1000" using div_mult_mod_eq [of ?u 1000000] by linarith
    then have "?u div 1000 = (?u mod 1000000 + (?u div 1000000 * 1000) * 1000) div 1000" by (rule arg_cong)
    also have "\<dots> = ?u div 1000000 * 1000 + ?u mod 1000000 div 1000" by (simp only: gen)
    also have "?u mod 1000000 div 1000 = (?u mod 1000000 * 1000) div (1000 * 1000)" by (simp only: div_mult_mult2 zero_neq_numeral)
    finally show ?thesis using False by (simp add: d ns)
  qed
  moreover have "- (2 ^ 31) \<le> x div 1000" if "0 \<le> x" for x :: int
    using that by (simp add: order_trans [of "- (2 ^ 31)" 0])
  note this [OF u(1)]
  ultimately show ?thesis by (simp add: poll_timeout_def Let_def c_int_def)
qed

subsection \<open>The hand-over\<close>

text \<open>No two schedulers have the same \<^verbatim>\<open>p\<close>.\<close>

definition owner_unique :: "'k world \<Rightarrow> bool" where
  "owner_unique w \<longleftrightarrow>
     (\<forall>s s' sc sc'. scheds w s = Some sc \<and> scheds w s' = Some sc' \<and> sched_p sc = sched_p sc' \<and> sched_p sc \<noteq> NULL \<longrightarrow>
        s = s')"

text \<open>
  C15: A disk operation of a uthread while others are ready: the \<^verbatim>\<open>p\<close> passes from the caller's scheduler to the
  first idle one, for which a thread is started; the \<^verbatim>\<open>p\<close> knows its new scheduler, still no two
  schedulers have the same \<^verbatim>\<open>p\<close>, and the invariant holds.
\<close>

theorem hand_over_moves_p:
  assumes "inv_at R w" "owner_unique w" "current_is ut w" "scheds w (tsd w) = Some sc" "sched_p sc \<noteq> NULL"
    and "ps w (sched_p sc) = Some q" "ready q \<noteq> []"
    and "sched_idle (glob w) = ns # rest" "ns \<noteq> NULL" "ns \<noteq> tsd w" "scheds w ns = Some nsc"
    and "os_pthread_create os (kern w) = (0, k)"
  shows "\<exists>w' sc' nsc' q'. hand_over os w = Inr ((), w') \<and> inv_at R w' \<and> owner_unique w' \<and>
    scheds w' (tsd w) = Some sc' \<and> sched_p sc' = NULL \<and> scheds w' ns = Some nsc' \<and> sched_p nsc' = sched_p sc \<and>
    ps w' (sched_p sc) = Some q' \<and> p_sched q' = ns \<and> ready q' = ready q \<and>
    sched_idle (glob w') = rest \<and> spawned w' = spawned w @ [ns]"
proof -
  have c: "core R (waiters (uts w)) w" using assms(1) by (simp add: inv_at_def)
  obtain u where u: "uts w ut = Some u" and cur: "cur_uthread sc = ut" and t0: "tsd w \<noteq> NULL" and ut0: "ut \<noteq> NULL"
    using assms(3,4) by (auto simp: current_is_def)
  let ?u = "u\<lparr>is_wating_yield_signal := 0\<rparr>" and ?q = "q\<lparr>p_sched := ns\<rparr>"
  have like: "like u ?u" by (simp add: like_def)
  let ?w = "w\<lparr>uts := (uts w)(ut \<mapsto> ?u), ps := (ps w)(sched_p sc \<mapsto> ?q),
    scheds := (scheds w)(ns \<mapsto> nsc\<lparr>sched_p := sched_p sc\<rparr>, tsd w \<mapsto> sc\<lparr>sched_p := NULL\<rparr>),
    glob := (glob w)\<lparr>sched_idle := rest\<rparr>, kern := k, spawned := spawned w @ [ns]\<rparr>"
  have run: "hand_over os w = Inr ((), ?w)"
    using assms(4-12) u cur t0 ut0 by (simp add: hand_over_def op_simps first_of_def)
  have c1: "core R (waiters (uts w)) (w\<lparr>uts := (uts w)(ut \<mapsto> ?u), ps := (ps w)(sched_p sc \<mapsto> ?q)\<rparr>)"
    using core_p_like [OF core_like [OF c u like], of "sched_p sc" q ?q] assms(6) by simp
  have "inv_at R ?w"
    using core_fields [OF c1, of ?w] like_upd(6) [where U = "uts w", OF u like] by (simp add: inv_at_def)
  moreover have "owner_unique ?w"
    using assms(2,4,5,10,11) unfolding owner_unique_def by (auto split: if_splits)
  ultimately show ?thesis using run assms(10) by (intro exI [of _ ?w]) auto
qed

theorem hand_over_moves_p_witness:
  "\<exists>w'. hand_over ex_os ex_world = Inr ((), w') \<and> inv_at {10} w' \<and> sched_idle (glob w') = [] \<and>
    (\<exists>nsc. scheds w' 7 = Some nsc \<and> sched_p nsc = 4)"
proof -
  have "owner_unique ex_world" by (auto simp: owner_unique_def ex_world_def ex_sched_def split: if_splits)
  moreover have "scheds ex_world 7 = Some (ex_sched\<lparr>sched_id := 1, sched_p := NULL, cur_uthread := NULL\<rparr>)"
    "sched_idle (glob ex_world) = [7]" "ready ex_proc \<noteq> []" "os_pthread_create ex_os (kern ex_world) = (0, kern ex_world)"
    by (simp_all add: ex_world_def ex_proc_def ex_os_def)
  ultimately show ?thesis
    using hand_over_moves_p [where R = "{10}" and w = ex_world and ut = 10 and sc = ex_sched and q = ex_proc and ns = 7
        and rest = "[]" and os = ex_os and k = "kern ex_world"] ex_inv ex_current ex_scheds ex_ps
    by (auto simp: ex_scheds)
qed

text \<open>
  C38: A disk operation that needs an idle scheduler when none is left dereferences a null pointer; so
  does the scheduler when a uthread that has given away the \<^verbatim>\<open>p\<close> yields afterwards.
\<close>

theorem hand_over_crashes:
  assumes "current_is ut w" "scheds w (tsd w) = Some sc"
  shows "(sched_p sc \<noteq> NULL \<and> ps w (sched_p sc) = Some q \<and> ready q \<noteq> [] \<and> sched_idle (glob w) = [] \<longrightarrow>
      hand_over os w = Inl NullDeref) \<and>
    (sched_p sc = NULL \<and> uts w ut = Some u \<and> \<not> bit (status u) UT_ST_EXITED \<and> \<not> bit (status u) UT_ST_SLEEPING \<longrightarrow>
      resume_leave os (tsd w) ut w = Inl NullDeref)"
proof -
  obtain v where u: "uts w ut = Some v" and cur: "cur_uthread sc = ut" and t0: "tsd w \<noteq> NULL" and ut0: "ut \<noteq> NULL"
    using assms by (auto simp: current_is_def)
  have null: "obind (s_get NULL) f w' = Inl NullDeref" "oseq (p_upd NULL g) f' w' = Inl NullDeref"
    for f w' and g :: "proc \<Rightarrow> proc" and f' :: "('k world, int) op"
    by (simp_all add: obind_def oseq_def s_get_def p_upd_def)
  show ?thesis
    using assms(2) u cur t0 ut0
    by (auto simp: hand_over_def resume_leave_def op_simps first_of_def null)
qed

theorem hand_over_crashes_witness:
  "hand_over ex_os (ex_world\<lparr>glob := zero_glob\<rparr>) = Inl NullDeref \<and>
    resume_leave ex_os 6 10 (ex_world\<lparr>scheds := [6 \<mapsto> ex_sched\<lparr>sched_p := NULL\<rparr>]\<rparr>) = Inl NullDeref"
proof -
  let ?w = "ex_world\<lparr>scheds := [6 \<mapsto> ex_sched\<lparr>sched_p := NULL\<rparr>]\<rparr>"
  have cur: "current_is 10 (ex_world\<lparr>glob := zero_glob\<rparr>)" "current_is 10 ?w"
    using ex_current ex_scheds(2) by (simp_all add: current_is_def ex_sched_def)
  have "hand_over ex_os (ex_world\<lparr>glob := zero_glob\<rparr>) = Inl NullDeref"
    using hand_over_crashes [OF cur(1), of ex_sched ex_proc ex_os] ex_scheds ex_ps by (simp add: zero_glob_def ex_proc_def)
  moreover have "resume_leave ex_os (tsd ?w) 10 ?w = Inl NullDeref"
    using hand_over_crashes [OF cur(2), of "ex_sched\<lparr>sched_p := NULL\<rparr>" ex_proc ex_os "ex_ut\<lparr>ut_id := 1\<rparr>"] ex_uts(1) ex_scheds(2) by simp
  ultimately show ?thesis using ex_scheds(2) by simp
qed

end
