(* ===== verification/Ut_Events.thy ===== *)
theory Ut_Events
  imports Ut_Poll
begin

text \<open>
  The properties of the two ways in which the scheduler ends a wait: \<^verbatim>\<open>handle_event\<close>, when the descriptor is
  ready, and \<^verbatim>\<open>_uthread_resume_expired\<close>, when the time is over.
\<close>

text \<open>
  C10: \<^verbatim>\<open>handle_event\<close> when a uthread of the scheduler's \<^verbatim>\<open>p\<close> waits for the descriptor and the event: the
  uthread is taken off both trees, the descriptor is no longer watched, the end of the descriptor is
  marked if there is one, and the uthread is resumed, in a state in which it is in the
  scheduler's hands and the invariant holds; no other uthread has changed.
\<close>

theorem handle_event_wakes:
  assumes "inv_at R w" "scheds w (tsd w) = Some sc" "tsd w \<noteq> NULL" "ps w (sched_p sc) = Some q"
    and "uts w ut = Some u" "ut_p u = sched_p sc" "ut \<in> waiters (uts w)" "fd_wait u = FD_KEY fd e"
    and "0 \<le> fd" "fd < 2 ^ 31" "e < 2 ^ 31"
    and "os_epoll_ctl os (poller_fd q) EPOLL_CTL_DEL fd (unwatch_mask (woken u)) (kern w) = (0, k)"
  shows "\<exists>w'. handle_event os prog fd e eof (w, m) = obind (uthread_resume os prog ut) (\<lambda>_. oret ()) (w', m) \<and>
    inv_at (insert ut R) w' \<and> uts w' = (uts w)(ut \<mapsto> eof_marked eof (unwatched (woken u))) \<and> kern w' = k"
proof -
  have "FD_ONLY (fd_wait u) = fd" using FD_KEY_roundtrip [of fd e] assms(8-11) by simp
  with handle_event_found [OF assms(1-8,12), of prog eof m] show ?thesis by auto
qed

theorem handle_event_wakes_witness:
  "\<exists>w'. handle_event ex_os (\<lambda>_ _. uthread_yield) 7 UT_EVENT_RD True (ex_world, Map.empty) =
      obind (uthread_resume ex_os (\<lambda>_ _. uthread_yield) 12) (\<lambda>_. oret ()) (w', Map.empty) \<and> inv_at {12, 10} w' \<and>
    (\<exists>v. uts w' 12 = Some v \<and> bit (status v) UT_ST_FDEOF \<and> \<not> bit (status v) UT_ST_SLEEPING)"
proof -
  have "\<exists>w'. handle_event ex_os (\<lambda>_ _. uthread_yield) 7 UT_EVENT_RD True (ex_world, Map.empty) =
      obind (uthread_resume ex_os (\<lambda>_ _. uthread_yield) 12) (\<lambda>_. oret ()) (w', Map.empty) \<and> inv_at {12, 10} w' \<and>
    uts w' = (uts ex_world)(12 \<mapsto> eof_marked True (unwatched (woken ex_waiter))) \<and> kern w' = kern ex_world"
    by (rule handle_event_wakes [where R = "{10}" and u = ex_waiter and q = ex_proc, OF ex_inv ex_scheds(1)])
      (simp_all add: ex_scheds ex_ps ex_uts ex_sets ex_ctl)
  then show ?thesis by (auto simp: eof_marked_def)
qed

text \<open>
  C11: \<^verbatim>\<open>_uthread_resume_expired\<close> when the first sleeper of the \<^verbatim>\<open>p\<close> waits for a descriptor and its time is over: the
  uthread is taken off both trees, the descriptor is no longer watched, the timeout is marked and the uthread
  is resumed, in a state in which it is in the scheduler's hands and the invariant holds; then
  the loop goes on.  When its time is not over the loop ends and nothing has changed but the
  clock.
\<close>

theorem expired_turn_wakes:
  assumes "inv_at R w" "scheds w (tsd w) = Some sc" "tsd w \<noteq> NULL" "ps w (sched_p sc) = Some q"
    and "uts w ut = Some u" "ut_p u = sched_p sc" "ut \<in> waiters (uts w)" "fd_wait u = FD_KEY fd e"
    and "0 \<le> fd" "fd < 2 ^ 31" "e < 2 ^ 31"
    and "\<forall>b \<in> of_p (uts w) (sched_p sc) \<inter> asleep (uts w). skey (uts w) ut \<le> skey (uts w) b"
    and "os_gettimeofday os (kern w) = ((sec, usec), k1)"
    and "os_epoll_ctl os (poller_fd q) EPOLL_CTL_DEL fd (unwatch_mask u) k1 = (0, k2)"
  shows "if wakeup_time_usec u \<le> sec * 1000000 + usec
    then \<exists>w' v. expired_turn os prog (tsd w) (w, m) = oseq (uthread_resume os prog ut) (oret True) (w', m) \<and>
      inv_at (insert ut R) w' \<and> uts w' = (uts w)(ut \<mapsto> v) \<and> bit (status v) UT_ST_EXPIRED \<and>
      \<not> bit (status v) UT_ST_SLEEPING \<and> fd_wait v = -1
    else expired_turn os prog (tsd w) (w, m) = Inr (False, w\<lparr>kern := k1\<rparr>, m)"
proof -
  have c: "core R (waiters (uts w)) w" using assms(1) by (simp add: inv_at_def)
  have "ut \<in> of_p (uts w) (sched_p sc) \<inter> asleep (uts w)"
    using assms(5-7) waiters_asleep by (auto simp: of_p_def)
  from first_sleeper [OF c assms(4) this assms(12)] have min: "RB_MIN (sleep_mem w, sleeping q) = Some ut" .
  note look = expired_turn_look [OF c assms(3,2,4) min assms(5,13), of prog m]
  show ?thesis
  proof (cases "wakeup_time_usec u \<le> sec * 1000000 + usec")
    case True
    let ?w = "w\<lparr>kern := k1\<rparr>" let ?v = "(woken (unwatched u))\<lparr>fd_wait := -1\<rparr>"
    have "inv_at R ?w" by (rule inv_fields [OF assms(1)]) simp_all
    then obtain w1 where w1: "uthread_cancel_event os ut ?w = Inr ((), w1)" "inv_at (insert ut R) w1"
      "uts w1 = (uts w)(ut \<mapsto> ?v)"
      using cancel_event_core [of R ?w ut u fd e sc q os k2] assms(2-11,14) by auto
    obtain w' where w': "oseq (uthread_desched_sleep ut) (ut_upd ut (\<lambda>u. u\<lparr>status := status u OR BIT UT_ST_EXPIRED\<rparr>)) w1 = Inr ((), w')"
      "inv_at (insert ut R) w'" "w' = w1\<lparr>uts := (uts w1)(ut \<mapsto> ?v\<lparr>status := status ?v OR BIT UT_ST_EXPIRED\<rparr>)\<rparr>"
      using mark_expired_core [OF w1(2), of ?v] w1(3) by auto
    obtain w2 where w2: "uthread_desched_sleep ut w1 = Inr ((), w2)"
      "ut_upd ut (\<lambda>u. u\<lparr>status := status u OR BIT UT_ST_EXPIRED\<rparr>) w2 = Inr ((), w')"
      using w'(1) by (auto simp: oseq_Inr_iff)
    have "expired_turn os prog (tsd w) (w, m) = oseq (uthread_resume os prog ut) (oret True) (w', m)"
      unfolding look using True w1(1) w2 by (simp add: op_simps)
    then show ?thesis using True w'(2,3) w1(3)
      by (intro if_P [THEN iffD2] exI [of _ w'] exI [of _ "?v\<lparr>status := status ?v OR BIT UT_ST_EXPIRED\<rparr>"]) simp_all
  next
    case False
    then show ?thesis unfolding look by simp
  qed
qed

theorem expired_turn_wakes_witness:
  "\<exists>w' v. expired_turn ex_os (\<lambda>_ _. uthread_yield) 6 (ex_world\<lparr>kern := (2000000, [])\<rparr>, Map.empty) =
      oseq (uthread_resume ex_os (\<lambda>_ _. uthread_yield) 12) (oret True) (w', Map.empty) \<and> inv_at {12, 10} w' \<and>
    uts w' 12 = Some v \<and> bit (status v) UT_ST_EXPIRED"
proof -
  let ?w = "ex_world\<lparr>kern := (2000000, [])\<rparr>"
  have inv: "inv_at {10} ?w" by (rule inv_fields [OF ex_inv]) simp_all
  have now: "os_gettimeofday ex_os (kern ?w) = ((0, 2000000), (2000001, []))" by (simp add: ex_os_def)
  have due: "wakeup_time_usec ex_waiter \<le> 0 * 1000000 + 2000000" by (simp add: word_le_def)
  have "if wakeup_time_usec ex_waiter \<le> 0 * 1000000 + 2000000
    then \<exists>w' v. expired_turn ex_os (\<lambda>_ _. uthread_yield) (tsd ?w) (?w, Map.empty) =
        oseq (uthread_resume ex_os (\<lambda>_ _. uthread_yield) 12) (oret True) (w', Map.empty) \<and> inv_at {12, 10} w' \<and>
      uts w' = (uts ?w)(12 \<mapsto> v) \<and> bit (status v) UT_ST_EXPIRED \<and> \<not> bit (status v) UT_ST_SLEEPING \<and> fd_wait v = -1
    else expired_turn ex_os (\<lambda>_ _. uthread_yield) (tsd ?w) (?w, Map.empty) = Inr (False, ?w\<lparr>kern := (2000001, [])\<rparr>, Map.empty)"
    by (rule expired_turn_wakes [where R = "{10}" and sc = ex_sched and q = ex_proc and fd = 7 and e = 0 and
          ?k2.0 = "(2000001, [])", OF inv _ _ _ _ _ _ _ _ _ _ _ now])
      (use ex_scheds(1) in \<open>simp_all add: ex_scheds(2,3) ex_ps ex_uts ex_sets ex_ctl\<close>)
  then show ?thesis unfolding if_P [OF due] by (force simp: ex_scheds)
qed

end
