(* ===== verification/Ut_Park.thy ===== *)
theory Ut_Park
  imports Ut_Join
begin

text \<open>
  The contract of the operations that block a uthread, and what \<^verbatim>\<open>_uthread_resume\<close> makes of a uthread that
  calls one.
\<close>

text \<open>
  A blocking operation \<open>op\<close>, called by the running uthread in a state with \<open>pre\<close>, switches to the scheduler
  with the uthread asleep, out of the scheduler's hands, and not exited if it was not.
\<close>

locale parking =
  fixes op :: "ptr \<Rightarrow> ('k world, 'a) co" and pre :: "ptr \<Rightarrow> 'k world \<Rightarrow> bool"
  assumes parks: "inv_at (insert ut R) w \<Longrightarrow> ut \<notin> R \<Longrightarrow> current_is ut w \<Longrightarrow> uts w ut = Some u \<Longrightarrow> pre ut w \<Longrightarrow>
    \<exists>w' rest u'. op ut w = Susp ut w' rest \<and> inv_at R w' \<and> uts w' ut = Some u' \<and> bit (status u') UT_ST_SLEEPING \<and>
      (bit (status u') UT_ST_EXITED \<longleftrightarrow> bit (status u) UT_ST_EXITED) \<and> scheds w' = scheds w"
begin

text \<open>A uthread that goes on with such an operation is left asleep by \<^verbatim>\<open>_uthread_resume\<close>.\<close>

lemma resume_parks:
  assumes inv: "inv_at (insert ut R) w" "ut \<notin> R" "uts w ut = Some u" "\<not> bit (status u) UT_ST_NEW" "\<not> bit (status u) UT_ST_EXITED"
    and s: "tsd w \<noteq> NULL" "scheds w (tsd w) = Some sc"
    and m: "os_malloc os (kern w) = (n, kn)" "add_timer 1 ut n (wheel w) = Inr wh"
    and k: "k ut = Some (cbind (op ut) f)"
    and pre: "pre ut (w\<lparr>uts := (uts w)(ut \<mapsto> started u), scheds := (scheds w)(tsd w \<mapsto> sc\<lparr>cur_uthread := ut\<rparr>), kern := kn, wheel := wh\<rparr>)"
  shows "\<exists>w' rest. uthread_resume os prog ut (w, k) = Inr (0, w', k(ut \<mapsto> rest)) \<and> inv_at R w' \<and> ut \<in> asleep (uts w')"
proof -
  let ?w1 = "w\<lparr>uts := (uts w)(ut \<mapsto> started u), scheds := (scheds w)(tsd w \<mapsto> sc\<lparr>cur_uthread := ut\<rparr>), kern := kn, wheel := wh\<rparr>"
  have c: "core (insert ut R) (waiters (uts w)) w" using inv(1) by (simp add: inv_at_def)
  have e: "resume_enter os prog (tsd w) ut (w, k) = Inr ((), ?w1, k)" "core (insert ut R) (waiters (uts w)) ?w1"
    using resume_enter_core [OF c _ inv(3) s m, of prog k] inv(4) by auto
  have "\<not> bit (status u) UT_ST_SLEEPING" using core_parts(6) [OF c] inv(3) by (auto simp: asleep_def)
  then have "inv_at (insert ut R) ?w1" using e(2) waiters_started [of u "uts w" ut] inv(3) by (simp add: inv_at_def)
  moreover have "current_is ut ?w1" using s coreD(1) [OF c inv(3)] by (auto simp: current_is_def)
  ultimately obtain w2 rest u2 where w2: "op ut ?w1 = Susp ut w2 rest" "inv_at R w2" "uts w2 ut = Some u2"
    "bit (status u2) UT_ST_SLEEPING" "bit (status u2) UT_ST_EXITED \<longleftrightarrow> bit (status (started u)) UT_ST_EXITED" "scheds w2 = scheds ?w1"
    using parks [of ut R ?w1 "started u"] inv(2) pre by auto
  have "cbind (op ut) f ?w1 = Susp ut w2 (cbind rest f)"
    unfolding cbind_def [of "op ut"] w2(1) by (simp add: cbind_def [abs_def])
  then have sw: "switch_to ut (?w1, k) = Inr ((), w2, k(ut \<mapsto> cbind rest f))" using k by (simp add: switch_to_def)
  have ne: "\<not> bit (status u2) UT_ST_EXITED" using w2(5) inv(4,5) by (simp add: started_def)
  have c2: "core R (waiters (uts w2)) w2" using w2(2) by (simp add: inv_at_def)
  obtain w' where w': "resume_leave os (tsd w) ut w2 = Inr (0, w')" "core R (waiters (uts w2)) w'" "uts w' = uts w2"
    using resume_leave_sleep [OF c2 w2(3,4) s(1) _ ne, of "sc\<lparr>cur_uthread := ut\<rparr>" os] w2(6) by auto
  have "uthread_resume os prog ut (w, k) = Inr (0, w', k(ut \<mapsto> cbind rest f))"
    using e(1) sw w'(1) by (simp add: uthread_resume_def op_simps)
  moreover have "inv_at R w'" "ut \<in> asleep (uts w')" using w'(2,3) w2(3,4) by (auto simp: inv_at_def asleep_def)
  ultimately show ?thesis by blast
qed

end

text \<open>When the blocking operations of the library block: the clock and epoll play along.\<close>

definition sleep_pre :: "'k os \<Rightarrow> 64 word \<Rightarrow> ptr \<Rightarrow> 'k world \<Rightarrow> bool" where
  "sleep_pre os ms ut w \<longleftrightarrow> (\<exists>u now k. uts w ut = Some u \<and> \<not> 0 \<le>s fd_wait u \<and> os_gettimeofday os (kern w) = (now, k) \<and>
     (\<forall>b \<in> of_p (uts w) (ut_p u) \<inter> asleep (uts w). skey (uts w) b \<noteq> wake_at now ms))"

definition wait_pre :: "'k os \<Rightarrow> int \<Rightarrow> nat \<Rightarrow> 64 word \<Rightarrow> ptr \<Rightarrow> 'k world \<Rightarrow> bool" where
  "wait_pre os fd e ms ut w \<longleftrightarrow> 0 \<le> fd \<and> fd < 2 ^ 31 \<and> e < 2 \<and>
     (\<exists>u sc q k1 now k2. uts w ut = Some u \<and> scheds w (tsd w) = Some sc \<and> ps w (sched_p sc) = Some q \<and> sched_p sc \<noteq> NULL \<and>
       os_epoll_ctl os (poller_fd q) EPOLL_CTL_ADD fd (event_mask e) (kern w) = (0, k1) \<and>
       (\<forall>b \<in> of_p (uts w) (ut_p u) \<inter> waiters (uts w). wkey (uts w) b \<noteq> sint (FD_KEY fd e)) \<and>
       os_gettimeofday os k1 = (now, k2) \<and>
       (\<forall>b \<in> of_p (uts w) (ut_p u) \<inter> asleep (uts w). skey (uts w) b \<noteq> wake_at now ms))"

definition join_pre :: "'k os \<Rightarrow> ptr \<Rightarrow> ptr \<Rightarrow> 'k world \<Rightarrow> bool" where
  "join_pre os target ut w \<longleftrightarrow> ut \<noteq> target \<and> sleep_pre os 10000 ut w \<and>
     (\<exists>v. uts w target = Some v \<and> \<not> bit (status v) UT_ST_DETACHED \<and> ut_joined v = NULL \<and> \<not> bit (status v) UT_ST_EXITED)"

interpretation sleep_op: parking "\<lambda>ut. uthread_sched_sleep os ut ms" "sleep_pre os ms" for os ms
proof unfold_locales
  fix ut R w u
  assume a: "inv_at (insert ut R) w" "ut \<notin> R" "current_is ut w" "uts w ut = Some u" "sleep_pre os ms ut w"
  then obtain now k where p: "\<not> 0 \<le>s fd_wait u" "os_gettimeofday os (kern w) = (now, k)"
    "\<forall>b \<in> of_p (uts w) (ut_p u) \<inter> asleep (uts w). skey (uts w) b \<noteq> wake_at now ms" by (auto simp: sleep_pre_def)
  have c: "core (insert ut R) (waiters (uts w)) w" using a(1) by (simp add: inv_at_def)
  obtain w' where w': "uthread_sched_sleep os ut ms w = Susp ut w' (lift (sleep_leave ut))" "core R (waiters (uts w)) w'"
    "uts w' = (uts w)(ut \<mapsto> slept (wake_at now ms) u)" "scheds w' = scheds w"
    using sched_sleep_core [OF c a(2-4) p(2,3)] by blast
  have "ut \<notin> waiters (uts w)" using a(4) p(1) by (simp add: waiters_def)
  then have "inv_at R w'"
    using w'(2,3) waiters_upd [where U = "uts w", OF a(4)] p(1) by (simp add: inv_at_def)
  with w' show "\<exists>w' rest u'. uthread_sched_sleep os ut ms w = Susp ut w' rest \<and> inv_at R w' \<and> uts w' ut = Some u' \<and>
      bit (status u') UT_ST_SLEEPING \<and> (bit (status u') UT_ST_EXITED \<longleftrightarrow> bit (status u) UT_ST_EXITED) \<and> scheds w' = scheds w"
    by auto
qed

interpretation wait_op: parking "\<lambda>ut. register_event os ut fd e ms" "wait_pre os fd e ms" for os fd e ms
proof unfold_locales
  fix ut R w u
  assume a: "inv_at (insert ut R) w" "ut \<notin> R" "current_is ut w" "uts w ut = Some u" "wait_pre os fd e ms ut w"
  then obtain sc q k1 now k2 where p: "scheds w (tsd w) = Some sc" "ps w (sched_p sc) = Some q" "sched_p sc \<noteq> NULL"
    "0 \<le> fd" "fd < 2 ^ 31" "e < 2" "os_epoll_ctl os (poller_fd q) EPOLL_CTL_ADD fd (event_mask e) (kern w) = (0, k1)"
    "\<forall>b \<in> of_p (uts w) (ut_p u) \<inter> waiters (uts w). wkey (uts w) b \<noteq> sint (FD_KEY fd e)" "os_gettimeofday os k1 = (now, k2)"
    "\<forall>b \<in> of_p (uts w) (ut_p u) \<inter> asleep (uts w). skey (uts w) b \<noteq> wake_at now ms" by (auto simp: wait_pre_def)
  from register_event_core [OF a(1-4) this]
  show "\<exists>w' rest u'. register_event os ut fd e ms w = Susp ut w' rest \<and> inv_at R w' \<and> uts w' ut = Some u' \<and>
      bit (status u') UT_ST_SLEEPING \<and> (bit (status u') UT_ST_EXITED \<longleftrightarrow> bit (status u) UT_ST_EXITED) \<and> scheds w' = scheds w"
    by (fastforce simp: wait_status_def)
qed

interpretation join_op: parking "\<lambda>_. uthread_join os target rv" "join_pre os target" for os target rv
proof unfold_locales
  fix ut R w u
  assume a: "inv_at (insert ut R) w" "ut \<notin> R" "current_is ut w" "uts w ut = Some u" "join_pre os target ut w"
  then obtain now k v where p: "\<not> 0 \<le>s fd_wait u" "target \<noteq> ut" "uts w target = Some v" "\<not> bit (status v) UT_ST_DETACHED"
    "ut_joined v = NULL" "\<not> bit (status v) UT_ST_EXITED" "os_gettimeofday os (kern w) = (now, k)"
    "\<forall>b \<in> of_p (uts w) (ut_p u) \<inter> asleep (uts w). skey (uts w) b \<noteq> wake_at now 10000"
    by (auto simp: join_pre_def sleep_pre_def)
  from join_core [OF a(1-4) p, of rv]
  show "\<exists>w' rest u'. uthread_join os target rv w = Susp ut w' rest \<and> inv_at R w' \<and> uts w' ut = Some u' \<and>
      bit (status u') UT_ST_SLEEPING \<and> (bit (status u') UT_ST_EXITED \<longleftrightarrow> bit (status u) UT_ST_EXITED) \<and> scheds w' = scheds w"
    by fastforce
qed

text \<open>
  C12: \<^verbatim>\<open>_uthread_resume\<close> on a uthread whose code goes on with \<^verbatim>\<open>_register_event\<close>, as in every socket operation that
  has to wait: the uthread is left asleep and in no ready queue, its context holds the rest of its
  code, and the invariant holds.
\<close>

theorem resume_parks_waiter:
  assumes "inv_at (insert ut R) w" "ut \<notin> R" "uts w ut = Some u" "\<not> bit (status u) UT_ST_NEW" "\<not> bit (status u) UT_ST_EXITED"
    and "tsd w \<noteq> NULL" "scheds w (tsd w) = Some sc" "os_malloc os (kern w) = (n, kn)" "add_timer 1 ut n (wheel w) = Inr wh"
    and "k ut = Some (cbind (register_event os ut fd e ms) f)"
    and "wait_pre os fd e ms ut (w\<lparr>uts := (uts w)(ut \<mapsto> started u), scheds := (scheds w)(tsd w \<mapsto> sc\<lparr>cur_uthread := ut\<rparr>),
      kern := kn, wheel := wh\<rparr>)"
  shows "\<exists>w' rest. uthread_resume os prog ut (w, k) = Inr (0, w', k(ut \<mapsto> rest)) \<and> inv_at R w' \<and> ut \<in> asleep (uts w') \<and>
    (\<forall>p q. ps w' p = Some q \<longrightarrow> ut \<notin> set (ready q))"
proof -
  obtain w' rest where w': "uthread_resume os prog ut (w, k) = Inr (0, w', k(ut \<mapsto> rest))" "inv_at R w'" "ut \<in> asleep (uts w')"
    using wait_op.resume_parks [where ut = ut and R = R and w = w and k = k and prog = prog, OF assms] by blast
  have "core R (waiters (uts w')) w'" using w'(2) by (simp add: inv_at_def)
  then have "ut \<notin> set (ready q)" if "ps w' p = Some q" for p q
    using core_take(4) that w'(3) by blast
  with w' show ?thesis by blast
qed

theorem resume_parks_waiter_witness:
  "\<exists>w' rest. uthread_resume ex_os (\<lambda>_ _. uthread_yield) 10
      (ex_world, [10 \<mapsto> cbind (register_event ex_os 10 7 UT_EVENT_WR 0) cret]) = Inr (0, w', [10 \<mapsto> rest]) \<and>
    inv_at {} w' \<and> 10 \<in> asleep (uts w')"
proof -
  let ?u = "ex_ut\<lparr>ut_id := Suc 0\<rparr>"
  let ?wh = "\<lparr>slot = (replicate TIME_WHEEL_SIZE NULL)[1 := 1100], current = 0,
    tnodes = [1100 \<mapsto> \<lparr>nxt = NULL, rotation = 0, tn_ut = 10\<rparr>]\<rparr>"
  let ?w = "ex_world\<lparr>uts := (uts ex_world)(10 \<mapsto> started ?u), scheds := (scheds ex_world)(tsd ex_world \<mapsto> ex_sched\<lparr>cur_uthread := 10\<rparr>),
    kern := (101, []), wheel := ?wh\<rparr>"
  have m: "os_malloc ex_os (kern ex_world) = (1100, (101, []))" by (simp add: ex_os_def ex_world_def)
  have t: "add_timer 1 10 1100 (wheel ex_world) = Inr ?wh"
    by (simp add: add_timer_def ex_world_def c_int_def TIME_WHEEL_SIZE_def Let_def smod_nonneg sdiv_nonneg)
  have key: "sint (FD_KEY 7 0) = 7 * 2 ^ 32" "sint (FD_KEY 7 (Suc 0)) = 7 * 2 ^ 32 + 1"
    using FD_KEY_int [of 7 0] FD_KEY_int [of 7 1] by simp_all
  have st: "started ?u = ex_ut\<lparr>ut_id := Suc 0, is_wating_yield_signal := 1\<rparr>" by (simp add: started_def)
  note u = ex_uts(1) [unfolded One_nat_def]
  have U: "asleep (uts ?w) = {12}" "waiters (uts ?w) = {12}" "of_p (uts ?w) 4 = {10, 11, 12}"
    using ex_sets like_upd [where U = "uts ex_world", OF u like_started] by simp_all
  have pre: "wait_pre ex_os 7 UT_EVENT_WR 0 10 ?w"
    unfolding wait_pre_def
    by (intro conjI exI [of _ "started ?u"] exI [of _ "ex_sched\<lparr>cur_uthread := 10\<rparr>"] exI [of _ ex_proc]
        exI [of _ "(101, [])"] exI [of _ "(0, 101)"] exI [of _ "(102, [])"])
      (use U in \<open>simp_all add: st ex_scheds ex_ps ex_ctl ex_later key wkey_def skey_def ex_uts wake_at_def\<close>)
  have "\<exists>w' rest. uthread_resume ex_os (\<lambda>_ _. uthread_yield) 10 (ex_world, [10 \<mapsto> cbind (register_event ex_os 10 7 UT_EVENT_WR 0) cret]) =
      Inr (0, w', [10 \<mapsto> cbind (register_event ex_os 10 7 UT_EVENT_WR 0) cret](10 \<mapsto> rest)) \<and>
    inv_at {} w' \<and> 10 \<in> asleep (uts w') \<and> (\<forall>p q. ps w' p = Some q \<longrightarrow> 10 \<notin> set (ready q))"
    by (rule resume_parks_waiter [OF _ _ u _ _ _ ex_scheds(1) m t _ pre]) (use ex_inv in \<open>simp_all add: ex_scheds\<close>)
  then show ?thesis by auto
qed

end
