(* ===== verification/Ut_Preempt.thy ===== *)
theory Ut_Preempt
  imports Ut_Example
begin

text \<open>
  Preemption: the scheduler arms a timer when it resumes a uthread, and the wheel signals the
  thread of a uthread that is still running when the timer fires.  The signal handler yields.
\<close>

text \<open>
  What \<^verbatim>\<open>tick\<close> reads through \<^verbatim>\<open>curr->ut\<close>: the flag of the uthread and, if it is 1, the thread of its \<^verbatim>\<open>p\<close>.
\<close>

definition view_of :: "'k world \<Rightarrow> ut_view" where
  "view_of w a = bnd (deref (uts w) a) (\<lambda>u.
     if is_wating_yield_signal u = 1 then bnd (deref (ps w) (ut_p u)) (\<lambda>q. Inr (1, tid q))
     else Inr (is_wating_yield_signal u, 0))"

lemma view_of_run:
  "a \<noteq> NULL \<Longrightarrow> uts w a = Some u \<Longrightarrow> ut_p u \<noteq> NULL \<Longrightarrow> ps w (ut_p u) = Some q \<Longrightarrow>
   view_of w a = Inr (is_wating_yield_signal u, if is_wating_yield_signal u = 1 then tid q else 0)"
  by (simp add: view_of_def)

text \<open>
  C13: A uthread that has been resumed and runs on without a switch for two ticks is signalled: the
  second tick sends the signal to the thread of its \<^verbatim>\<open>p\<close>, once, besides the signals of the timers that
  were pending before, and neither tick fails.
\<close>

theorem running_uthread_is_signalled:
  assumes "inv_at (insert ut R) w" "uts w ut = Some u" "ps w (ut_p u) = Some q"
    and "s \<noteq> NULL" "scheds w s = Some sc"
    and "os_malloc os (kern w) = (n, kn)" "n \<noteq> NULL" "tnodes (wheel w) n = None" "simulates (wheel w) B"
    and "\<forall>(j, a) \<in># B. a \<in> dom (uts w)" "\<forall>t. pthread_kill t = 0"
  shows "\<exists>w1 k1 wh sigs0 sigs1. resume_enter os prog s ut (w, k) = Inr ((), w1, k1) \<and>
    run_ticks (tick (view_of w1) pthread_kill) 2 (wheel w1) = Some (Inr (wh, [sigs0, sigs1])) \<and>
    mset sigs0 = signals_at (view_of w1) 0 B \<and> mset sigs1 = add_mset (tid q) (signals_at (view_of w1) 1 B)"
proof -
  have c: "core (insert ut R) (waiters (uts w)) w" using assms(1) by (simp add: inv_at_def)
  obtain wh0 where arm: "add_timer 1 ut n (wheel w) = Inr wh0" using add_timer_simulates [OF assms(9) _ _ assms(7,8), of 1 ut] by auto
  let ?w1 = "w\<lparr>uts := (uts w)(ut \<mapsto> started u), scheds := (scheds w)(s \<mapsto> sc\<lparr>cur_uthread := ut\<rparr>), kern := kn, wheel := wh0\<rparr>"
  obtain k1 where run: "resume_enter os prog s ut (w, k) = Inr ((), ?w1, k1)" "core (insert ut R) (waiters (uts w)) ?w1"
    using resume_enter_core [OF c _ assms(2,4,5,6) arm, of prog k] by auto
  have ok: "\<exists>x y. view_of ?w1 a = Inr (x, y)" if a: "a \<in> dom (uts w)" for a
  proof -
    obtain v where v: "uts ?w1 a = Some v" using a by (cases "a = ut") auto
    show ?thesis using coreD(1,2) [OF run(2) v] v view_of_run [of a ?w1 v] by fastforce
  qed
  have vok: "view_ok (view_of ?w1) pthread_kill a" if "a \<in> dom (uts w)" for a
    using ok [OF that] assms(11) by (auto simp: view_ok_def)
  have me: "due_signal (view_of ?w1) ut = [tid q]"
    using view_of_run [of ut ?w1 "started u" q] coreD(1,2) [OF c assms(2)] assms(3)
    by (auto simp: due_signal_def started_def)
  have "\<forall>(j, a) \<in># B. view_ok (view_of ?w1) pthread_kill a" using assms(10) vok by blast
  then obtain w2 sigss where t: "run_ticks (tick (view_of ?w1) pthread_kill) 2 wh0 = Some (Inr (w2, sigss))"
    "map mset sigss = map (\<lambda>j. signals_at (view_of ?w1) j B + (if j = nat 1 then mset (due_signal (view_of ?w1) ut) else {#})) [0..<2]"
    using wheel.armed_runs [OF assms(9), of n 1 "view_of ?w1" pthread_kill ut 2] assms(2,7,8) vok [of ut] arm by auto
  have "[0..<2] = [0, 1 :: nat]" by (simp add: upt_rec)
  then obtain s0 s1 where "sigss = [s0, s1]" "mset s0 = signals_at (view_of ?w1) 0 B"
    "mset s1 = add_mset (tid q) (signals_at (view_of ?w1) 1 B)"
    using t(2) me by (auto simp: map_eq_Cons_conv)
  with run(1) t(1) show ?thesis by (intro exI [of _ ?w1]) auto
qed

theorem running_uthread_is_signalled_witness:
  "\<exists>w1 k1 wh sigs0 sigs1. resume_enter ex_os (\<lambda>_ _. uthread_yield) 6 10 (ex_world, Map.empty) = Inr ((), w1, k1) \<and>
    run_ticks (tick (view_of w1) (\<lambda>_. 0)) 2 (wheel w1) = Some (Inr (wh, [sigs0, sigs1])) \<and> mset sigs1 = {#77#}"
proof -
  have sim: "simulates (wheel ex_world) {#}"
    using static_wheel_simulates by (simp add: ex_world_def create_timewheel_def static_wheel_def)
  have p: "tid ex_proc = 77" by (simp add: ex_proc_def)
  have "\<exists>w1 k1 wh sigs0 sigs1. resume_enter ex_os (\<lambda>_ _. uthread_yield) 6 10 (ex_world, Map.empty) = Inr ((), w1, k1) \<and>
    run_ticks (tick (view_of w1) (\<lambda>_. 0)) 2 (wheel w1) = Some (Inr (wh, [sigs0, sigs1])) \<and>
    mset sigs0 = signals_at (view_of w1) 0 {#} \<and> mset sigs1 = add_mset (tid ex_proc) (signals_at (view_of w1) 1 {#})"
    by (rule running_uthread_is_signalled [where R = "{}" and n = 1100 and kn = "(101, [])" and sc = ex_sched, OF _ ex_uts(1) _ _ _ _ _ _ sim])
      (use ex_inv ex_scheds in \<open>simp_all add: ex_ps\<close>, simp_all add: ex_os_def ex_world_def)
  then show ?thesis unfolding p by (auto simp: signals_at_def)
qed

text \<open>
  A timer outlives the uthread: when the first timer of the slot is due and its uthread has been
  freed, \<^verbatim>\<open>tick\<close> reads freed memory.
\<close>

theorem tick_reads_freed:
  assumes "current wh < length (slot wh)" "slot wh ! current wh = n" "n \<noteq> NULL" "tnodes wh n = Some t"
    and "rotation t \<le> 0" "tn_ut t \<noteq> NULL" "uts w (tn_ut t) = None"
  shows "tick (view_of w) pthread_kill wh = Some (Inl BadAccess)"
proof -
  have "view_of w (tn_ut t) = Inl BadAccess" using assms(6,7) by (simp add: view_of_def deref_def)
  then have "tick_turn (view_of w) pthread_kill (Slot (current wh), wh, []) = Inl BadAccess"
    using assms(1-5) by (simp add: tick_turn_def read_place_def)
  then show ?thesis by (simp add: tick_def tick_loop.simps [of _ _ "(Slot (current wh), wh, [])"])
qed

end
