(* ===== verification/Ut_IO.thy ===== *)
theory Ut_IO
  imports Ut_Poll
begin

text \<open>
  The properties of the socket operations and of the hooks.
\<close>

subsection \<open>Writing\<close>

text \<open>
  C17: \<^verbatim>\<open>uthread_write\<close>, on a descriptor that accepts between one and all of the bytes offered or fails,
  and whatever happens while it is suspended as long as nobody else writes to the descriptor: if it
  returns a non-negative result, the result is the length and the system has received exactly the
  bytes of the buffer, each once and in order; if it returns -1, a prefix of them.
\<close>

theorem uthread_write_sends:
  assumes "accepts os fd out" "quiet os out" "unat len < 2 ^ 63"
  shows "safe (undisturbed out)
    (\<lambda>r w'. \<exists>s \<le> unat len. out (kern w') = out (kern w) @ [buf..<buf + s] \<and> (r = -1 \<or> s = unat len \<and> r = int s))
    (uthread_write os n fd buf len w)"
  unfolding uthread_write_def
proof (rule safe_cbind, rule safe_lift)
  fix ut w1
  assume "current_ut w = Inr (ut, w1)"
  then have "w1 = w" by (auto simp: current_ut_def obind_Inr_iff sched_get_def oget_def s_get_def oret_def bnd_Inr_iff)
  then show "safe (undisturbed out)
    (\<lambda>r w'. \<exists>s \<le> unat len. out (kern w') = out (kern w) @ [buf..<buf + s] \<and> (r = -1 \<or> s = unat len \<and> r = int s))
    (send_loop os (write_call os fd buf) ut fd len 0 n w1)"
    using send_loop_safe [OF assms, of 0 w1 "out (kern w)" buf ut n] by simp
qed

lemma ex_accepts: "accepts ex_os fd snd" "quiet ex_os snd"
  by (auto simp: accepts_def quiet_def ex_os_def Let_def split: prod.splits)

theorem uthread_write_sends_witness:
  "safe (undisturbed snd)
    (\<lambda>r w'. \<exists>s \<le> 10. snd (kern w') = [20..<20 + s] \<and> (r = -1 \<or> s = 10 \<and> r = 10))
    (uthread_write ex_os 5 3 20 10 ex_world)"
proof -
  have "snd (kern ex_world) = []" "unat (10 :: 64 word) = 10" by (simp_all add: ex_world_def)
  then show ?thesis by (intro safe_mono [OF uthread_write_sends [OF ex_accepts, of 10]]) auto
qed

text \<open>
  C18: \<^verbatim>\<open>uthread_write\<close> on a descriptor that never blocks or fails ends after at most as many turns as
  there are bytes, returns the length and has sent the whole buffer.
\<close>

theorem uthread_write_returns:
  assumes "accepts os fd out" "never_fails os fd" "unat len < 2 ^ 63" "current_is ut w" "uts w ut = Some u"
    and "\<not> bit (status u) UT_ST_FDEOF" "unat len < n"
  shows "\<exists>w'. uthread_write os n fd buf len w = Ret (int (unat len)) w' \<and>
    out (kern w') = out (kern w) @ [buf..<buf + unat len]"
  using send_loop_total [OF assms(1-3) current_isD(3) [OF assms(4)], of 0 w "out (kern w)" buf u n] assms(5-7)
  by (simp add: uthread_write_def lift_current [OF assms(4)])

theorem uthread_write_returns_witness:
  "\<exists>w'. uthread_write ex_os 11 3 20 10 ex_world = Ret 10 w' \<and> snd (kern w') = [20..<30]"
proof -
  have "never_fails ex_os 3" by (auto simp: never_fails_def ex_os_def Let_def split: prod.split)
  then show ?thesis
    using uthread_write_returns [OF ex_accepts(1) _ _ ex_current ex_uts(1), of 3 10 11 20] by (auto simp: ex_world_def)
qed

subsection \<open>Vectors\<close>

definition iov_bytes :: "(nat \<times> nat) list \<Rightarrow> nat list" where
  "iov_bytes iov = concat (map (\<lambda>(b, l). [b..<b + l]) iov)"

lemma iov_bytes_simps [simp]:
  "iov_bytes [] = []" "iov_bytes ((b, l) # iov) = [b..<b + l] @ iov_bytes iov" "iov_bytes (xs @ ys) = iov_bytes xs @ iov_bytes ys"
  by (simp_all add: iov_bytes_def)

text \<open>
  The accounting of \<^verbatim>\<open>uthread_writev\<close>: when \<open>n\<close> bytes of the vector have been sent, the elements from the
  new \<^verbatim>\<open>iov_index\<close> on hold exactly the other bytes, in order.
\<close>

theorem iov_advance_accounts:
  assumes "iov_advance iov n = (iov', k)" "n \<le> length (iov_bytes iov)"
  shows "k \<le> length iov \<and> length iov' = length iov \<and> iov_bytes (drop k iov') = drop n (iov_bytes iov)"
  using assms
proof (induction iov n arbitrary: iov' k rule: iov_advance.induct)
  case (2 base len iov n)
  show ?case
  proof (cases "n = 0 \<or> n < len")
    case True
    with 2(2) show ?thesis by (auto split: if_splits)
  next
    case False
    obtain iov1 k1 where r: "iov_advance iov (n - len) = (iov1, k1)" by fastforce
    with False 2(2) have "iov' = (base, len) # iov1" "k = Suc k1" by auto
    moreover have "n - len \<le> length (iov_bytes iov)" using 2(3) by simp
    ultimately show ?thesis using 2(1) [OF _ _ r] False by simp
  qed
qed simp

theorem iov_advance_accounts_witness:
  "iov_bytes (drop 1 [(10, 3), (21, 4 :: nat)]) = drop 4 (iov_bytes [(10, 3), (20, 5)])"
  using iov_advance_accounts [of "[(10, 3), (20, 5)]" 4 "[(10, 3), (21, 4)]" 1] by simp

subsection \<open>Reading\<close>

text \<open>
  \<^verbatim>\<open>uthread_read\<close> when it need not wait: it returns -1 at once, without a system call, on a uthread that
  has seen the end of a descriptor; otherwise it returns what the system call returns, data or
  error.
\<close>

theorem uthread_read_at_once:
  assumes "current_is ut w" "uts w ut = Some u"
    and "os_call os (SysFcntl fd) (kern w) = ((r0, e0), k0)" "r0 \<noteq> -1"
    and "os_call os (SysRead fd buf len) k0 = ((r, e), k)" "-1 \<le> r" "r < 2 ^ 31" "r = -1 \<longrightarrow> e \<noteq> EAGAIN"
  shows "\<exists>w'. uthread_read os (Suc n) fd buf len w = Ret (if bit (status u) UT_ST_FDEOF then -1 else r) w' \<and>
    uts w' = uts w \<and> kern w' = (if bit (status u) UT_ST_FDEOF then kern w else k)"
proof -
  have u: "ut_get ut w = Inr (u, w)" using assms(2) current_isD(3) [OF assms(1)] by (simp add: ut_get_def)
  let ?wf = "w\<lparr>kern := k0\<rparr>" and ?w = "w\<lparr>kern := k, errno := (if r = -1 then e else errno w)\<rparr>"
  have f: "libc os (SysFcntl fd) w = Inr (r0, ?wf)" using libc_run [OF assms(3)] assms(4) by simp
  have rd: "libc os (SysRead fd buf len) ?wf = Inr (r, ?w)"
    using libc_run [of os "SysRead fd buf len" ?wf r e k] assms(5) by simp
  have ok: "oassert (r0 \<noteq> -1) ?wf = Inr ((), ?wf)" using assms(4) by (simp add: oassert_def)
  have int: "as_int r = r" using assms(6,7) by (intro as_int_id) auto
  have "r = -1 \<and> e \<noteq> EAGAIN \<or> 0 \<le> r" using assms(6,8) by linarith
  then have "\<not> bit (status u) UT_ST_FDEOF \<Longrightarrow> uthread_read os (Suc n) fd buf len w = Ret r ?w"
    by (auto simp: uthread_read_def lift_current [OF assms(1)] lift_run(1) [of "ut_get ut", OF u] int get_co cret_run
        lift_run(1) [of "libc os (SysFcntl fd)", OF f] lift_run(2) [of "oassert (r0 \<noteq> -1)", OF ok] cbind_assoc
        lift_run(1) [of "libc os (SysRead fd buf len)", OF rd])
  moreover have "bit (status u) UT_ST_FDEOF \<Longrightarrow> uthread_read os (Suc n) fd buf len w = Ret (-1) w"
    by (simp add: uthread_read_def lift_current [OF assms(1)] lift_run(1) [of "ut_get ut", OF u] cret_run)
  ultimately show ?thesis by (cases "bit (status u) UT_ST_FDEOF") auto
qed

theorem uthread_read_at_once_witness:
  "\<exists>w'. uthread_read (ex_os\<lparr>os_call := \<lambda>c k. ((5, 0), k)\<rparr>) (Suc 0) 3 0 8 ex_world = Ret 5 w' \<and> uts w' = uts ex_world"
  using uthread_read_at_once [OF ex_current ex_uts(1), of "ex_os\<lparr>os_call := \<lambda>c k. ((5, 0), k)\<rparr>" 3 5 0 _ 0 8 5 0 _ 0]
  by fastforce

text \<open>The mark of a timeout, and the operations that leave it alone.\<close>

definition timed_out :: "ptr \<Rightarrow> 'k world \<Rightarrow> bool" where
  "timed_out ut w \<longleftrightarrow> (\<exists>u. uts w ut = Some u \<and> bit (status u) UT_ST_EXPIRED)"

text \<open>What happens between a switch and the next run of the uthread does not take a mark away that is set.\<close>

definition mark_kept :: "ptr \<Rightarrow> 'k world \<Rightarrow> 'k world \<Rightarrow> bool" where
  "mark_kept ut w w' \<longleftrightarrow> (timed_out ut w \<longrightarrow> timed_out ut w')"

lemma timed_out_upd:
  assumes "\<And>u. bit (status (f u)) UT_ST_EXPIRED = bit (status u) UT_ST_EXPIRED"
  shows "keeps (timed_out ut) (ut_upd a f)"
  using assms by (auto simp: keeps_def ut_upd_def timed_out_def bnd_Inr_iff)

lemma timed_out_structures:
  "keeps (timed_out ut) (ut_get a)" "keeps (timed_out ut) (p_get a)" "keeps (timed_out ut) (p_upd a g)"
  "keeps (timed_out ut) (s_get a)" "keeps (timed_out ut) sched_get" "keeps (timed_out ut) (sys c)"
  "(\<And>w. uts (h w) = uts w) \<Longrightarrow> keeps (timed_out ut) (oupd h)"
  by (auto simp: keeps_def timed_out_def ut_get_def p_get_def p_upd_def s_get_def sched_get_def oget_def sys_def
      oret_def oupd_def bnd_Inr_iff split: prod.splits)

lemmas timed_out_flow = keeps_flow timed_out_structures timed_out_upd

lemma timed_out_enter:
  "keeps (timed_out ut) (wait_enter os a fd e)" "keeps (timed_out ut) (sleep_enter os a ms)"
  unfolding wait_enter_def sleep_enter_def get_usec_now_def Let_def
  by (intro timed_out_flow; simp add: wait_status_def)+

lemma timed_out_wake:
  "keeps (timed_out ut) (uthread_desched_event fd e)" "keeps (timed_out ut) (unwatch os a fd)"
  unfolding uthread_desched_event_def uthread_desched_sleep_def unwatch_def Let_def
  by (intro timed_out_flow; simp)+

lemma timed_out_yield:
  assumes "timed_out ut w" "\<And>w'. timed_out ut w' \<Longrightarrow> Q () w'"
  shows "safe (mark_kept ut) Q (uthread_yield w)"
  unfolding uthread_yield_def
  by (rule safe_cbind, rule safe_lift_keeps [where P = "timed_out ut"], intro timed_out_flow; simp?)
    (use assms in \<open>auto intro!: safe_switch simp: mark_kept_def\<close>)

lemma register_event_timed_out:
  assumes w: "timed_out ut w" and Q: "\<And>w'. timed_out ut w' \<Longrightarrow> Q () w'"
  shows "safe (mark_kept ut) Q (register_event os ut fd e ms w)"
  unfolding register_event_def uthread_sched_sleep_def
  apply (rule safe_cseq, rule safe_lift_keeps [OF timed_out_enter(1) w])
  apply (rule safe_cseq, rule safe_cseq, erule safe_lift_keeps [OF timed_out_enter(2)])
  apply (rule safe_cseq, erule timed_out_yield, rule safe_lift_keeps [OF timed_out_upd], simp, assumption)
  apply (rule safe_lift_keeps [where P = "timed_out ut"], intro timed_out_flow)
  using Q by (auto simp: wait_status_def)

text \<open>
  C39: After one wait of a uthread has timed out, the mark \<^verbatim>\<open>UT_ST_EXPIRED\<close> stays set: \<^verbatim>\<open>uthread_read\<close> does not
  clear it before it waits, so that a read that has to wait reports a timeout: if it returns at
  all it returns -2, even when data has arrived and nothing has timed out, whatever happens
  during the wait as long as nothing takes the mark away.  The operations by which the scheduler wakes a uthread
  whose descriptor is ready do not.
\<close>

theorem read_reports_old_timeout:
  assumes "current_is ut w" "uts w ut = Some u" "\<not> bit (status u) UT_ST_FDEOF" "bit (status u) UT_ST_EXPIRED"
    and "os_call os (SysFcntl fd) (kern w) = ((r0, e0), k0)" "r0 \<noteq> -1"
    and "os_call os (SysRead fd buf len) k0 = ((-1, EAGAIN), k)"
  shows "safe (mark_kept ut) (\<lambda>r _. r = -2) (uthread_read os (Suc n) fd buf len w) \<and>
    keeps (timed_out ut) (uthread_desched_event fd UT_EVENT_RD) \<and> keeps (timed_out ut) (unwatch os ut fd)"
proof -
  have u: "ut_get ut w = Inr (u, w)" using assms(2) current_isD(3) [OF assms(1)] by (simp add: ut_get_def)
  let ?wf = "w\<lparr>kern := k0\<rparr>" and ?w = "w\<lparr>kern := k, errno := EAGAIN\<rparr>"
  have f: "libc os (SysFcntl fd) w = Inr (r0, ?wf)" using libc_run [OF assms(5)] assms(6) by simp
  have rd: "libc os (SysRead fd buf len) ?wf = Inr (-1, ?w)"
    using libc_run [of os "SysRead fd buf len" ?wf "-1" EAGAIN k] assms(7) by simp
  have ok: "oassert (r0 \<noteq> -1) ?wf = Inr ((), ?wf)" using assms(6) by (simp add: oassert_def)
  have nf: "\<not> has (status u) UT_ST_FDEOF" using assms(3) by simp
  let ?loop = "recv_loop os (cbind (lift (libc os (SysRead fd buf len))) (\<lambda>r. cret (as_int r))) 1000 ut fd n"
  have "uthread_read os (Suc n) fd buf len w =
    cseq (register_event os ut fd UT_EVENT_RD 1000)
      (cbind (lift (ut_get ut)) (\<lambda>u. if has (status u) UT_ST_EXPIRED then cret (-2) else ?loop)) ?w"
    using nf
    by (simp add: uthread_read_def lift_current [OF assms(1)] lift_run(1) [of "ut_get ut", OF u] as_int_id get_co cret_run
        lift_run(1) [of "libc os (SysFcntl fd)", OF f] lift_run(2) [of "oassert (r0 \<noteq> -1)", OF ok] cbind_assoc
        lift_run(1) [of "libc os (SysRead fd buf len)", OF rd] del: has_iff)
  also have "safe (mark_kept ut) (\<lambda>r _. r = -2) \<dots>"
  proof (rule safe_cseq, rule register_event_timed_out)
    show "timed_out ut ?w" using assms(2,4) by (simp add: timed_out_def)
  qed (rule safe_cbind, rule safe_lift, auto simp: timed_out_def ut_get_def bnd_Inr_iff intro!: safe_cret)
  finally show ?thesis using timed_out_wake by blast
qed

definition late_world :: "ex_kern world" where
  "late_world = ex_world\<lparr>uts := (uts ex_world)(10 \<mapsto> ex_ut\<lparr>status := BIT UT_ST_READY OR BIT UT_ST_EXPIRED\<rparr>)\<rparr>"

theorem read_reports_old_timeout_witness:
  "safe (mark_kept 10) (\<lambda>r _. r = -2) (uthread_read ex_os (Suc 5) 3 0 8 late_world)"
proof -
  let ?u = "ex_ut\<lparr>status := BIT UT_ST_READY OR BIT UT_ST_EXPIRED\<rparr>"
  have w: "current_is 10 late_world" "uts late_world 10 = Some ?u" "kern late_world = (100, [])"
    using ex_current by (auto simp: late_world_def current_is_def ex_world_def)
  have os: "os_call ex_os (SysFcntl 3) (kern late_world) = ((0, 0), (100, []))" "os_call ex_os (SysRead 3 0 8) (100, []) = ((-1, EAGAIN), (100, []))"
    by (simp_all add: ex_os_def w(3))
  show ?thesis by (rule conjunct1 [OF read_reports_old_timeout [OF w(1,2) _ _ os(1) _ os(2)]]) simp_all
qed

subsection \<open>Hooks\<close>

text \<open>The calls whose implementation calls the function by its hooked name, on the descriptor \<open>fd\<close>.\<close>

definition by_name :: "int \<Rightarrow> sys_call \<Rightarrow> bool" where
  "by_name fd c = (case c of
      SysRecv fd' buf len flags \<Rightarrow> fd' = fd
    | SysRecvmsg fd' flags \<Rightarrow> fd' = fd
    | SysRecvfrom fd' len flags \<Rightarrow> fd' = fd
    | SysSend fd' buf len flags \<Rightarrow> fd' = fd \<and> 0 < len \<and> len < 2 ^ 64
    | SysSendmsg fd' flags \<Rightarrow> fd' = fd
    | SysSendto fd' len flags \<Rightarrow> fd' = fd
    | SysWritev fd' iov \<Rightarrow> fd' = fd
    | _ \<Rightarrow> False)"

lemma fail_bind: "m w = Fail e \<Longrightarrow> cbind m f w = Fail e"
  by (simp add: cbind_def)

text \<open>The four loops, when the call they make fails in every state they can make it in.\<close>

lemma loops_fail:
  assumes u: "ut_get ut w = Inr (u, w)" "\<not> bit (status u) UT_ST_FDEOF"
    and f: "os_call os (SysFcntl fd) (kern w) = ((r, e), k)" "r \<noteq> -1"
  shows "rd (w\<lparr>kern := k\<rparr>) = Fail x \<Longrightarrow> recv_loop os rd timeout ut fd (Suc n) w = Fail x"
    "wr w = Fail x \<Longrightarrow> sendmsg_loop os wr ut fd (Suc n) w = Fail x"
    "len \<noteq> 0 \<Longrightarrow> sd 0 (unat len) w = Fail x \<Longrightarrow> send_loop os sd ut fd len 0 (Suc n) w = Fail x"
    "call (SysWritev fd iov) w = Fail x \<Longrightarrow> writev_loop os call ut fd iov t (Suc n) w = Fail x"
proof -
  let ?wf = "w\<lparr>kern := k\<rparr>"
  have fc: "libc os (SysFcntl fd) w = Inr (r, ?wf)" using libc_run [OF f(1)] f(2) by simp
  have ok: "oassert (r \<noteq> -1) ?wf = Inr ((), ?wf)" using f(2) by (simp add: oassert_def)
  show "rd ?wf = Fail x \<Longrightarrow> recv_loop os rd timeout ut fd (Suc n) w = Fail x"
    using u(2) by (simp add: lift_run(1) [of "ut_get ut", OF u(1)] lift_run(1) [of "libc os (SysFcntl fd)", OF fc]
        lift_run(2) [of "oassert (r \<noteq> -1)", OF ok] fail_bind)
  show "wr w = Fail x \<Longrightarrow> sendmsg_loop os wr ut fd (Suc n) w = Fail x"
    "len \<noteq> 0 \<Longrightarrow> sd 0 (unat len) w = Fail x \<Longrightarrow> send_loop os sd ut fd len 0 (Suc n) w = Fail x"
    "call (SysWritev fd iov) w = Fail x \<Longrightarrow> writev_loop os call ut fd iov t (Suc n) w = Fail x"
    using u(2) by (simp_all add: lift_run(1) [of "ut_get ut", OF u(1)] fail_bind)
qed

text \<open>
  C16: In a program linked with the hooks, \<^verbatim>\<open>recv\<close>, \<^verbatim>\<open>recvmsg\<close>, \<^verbatim>\<open>recvfrom\<close>, \<^verbatim>\<open>send\<close>, \<^verbatim>\<open>sendmsg\<close>, \<^verbatim>\<open>sendto\<close> and \<^verbatim>\<open>writev\<close>
  never reach the system: the hook calls the uthread operation, which calls the hook again, until
  the stack is used up, however large it is.
\<close>

theorem hooks_overflow:
  assumes "current_is ut w" "uts w ut = Some u" "\<not> bit (status u) UT_ST_FDEOF"
    and "\<forall>k. fst (fst (os_call os (SysFcntl fd) k)) \<noteq> -1" "by_name fd c"
  shows "hook os (Suc n) d c w = Fail StackOverflow"
  using assms
proof (induction d arbitrary: c w)
  case 0
  then show ?case by (simp add: cfail_def)
next
  case (Suc d)
  have u: "ut_get ut w = Inr (u, w)" using Suc.prems(2) current_isD(3) [OF Suc.prems(1)] by (simp add: ut_get_def)
  obtain r e k where f: "os_call os (SysFcntl fd) (kern w) = ((r, e), k)" by (metis surj_pair)
  have r: "r \<noteq> -1" using Suc.prems(4) f by (metis fst_conv)
  have here: "hook os (Suc n) d c w = Fail StackOverflow" if "by_name fd c" for c
    by (rule Suc.IH) (use Suc.prems that in simp_all)
  have later: "hook os (Suc n) d c (w\<lparr>kern := k\<rparr>) = Fail StackOverflow" if "by_name fd c" for c
    by (rule Suc.IH) (use Suc.prems that in \<open>simp_all add: current_is_def\<close>)
  note loops = loops_fail [OF u Suc.prems(3) f r]
  note ops = uthread_recv_def uthread_recvmsg_def uthread_recvfrom_def uthread_send_def uthread_sendmsg_def
    uthread_sendto_def uthread_writev_def lift_current [OF Suc.prems(1)]
  show ?case
  proof (cases c)
    case (SysSend fd' buf len flags)
    have "(of_nat len :: 64 word) \<noteq> 0" "unat (of_nat len :: 64 word) = len"
      using Suc.prems(5) SysSend by (auto simp: by_name_def unat_of_nat word_of_nat_eq_0_iff dvd_imp_le nat_dvd_not_less)
    with Suc.prems(5) SysSend show ?thesis
      by (simp add: ops by_name_def del: send_loop.simps) (intro loops(3) here; simp add: by_name_def)
  qed (use Suc.prems(5) in \<open>simp_all add: ops by_name_def loops here later
      del: recv_loop.simps sendmsg_loop.simps writev_loop.simps\<close>)
qed

theorem hooks_overflow_witness:
  "hook ex_os (Suc 7) 1000 (SysRecv 3 0 8 0) ex_world = Fail StackOverflow"
  by (rule hooks_overflow [OF ex_current ex_uts(1), where fd = 3])
    (simp_all add: by_name_def ex_os_def split: prod.split)

end
