(* ===== verification/Ut_Splay_Mem.thy ===== *)
theory Ut_Splay_Mem
  imports Ut_Index
begin

text \<open>
  The intrusive splay tree of \<^verbatim>\<open>tree.h\<close> (the macros \<^verbatim>\<open>SPLAY_PROTOTYPE\<close> and \<^verbatim>\<open>SPLAY_GENERATE\<close> and what they
  expand to), at the level of its pointers.  As for the red-black tree, one \<^verbatim>\<open>SPLAY_ENTRY\<close> field of the
  structures is a map from addresses to entries, a tree is the map with the root pointer of its
  head, the comparison function is an argument, and \<open>None\<close> stands for an access through a null or
  dangling pointer and for a loop that does not end.

  The functions that splay have a local structure \<^verbatim>\<open>__node\<close>, whose address they take.  Its address is
  the argument \<open>node\<close>; the entry exists from the start to the end of the call.
\<close>

subsection \<open>Entries, heads, field access\<close>

record sp_entry =
  spe_left :: ptr
  spe_right :: ptr

type_synonym sp_mem = "ptr \<rightharpoonup> sp_entry"

text \<open>A tree: the entries, and the \<^verbatim>\<open>sph_root\<close> of the head.\<close>

type_synonym sp_head = "sp_mem \<times> ptr"

type_synonym sp_cmp = "ptr \<Rightarrow> ptr \<Rightarrow> int option"

definition sp_entry_at :: "sp_mem \<Rightarrow> ptr \<Rightarrow> sp_entry option" where
  "sp_entry_at m a = (if a = NULL then None else m a)"

definition SPLAY_LEFT :: "sp_mem \<Rightarrow> ptr \<Rightarrow> ptr option" where
  "SPLAY_LEFT m a = map_option spe_left (sp_entry_at m a)"

definition SPLAY_RIGHT :: "sp_mem \<Rightarrow> ptr \<Rightarrow> ptr option" where
  "SPLAY_RIGHT m a = map_option spe_right (sp_entry_at m a)"

definition sp_set_left :: "ptr \<Rightarrow> ptr \<Rightarrow> sp_mem \<Rightarrow> sp_mem option" where
  "sp_set_left a v m = map_option (\<lambda>e. m(a \<mapsto> e\<lparr>spe_left := v\<rparr>)) (sp_entry_at m a)"

definition sp_set_right :: "ptr \<Rightarrow> ptr \<Rightarrow> sp_mem \<Rightarrow> sp_mem option" where
  "sp_set_right a v m = map_option (\<lambda>e. m(a \<mapsto> e\<lparr>spe_right := v\<rparr>)) (sp_entry_at m a)"

definition SPLAY_INIT :: ptr where
  "SPLAY_INIT = NULL"

definition SPLAY_EMPTY :: "ptr \<Rightarrow> bool" where
  "SPLAY_EMPTY root = (root = NULL)"

subsection \<open>Rotating, linking, assembling\<close>

definition SPLAY_ROTATE_RIGHT :: "ptr \<Rightarrow> sp_head \<Rightarrow> sp_head option" where
  "SPLAY_ROTATE_RIGHT tmp h = (case h of (m, root) \<Rightarrow> do {
     tr \<leftarrow> SPLAY_RIGHT m tmp;
     m \<leftarrow> sp_set_left root tr m;
     m \<leftarrow> sp_set_right tmp root m;
     Some (m, tmp) })"

definition SPLAY_ROTATE_LEFT :: "ptr \<Rightarrow> sp_head \<Rightarrow> sp_head option" where
  "SPLAY_ROTATE_LEFT tmp h = (case h of (m, root) \<Rightarrow> do {
     tl \<leftarrow> SPLAY_LEFT m tmp;
     m \<leftarrow> sp_set_right root tl m;
     m \<leftarrow> sp_set_left tmp root m;
     Some (m, tmp) })"

text \<open>The new value of the pointer \<open>tmp\<close> is the first component.\<close>

definition SPLAY_LINKLEFT :: "ptr \<Rightarrow> sp_head \<Rightarrow> (ptr \<times> sp_head) option" where
  "SPLAY_LINKLEFT tmp h = (case h of (m, root) \<Rightarrow> do {
     m \<leftarrow> sp_set_left tmp root m;
     l \<leftarrow> SPLAY_LEFT m root;
     Some (root, m, l) })"

definition SPLAY_LINKRIGHT :: "ptr \<Rightarrow> sp_head \<Rightarrow> (ptr \<times> sp_head) option" where
  "SPLAY_LINKRIGHT tmp h = (case h of (m, root) \<Rightarrow> do {
     m \<leftarrow> sp_set_right tmp root m;
     r \<leftarrow> SPLAY_RIGHT m root;
     Some (root, m, r) })"

definition SPLAY_ASSEMBLE :: "ptr \<Rightarrow> ptr \<times> ptr \<Rightarrow> sp_head \<Rightarrow> sp_head option" where
  "SPLAY_ASSEMBLE node lr h = (case (lr, h) of ((lft, rgt), m, root) \<Rightarrow> do {
     hl \<leftarrow> SPLAY_LEFT m root;
     m \<leftarrow> sp_set_right lft hl m;
     hr \<leftarrow> SPLAY_RIGHT m root;
     m \<leftarrow> sp_set_left rgt hr m;
     nr \<leftarrow> SPLAY_RIGHT m node;
     m \<leftarrow> sp_set_left root nr m;
     nl \<leftarrow> SPLAY_LEFT m node;
     m \<leftarrow> sp_set_right root nl m;
     Some (m, root) })"

subsection \<open>Splaying\<close>

text \<open>
  The two branches of the loops.  \<open>further\<close> is the inner test; the pair holds \<^verbatim>\<open>__left\<close> and \<^verbatim>\<open>__right\<close>;
  \<open>Inr\<close> is a \<^verbatim>\<open>break\<close>, \<open>Inl\<close> the state of the next turn.
\<close>

definition splay_go_left ::
  "(ptr \<Rightarrow> bool option) \<Rightarrow> ptr \<times> ptr \<Rightarrow> sp_head \<Rightarrow> ((ptr \<times> ptr) \<times> sp_head + (ptr \<times> ptr) \<times> sp_head) option" where
  "splay_go_left further lr h = (case (lr, h) of ((lft, rgt), m, root) \<Rightarrow> do {
     tmp \<leftarrow> SPLAY_LEFT m root;
     if tmp = NULL then Some (Inr (lr, h))
     else do {
       b \<leftarrow> further tmp;
       (stop, m, root) \<leftarrow>
         (if b then do {
            (m, root) \<leftarrow> SPLAY_ROTATE_RIGHT tmp (m, root);
            l \<leftarrow> SPLAY_LEFT m root;
            Some (l = NULL, m, root) }
          else Some (False, m, root));
       if stop then Some (Inr (lr, m, root))
       else do {
         (rgt, h) \<leftarrow> SPLAY_LINKLEFT rgt (m, root);
         Some (Inl ((lft, rgt), h)) } } })"

definition splay_go_right ::
  "(ptr \<Rightarrow> bool option) \<Rightarrow> ptr \<times> ptr \<Rightarrow> sp_head \<Rightarrow> ((ptr \<times> ptr) \<times> sp_head + (ptr \<times> ptr) \<times> sp_head) option" where
  "splay_go_right further lr h = (case (lr, h) of ((lft, rgt), m, root) \<Rightarrow> do {
     tmp \<leftarrow> SPLAY_RIGHT m root;
     if tmp = NULL then Some (Inr (lr, h))
     else do {
       b \<leftarrow> further tmp;
       (stop, m, root) \<leftarrow>
         (if b then do {
            (m, root) \<leftarrow> SPLAY_ROTATE_LEFT tmp (m, root);
            r \<leftarrow> SPLAY_RIGHT m root;
            Some (r = NULL, m, root) }
          else Some (False, m, root));
       if stop then Some (Inr (lr, m, root))
       else do {
         (lft, h) \<leftarrow> SPLAY_LINKRIGHT lft (m, root);
         Some (Inl ((lft, rgt), h)) } } })"

text \<open>Turns until a \<^verbatim>\<open>break\<close>.\<close>

partial_function (option) splay_while ::
  "(ptr \<times> ptr \<Rightarrow> sp_head \<Rightarrow> ((ptr \<times> ptr) \<times> sp_head + (ptr \<times> ptr) \<times> sp_head) option) \<Rightarrow>
   ptr \<times> ptr \<Rightarrow> sp_head \<Rightarrow> ((ptr \<times> ptr) \<times> sp_head) option" where
  "splay_while turn lr h =
     (case turn lr h of
        None \<Rightarrow> None
      | Some (Inr s) \<Rightarrow> Some s
      | Some (Inl (lr', h')) \<Rightarrow> splay_while turn lr' h')"

definition SPLAY_turn ::
  "sp_cmp \<Rightarrow> ptr \<Rightarrow> ptr \<times> ptr \<Rightarrow> sp_head \<Rightarrow> ((ptr \<times> ptr) \<times> sp_head + (ptr \<times> ptr) \<times> sp_head) option" where
  "SPLAY_turn cmp elm lr h = do {
     cres \<leftarrow> cmp elm (snd h);
     if cres < 0 then splay_go_left (\<lambda>tmp. map_option (\<lambda>c. c < 0) (cmp elm tmp)) lr h
     else if cres > 0 then splay_go_right (\<lambda>tmp. map_option (\<lambda>c. c > 0) (cmp elm tmp)) lr h
     else Some (Inr (lr, h)) }"

definition SPLAY_loop ::
  "sp_cmp \<Rightarrow> ptr \<Rightarrow> ptr \<times> ptr \<Rightarrow> sp_head \<Rightarrow> ((ptr \<times> ptr) \<times> sp_head) option" where
  "SPLAY_loop cmp elm = splay_while (SPLAY_turn cmp elm)"

definition SPLAY :: "ptr \<Rightarrow> sp_cmp \<Rightarrow> ptr \<Rightarrow> sp_head \<Rightarrow> sp_head option" where
  "SPLAY node cmp elm h = (case h of (m, root) \<Rightarrow> do {
     let m = m(node \<mapsto> \<lparr>spe_left = NULL, spe_right = NULL\<rparr>);
     (lr, h) \<leftarrow> SPLAY_loop cmp elm (node, node) (m, root);
     (m, root) \<leftarrow> SPLAY_ASSEMBLE node lr h;
     Some (m(node := None), root) })"

definition SPLAY_MINMAX_turn ::
  "int \<Rightarrow> ptr \<times> ptr \<Rightarrow> sp_head \<Rightarrow> ((ptr \<times> ptr) \<times> sp_head + (ptr \<times> ptr) \<times> sp_head) option" where
  "SPLAY_MINMAX_turn cres lr h =
     (if cres < 0 then splay_go_left (\<lambda>tmp. Some (cres < 0)) lr h
      else if cres > 0 then splay_go_right (\<lambda>tmp. Some (cres > 0)) lr h
      else Some (Inl (lr, h)))"

definition SPLAY_MINMAX_loop ::
  "int \<Rightarrow> ptr \<times> ptr \<Rightarrow> sp_head \<Rightarrow> ((ptr \<times> ptr) \<times> sp_head) option" where
  "SPLAY_MINMAX_loop cres = splay_while (SPLAY_MINMAX_turn cres)"

definition SPLAY_MINMAX :: "ptr \<Rightarrow> int \<Rightarrow> sp_head \<Rightarrow> sp_head option" where
  "SPLAY_MINMAX node cres h = (case h of (m, root) \<Rightarrow> do {
     let m = m(node \<mapsto> \<lparr>spe_left = NULL, spe_right = NULL\<rparr>);
     (lr, h) \<leftarrow> SPLAY_MINMAX_loop cres (node, node) (m, root);
     (m, root) \<leftarrow> SPLAY_ASSEMBLE node lr h;
     Some (m(node := None), root) })"

subsection \<open>The operations\<close>

definition SPLAY_INSERT :: "ptr \<Rightarrow> sp_cmp \<Rightarrow> ptr \<Rightarrow> sp_head \<Rightarrow> (ptr \<times> sp_head) option" where
  "SPLAY_INSERT node cmp elm h = (case h of (m, root) \<Rightarrow>
     if SPLAY_EMPTY root then do {
       m \<leftarrow> sp_set_right elm NULL m;
       m \<leftarrow> sp_set_left elm NULL m;
       Some (NULL, m, elm) }
     else do {
       (m, root) \<leftarrow> SPLAY node cmp elm (m, root);
       cres \<leftarrow> cmp elm root;
       if cres < 0 then do {
         rl \<leftarrow> SPLAY_LEFT m root;
         m \<leftarrow> sp_set_left elm rl m;
         m \<leftarrow> sp_set_right elm root m;
         m \<leftarrow> sp_set_left root NULL m;
         Some (NULL, m, elm) }
       else if cres > 0 then do {
         rr \<leftarrow> SPLAY_RIGHT m root;
         m \<leftarrow> sp_set_right elm rr m;
         m \<leftarrow> sp_set_left elm root m;
         m \<leftarrow> sp_set_right root NULL m;
         Some (NULL, m, elm) }
       else Some (root, m, root) })"

definition SPLAY_REMOVE :: "ptr \<Rightarrow> sp_cmp \<Rightarrow> ptr \<Rightarrow> sp_head \<Rightarrow> (ptr \<times> sp_head) option" where
  "SPLAY_REMOVE node cmp elm h = (case h of (m, root) \<Rightarrow>
     if SPLAY_EMPTY root then Some (NULL, m, root)
     else do {
       (m, root) \<leftarrow> SPLAY node cmp elm (m, root);
       cres \<leftarrow> cmp elm root;
       if cres = 0 then do {
         rl \<leftarrow> SPLAY_LEFT m root;
         (m, root) \<leftarrow>
           (if rl = NULL then do {
              rr \<leftarrow> SPLAY_RIGHT m root;
              Some (m, rr) }
            else do {
              tmp \<leftarrow> SPLAY_RIGHT m root;
              root \<leftarrow> SPLAY_LEFT m root;
              (m, root) \<leftarrow> SPLAY node cmp elm (m, root);
              m \<leftarrow> sp_set_right root tmp m;
              Some (m, root) });
         Some (elm, m, root) }
       else Some (NULL, m, root) })"

definition SPLAY_FIND :: "ptr \<Rightarrow> sp_cmp \<Rightarrow> ptr \<Rightarrow> sp_head \<Rightarrow> (ptr \<times> sp_head) option" where
  "SPLAY_FIND node cmp elm h = (case h of (m, root) \<Rightarrow>
     if SPLAY_EMPTY root then Some (NULL, m, root)
     else do {
       (m, root) \<leftarrow> SPLAY node cmp elm (m, root);
       cres \<leftarrow> cmp elm root;
       if cres = 0 then Some (root, m, root) else Some (NULL, m, root) })"

partial_function (option) splay_leftmost :: "sp_mem \<Rightarrow> ptr \<Rightarrow> ptr option" where
  "splay_leftmost m elm = do {
     l \<leftarrow> SPLAY_LEFT m elm;
     if l \<noteq> NULL then splay_leftmost m l else Some elm }"

definition SPLAY_NEXT :: "ptr \<Rightarrow> sp_cmp \<Rightarrow> ptr \<Rightarrow> sp_head \<Rightarrow> (ptr \<times> sp_head) option" where
  "SPLAY_NEXT node cmp elm h = do {
     (m, root) \<leftarrow> SPLAY node cmp elm h;
     r \<leftarrow> SPLAY_RIGHT m elm;
     if r \<noteq> NULL then do {
       elm \<leftarrow> splay_leftmost m r;
       Some (elm, m, root) }
     else Some (NULL, m, root) }"

definition SPLAY_MIN_MAX :: "ptr \<Rightarrow> int \<Rightarrow> sp_head \<Rightarrow> (ptr \<times> sp_head) option" where
  "SPLAY_MIN_MAX node val h = do {
     (m, root) \<leftarrow> SPLAY_MINMAX node val h;
     Some (root, m, root) }"

definition SPLAY_MIN :: "ptr \<Rightarrow> sp_head \<Rightarrow> (ptr \<times> sp_head) option" where
  "SPLAY_MIN node h = (if SPLAY_EMPTY (snd h) then Some (NULL, h) else SPLAY_MIN_MAX node (-1) h)"

definition SPLAY_MAX :: "ptr \<Rightarrow> sp_head \<Rightarrow> (ptr \<times> sp_head) option" where
  "SPLAY_MAX node h = (if SPLAY_EMPTY (snd h) then Some (NULL, h) else SPLAY_MIN_MAX node 1 h)"

text \<open>\<^verbatim>\<open>SPLAY_FOREACH\<close> with an empty body: the nodes it visits, in order, and the tree it leaves.\<close>

partial_function (option) SPLAY_FOREACH_loop ::
  "ptr \<Rightarrow> sp_cmp \<Rightarrow> ptr \<Rightarrow> sp_head \<Rightarrow> (ptr list \<times> sp_head) option" where
  "SPLAY_FOREACH_loop node cmp x h =
     (if x = NULL then Some ([], h)
      else do {
        (y, h) \<leftarrow> SPLAY_NEXT node cmp x h;
        (xs, h) \<leftarrow> SPLAY_FOREACH_loop node cmp y h;
        Some (x # xs, h) })"

definition SPLAY_FOREACH :: "ptr \<Rightarrow> sp_cmp \<Rightarrow> sp_head \<Rightarrow> (ptr list \<times> sp_head) option" where
  "SPLAY_FOREACH node cmp h = do {
     (x, h) \<leftarrow> SPLAY_MIN node h;
     SPLAY_FOREACH_loop node cmp x h }"

end
