(* ===== verification/Ut_Splay_Rep.thy ===== *)
theory Ut_Splay_Rep
  imports Ut_Splay_Mem "HOL-Library.Tree"
begin

text \<open>
  What the pointers of \<open>Ut_Splay_Mem\<close> represent, and splaying as a function on trees.  The memory is
  seen field by field, as two functions from addresses to addresses.  While the loop of
  \<^verbatim>\<open>SPLAY\<close> runs, it holds three parts: the tree below the root pointer, and the nodes already split off on
  either side, which hang on the local structure \<^verbatim>\<open>__node\<close> as a chain of right pointers (the smaller
  nodes) and a chain of left pointers (the greater ones).
\<close>

subsection \<open>Fields\<close>

definition lf :: "sp_mem \<Rightarrow> ptr \<Rightarrow> ptr" where
  "lf m a = spe_left (the (m a))"

definition rf :: "sp_mem \<Rightarrow> ptr \<Rightarrow> ptr" where
  "rf m a = spe_right (the (m a))"

definition setL :: "ptr \<Rightarrow> ptr \<Rightarrow> sp_mem \<Rightarrow> sp_mem" where
  "setL a v m = m(a \<mapsto> (the (m a))\<lparr>spe_left := v\<rparr>)"

definition setR :: "ptr \<Rightarrow> ptr \<Rightarrow> sp_mem \<Rightarrow> sp_mem" where
  "setR a v m = m(a \<mapsto> (the (m a))\<lparr>spe_right := v\<rparr>)"

lemma fields_set [simp]:
  "lf (setL a v m) = (lf m)(a := v)" "rf (setL a v m) = rf m" "dom (setL a v m) = insert a (dom m)"
  "rf (setR a v m) = (rf m)(a := v)" "lf (setR a v m) = lf m" "dom (setR a v m) = insert a (dom m)"
  by (auto simp: lf_def rf_def setL_def setR_def)

lemma set_other [simp]: "x \<noteq> a \<Longrightarrow> setL a v m x = m x" "x \<noteq> a \<Longrightarrow> setR a v m x = m x"
  by (simp_all add: setL_def setR_def)

lemma access [simp]:
  assumes "a \<in> dom m" "a \<noteq> NULL"
  shows "SPLAY_LEFT m a = Some (lf m a)" "SPLAY_RIGHT m a = Some (rf m a)"
    "sp_set_left a v m = Some (setL a v m)" "sp_set_right a v m = Some (setR a v m)"
  using assms by (auto simp: SPLAY_LEFT_def SPLAY_RIGHT_def sp_set_left_def sp_set_right_def
      sp_entry_at_def lf_def rf_def setL_def setR_def)

subsection \<open>Trees and chains\<close>

fun sroot :: "ptr tree \<Rightarrow> ptr" where
  "sroot Leaf = NULL"
| "sroot (Node l a r) = a"

fun stree :: "(ptr \<Rightarrow> ptr) \<Rightarrow> (ptr \<Rightarrow> ptr) \<Rightarrow> ptr tree \<Rightarrow> bool" where
  "stree L R Leaf \<longleftrightarrow> True"
| "stree L R (Node l a r) \<longleftrightarrow> L a = sroot l \<and> R a = sroot r \<and> stree L R l \<and> stree L R r"

type_synonym link = "ptr tree \<times> ptr"

text \<open>
  \<open>lchain L R p fs e\<close>: from \<open>p\<close> the right pointers lead through the nodes of \<open>fs\<close> to \<open>e\<close>, and each of
  these nodes has its left subtree; \<open>rchain\<close> is the mirror image.
\<close>

fun lchain :: "(ptr \<Rightarrow> ptr) \<Rightarrow> (ptr \<Rightarrow> ptr) \<Rightarrow> ptr \<Rightarrow> link list \<Rightarrow> ptr \<Rightarrow> bool" where
  "lchain L R p [] e \<longleftrightarrow> e = p"
| "lchain L R p ((l, a) # fs) e \<longleftrightarrow> R p = a \<and> L a = sroot l \<and> stree L R l \<and> lchain L R a fs e"

fun rchain :: "(ptr \<Rightarrow> ptr) \<Rightarrow> (ptr \<Rightarrow> ptr) \<Rightarrow> ptr \<Rightarrow> link list \<Rightarrow> ptr \<Rightarrow> bool" where
  "rchain L R p [] e \<longleftrightarrow> e = p"
| "rchain L R p ((r, a) # fs) e \<longleftrightarrow> L p = a \<and> R a = sroot r \<and> stree L R r \<and> rchain L R a fs e"

text \<open>The nodes of the chains, in key order, and the trees they become below a subtree.\<close>

fun lnodes :: "link list \<Rightarrow> ptr list" where
  "lnodes [] = []"
| "lnodes ((l, a) # fs) = inorder l @ a # lnodes fs"

fun rnodes :: "link list \<Rightarrow> ptr list" where
  "rnodes [] = []"
| "rnodes ((r, a) # fs) = rnodes fs @ a # inorder r"

fun lplug :: "link list \<Rightarrow> ptr tree \<Rightarrow> ptr tree" where
  "lplug [] t = t"
| "lplug ((l, a) # fs) t = Node l a (lplug fs t)"

fun rplug :: "link list \<Rightarrow> ptr tree \<Rightarrow> ptr tree" where
  "rplug [] t = t"
| "rplug ((r, a) # fs) t = Node (rplug fs t) a r"

lemma nodes_append [simp]:
  "lnodes (fs @ gs) = lnodes fs @ lnodes gs" "rnodes (fs @ gs) = rnodes gs @ rnodes fs"
  by (induction fs) auto

lemma plug_snoc [simp]:
  "lplug (fs @ [(l, a)]) t = lplug fs (Node l a t)" "rplug (fs @ [(r, a)]) t = rplug fs (Node t a r)"
  by (induction fs) auto

lemma inorder_sides [simp]:
  "inorder (lplug fs t) = lnodes fs @ inorder t" "inorder (rplug fs t) = inorder t @ rnodes fs"
  by (induction fs) auto

lemma sroot_in: "t \<noteq> Leaf \<Longrightarrow> sroot t \<in> set (inorder t)"
  by (cases t) auto

lemma sroot_NULL: "NULL \<notin> set (inorder t) \<Longrightarrow> sroot t = NULL \<longleftrightarrow> t = Leaf"
  by (cases t) auto

lemma stree_cong:
  "(\<And>x. x \<in> set (inorder t) \<Longrightarrow> L' x = L x \<and> R' x = R x) \<Longrightarrow> stree L' R' t = stree L R t"
  by (induction t) auto

lemma stree_upd [simp]:
  "a \<notin> set (inorder t) \<Longrightarrow> stree (L(a := v)) R t = stree L R t"
  "a \<notin> set (inorder t) \<Longrightarrow> stree L (R(a := v)) t = stree L R t"
  by (auto intro!: stree_cong)

lemma chain_end:
  "lchain L R p fs e \<Longrightarrow> e \<in> insert p (set (lnodes fs))"
  "rchain L R p fs e \<Longrightarrow> e \<in> insert p (set (rnodes fs))"
  by (induction fs arbitrary: p) auto

text \<open>The pointer at the end of a chain is free, and so is what lies outside.\<close>

lemma lchain_upd:
  "lchain L R p fs e \<Longrightarrow> a \<notin> set (lnodes fs) \<Longrightarrow> lchain (L(a := v)) R p fs e"
  "lchain L R p fs e \<Longrightarrow> a \<notin> insert p (set (lnodes fs)) \<Longrightarrow> lchain L (R(a := v)) p fs e"
  "lchain L R p fs e \<Longrightarrow> distinct (p # lnodes fs) \<Longrightarrow> lchain L (R(e := v)) p fs e"
proof (induction fs arbitrary: p)
  case (Cons f fs)
  obtain l b where f: "f = (l, b)" by (cases f)
  {
    case 3
    have "e \<in> insert b (set (lnodes fs))" using 3(1) f chain_end(1) [of L R b fs e] by auto
    then have "e \<noteq> p" "e \<notin> set (inorder l)" using 3(2) f by auto
    then show ?case using 3 f Cons.IH(3) [of b] by (simp del: fun_upd_apply) (simp add: fun_upd_other)
  }
qed auto

lemma rchain_upd:
  "rchain L R p fs e \<Longrightarrow> a \<notin> set (rnodes fs) \<Longrightarrow> rchain L (R(a := v)) p fs e"
  "rchain L R p fs e \<Longrightarrow> a \<notin> insert p (set (rnodes fs)) \<Longrightarrow> rchain (L(a := v)) R p fs e"
  "rchain L R p fs e \<Longrightarrow> distinct (p # rnodes fs) \<Longrightarrow> rchain (L(e := v)) R p fs e"
proof (induction fs arbitrary: p)
  case (Cons f fs)
  obtain l b where f: "f = (l, b)" by (cases f)
  {
    case 3
    have "e \<in> insert b (set (rnodes fs))" using 3(1) f chain_end(2) [of L R b fs e] by auto
    then have "e \<noteq> p" "e \<notin> set (inorder l)" using 3(2) f by auto
    then show ?case using 3 f Cons.IH(3) [of b] by (simp del: fun_upd_apply) (simp add: fun_upd_other)
  }
qed auto

lemma lchain_snoc:
  "lchain L R p (fs @ [(l, a)]) e \<longleftrightarrow>
   (\<exists>d. lchain L R p fs d \<and> R d = a \<and> L a = sroot l \<and> stree L R l \<and> e = a)"
  by (induction fs arbitrary: p) auto

lemma rchain_snoc:
  "rchain L R p (fs @ [(r, a)]) e \<longleftrightarrow>
   (\<exists>d. rchain L R p fs d \<and> L d = a \<and> R a = sroot r \<and> stree L R r \<and> e = a)"
  by (induction fs arbitrary: p) auto

text \<open>A chain with a subtree hung on its end is a tree.\<close>

lemma lchain_stree:
  "lchain L R p fs e \<Longrightarrow> R e = sroot t \<Longrightarrow> stree L R t \<Longrightarrow>
   R p = sroot (lplug fs t) \<and> stree L R (lplug fs t)"
  by (induction fs arbitrary: p) auto

lemma rchain_stree:
  "rchain L R p fs e \<Longrightarrow> L e = sroot t \<Longrightarrow> stree L R t \<Longrightarrow>
   L p = sroot (rplug fs t) \<and> stree L R (rplug fs t)"
  by (induction fs arbitrary: p) auto

subsection \<open>Splaying as a function on trees\<close>

text \<open>
  \<open>c a\<close> is the result of comparing the key with the node \<open>a\<close>.  The two sons of a root that is passed
  are linked to the sides; two steps in the same direction rotate first.
\<close>

fun splay_tree :: "(ptr \<Rightarrow> int) \<Rightarrow> ptr tree \<Rightarrow> ptr tree" where
  "splay_tree c Leaf = Leaf"
| "splay_tree c (Node l b r) =
     (if c b < 0 then
        (case l of
           Leaf \<Rightarrow> Node l b r
         | Node ll a lr \<Rightarrow>
             if c a < 0 then
               (if ll = Leaf then Node Leaf a (Node lr b r)
                else case splay_tree c ll of
                    Leaf \<Rightarrow> Leaf
                  | Node x d y \<Rightarrow> Node x d (Node y a (Node lr b r)))
             else (case splay_tree c l of Leaf \<Rightarrow> Leaf | Node x d y \<Rightarrow> Node x d (Node y b r)))
      else if c b > 0 then
        (case r of
           Leaf \<Rightarrow> Node l b r
         | Node rl a rr \<Rightarrow>
             if c a > 0 then
               (if rr = Leaf then Node (Node l b rl) a Leaf
                else case splay_tree c rr of
                    Leaf \<Rightarrow> Leaf
                  | Node x d y \<Rightarrow> Node (Node (Node l b rl) a x) d y)
             else (case splay_tree c r of Leaf \<Rightarrow> Leaf | Node x d y \<Rightarrow> Node (Node l b x) d y))
      else Node l b r)"

declare splay_tree.simps(2) [simp del]

text \<open>The cases of the function, as equations and as an induction rule.\<close>

lemma splay_tree_stop:
  "\<not> (c b < 0 \<and> l \<noteq> Leaf) \<Longrightarrow> \<not> (c b > 0 \<and> r \<noteq> Leaf) \<Longrightarrow> splay_tree c (Node l b r) = Node l b r"
  by (auto simp: splay_tree.simps(2) split: tree.split)

lemma splay_tree_end:
  "c b < 0 \<Longrightarrow> c a < 0 \<Longrightarrow> splay_tree c (Node (Node Leaf a lr) b r) = Node Leaf a (Node lr b r)"
  "c b > 0 \<Longrightarrow> c a > 0 \<Longrightarrow> splay_tree c (Node l b (Node rl a Leaf)) = Node (Node l b rl) a Leaf"
  by (simp_all add: splay_tree.simps(2))

lemma splay_tree_left:
  "c b < 0 \<Longrightarrow> c a < 0 \<Longrightarrow> ll \<noteq> Leaf \<Longrightarrow> splay_tree c ll = Node x d y \<Longrightarrow>
   splay_tree c (Node (Node ll a lr) b r) = Node x d (Node y a (Node lr b r))"
  "c b < 0 \<Longrightarrow> \<not> c a < 0 \<Longrightarrow> splay_tree c (Node ll a lr) = Node x d y \<Longrightarrow>
   splay_tree c (Node (Node ll a lr) b r) = Node x d (Node y b r)"
  by (simp_all add: splay_tree.simps(2) [of c _ b])

lemma splay_tree_right:
  "c b > 0 \<Longrightarrow> c a > 0 \<Longrightarrow> rr \<noteq> Leaf \<Longrightarrow> splay_tree c rr = Node x d y \<Longrightarrow>
   splay_tree c (Node l b (Node rl a rr)) = Node (Node (Node l b rl) a x) d y"
  "c b > 0 \<Longrightarrow> \<not> c a > 0 \<Longrightarrow> splay_tree c (Node rl a rr) = Node x d y \<Longrightarrow>
   splay_tree c (Node l b (Node rl a rr)) = Node (Node l b x) d y"
  by (simp_all add: splay_tree.simps(2) [of c _ b])

lemmas splay_tree_eqs = splay_tree_stop splay_tree_end splay_tree_left splay_tree_right

lemma splay_tree_cases [case_names Leaf Stop EndL LL L EndR RR R]:
  obtains "t = Leaf"
  | l b r where "t = Node l b r" "\<not> (c b < 0 \<and> l \<noteq> Leaf)" "\<not> (c b > (0 :: int) \<and> r \<noteq> Leaf)"
  | a lr b r where "t = Node (Node Leaf a lr) b r" "c b < 0" "c a < 0"
  | ll a lr b r where "t = Node (Node ll a lr) b r" "c b < 0" "c a < 0" "ll \<noteq> Leaf"
  | ll a lr b r where "t = Node (Node ll a lr) b r" "c b < 0" "\<not> c a < 0"
  | l b rl a where "t = Node l b (Node rl a Leaf)" "c b > 0" "c a > 0"
  | l b rl a rr where "t = Node l b (Node rl a rr)" "c b > 0" "c a > 0" "rr \<noteq> Leaf"
  | l b rl a rr where "t = Node l b (Node rl a rr)" "c b > 0" "\<not> c a > 0"
proof -
  consider "t = Leaf" | l b r where "t = Node l b r" "\<not> (c b < 0 \<and> l \<noteq> Leaf)" "\<not> (c b > 0 \<and> r \<noteq> Leaf)"
    | ll a lr b r where "t = Node (Node ll a lr) b r" "c b < 0"
    | l b rl a rr where "t = Node l b (Node rl a rr)" "c b > 0"
    by (metis tree.exhaust)
  then show thesis
  proof cases
    case (3 ll a lr b r)
    with that(3-5) show thesis by (cases "c a < 0"; cases "ll = Leaf") blast+
  next
    case (4 l b rl a rr)
    with that(6-8) show thesis by (cases "c a > 0"; cases "rr = Leaf") blast+
  qed (use that(1,2) in blast)+
qed

lemma splay_induct [case_names Leaf Stop EndL LL L EndR RR R]:
  assumes "P Leaf"
    and "\<And>l b r. \<not> (c b < 0 \<and> l \<noteq> Leaf) \<Longrightarrow> \<not> (c b > 0 \<and> r \<noteq> Leaf) \<Longrightarrow> P (Node l b r)"
    and "\<And>a lr b r. c b < 0 \<Longrightarrow> c a < 0 \<Longrightarrow> P (Node (Node Leaf a lr) b r)"
    and "\<And>ll a lr b r. c b < 0 \<Longrightarrow> c a < 0 \<Longrightarrow> ll \<noteq> Leaf \<Longrightarrow> P ll \<Longrightarrow> P (Node (Node ll a lr) b r)"
    and "\<And>ll a lr b r. c b < 0 \<Longrightarrow> \<not> c a < 0 \<Longrightarrow> P (Node ll a lr) \<Longrightarrow> P (Node (Node ll a lr) b r)"
    and "\<And>l b rl a. c b > 0 \<Longrightarrow> c a > (0 :: int) \<Longrightarrow> P (Node l b (Node rl a Leaf))"
    and "\<And>l b rl a rr. c b > 0 \<Longrightarrow> c a > 0 \<Longrightarrow> rr \<noteq> Leaf \<Longrightarrow> P rr \<Longrightarrow> P (Node l b (Node rl a rr))"
    and "\<And>l b rl a rr. c b > 0 \<Longrightarrow> \<not> c a > 0 \<Longrightarrow> P (Node rl a rr) \<Longrightarrow> P (Node l b (Node rl a rr))"
  shows "P t"
proof (induction t rule: measure_induct_rule [of size])
  case (less t)
  show ?case by (cases rule: splay_tree_cases [where t = t and c = c]) (use assms less in auto)
qed

lemma splay_tree_Node:
  assumes "t \<noteq> Leaf"
  obtains x d y where "splay_tree c t = Node x d y"
proof -
  have "t \<noteq> Leaf \<longrightarrow> (\<exists>x d y. splay_tree c t = Node x d y)"
    by (induction t rule: splay_induct [where c = c]) (auto simp: splay_tree_eqs)
  with assms that show thesis by blast
qed

lemma inorder_splay_tree [simp]: "inorder (splay_tree c t) = inorder t"
proof (induction t rule: splay_induct [where c = c])
  case (LL ll a lr b r)
  obtain x d y where "splay_tree c ll = Node x d y" using splay_tree_Node LL(3) .
  then show ?case using LL by (auto simp: splay_tree_left)
next
  case (L ll a lr b r)
  obtain x d y where "splay_tree c (Node ll a lr) = Node x d y" using splay_tree_Node tree.simps(3) .
  then show ?case using L by (auto simp: splay_tree_left)
next
  case (RR l b rl a rr)
  obtain x d y where "splay_tree c rr = Node x d y" using splay_tree_Node RR(3) .
  then show ?case using RR by (auto simp: splay_tree_right)
next
  case (R l b rl a rr)
  obtain x d y where "splay_tree c (Node rl a rr) = Node x d y" using splay_tree_Node tree.simps(3) .
  then show ?case using R by (auto simp: splay_tree_right)
qed (auto simp: splay_tree_eqs)

text \<open>
  Splaying splits the tree at the key: when the comparison agrees with the order of the tree, the nodes
  to the left of the new root are below the key and those to the right are above it.
\<close>

definition agrees :: "(ptr \<Rightarrow> int) \<Rightarrow> ptr list \<Rightarrow> bool" where
  "agrees c xs \<longleftrightarrow> sorted_wrt (\<lambda>a b. 0 < c a \<or> c b < 0) xs"

lemma agrees_append [simp]:
  "agrees c (xs @ ys) \<longleftrightarrow> agrees c xs \<and> agrees c ys \<and>
     (\<forall>a \<in> set xs. \<forall>b \<in> set ys. 0 < c a \<or> c b < 0)"
  by (auto simp: agrees_def sorted_wrt_append)

lemma agrees_Cons [simp]:
  "agrees c (a # ys) \<longleftrightarrow> agrees c ys \<and> (\<forall>b \<in> set ys. 0 < c a \<or> c b < 0)"
  by (auto simp: agrees_def)

lemma splay_tree_splits:
  assumes "agrees c (inorder t)" "splay_tree c t = Node x d y"
  shows "(\<forall>a \<in> set_tree x. c a > 0) \<and> (\<forall>a \<in> set_tree y. c a < 0)"
  using assms
proof (induction t arbitrary: x d y rule: splay_induct [where c = c])
  case (Stop l b r)
  then show ?case by (force simp: splay_tree_stop not_less)
next
  case (EndL a lr b r)
  then show ?case by (force simp: splay_tree_end)
next
  case (LL ll a lr b r)
  obtain x' d' y' where s: "splay_tree c ll = Node x' d' y'" using splay_tree_Node LL(3) .
  with LL show ?case by (force simp: splay_tree_left)
next
  case (L ll a lr b r)
  obtain x' d' y' where s: "splay_tree c (Node ll a lr) = Node x' d' y'"
    using splay_tree_Node tree.simps(3) .
  from s have xy: "x = x'" "y = Node y' b r" using L(1,2,5) by (simp_all add: splay_tree_left)
  have side: "\<forall>a \<in> set_tree r. c a < 0" using L(1,4) by auto
  have "agrees c (inorder (Node ll a lr))" using L(4) by (metis agrees_append agrees_Cons inorder.simps(2))
  from L.IH [OF this s] show ?case using L(1) xy side by auto
next
  case (EndR l b rl a)
  then show ?case by (force simp: splay_tree_end)
next
  case (RR l b rl a rr)
  obtain x' d' y' where s: "splay_tree c rr = Node x' d' y'" using splay_tree_Node RR(3) .
  with RR show ?case by (force simp: splay_tree_right)
next
  case (R l b rl a rr)
  obtain x' d' y' where s: "splay_tree c (Node rl a rr) = Node x' d' y'"
    using splay_tree_Node tree.simps(3) .
  from s have xy: "x = Node l b x'" "y = y'" using R(1,2,5) by (simp_all add: splay_tree_right)
  have side: "\<forall>a \<in> set_tree l. c a > 0" using R(1,4) by auto
  have "agrees c (inorder (Node rl a rr))" using R(4) by (metis agrees_append agrees_Cons inorder.simps(2))
  from R.IH [OF this s] show ?case using R(1) xy side by auto
qed simp

end
