(* ===== verification/Ut_Splay.thy ===== *)
theory Ut_Splay
  imports Ut_Splay_Rep
begin

text \<open>
  The correctness of the splay tree: the loop with its pointers computes the function \<open>splay_tree\<close>, and the
  operations keep the contract \<open>ordered_index\<close>.
\<close>

subsection \<open>The state of the loop\<close>

abbreviation all_nodes :: "ptr \<Rightarrow> link list \<Rightarrow> ptr tree \<Rightarrow> link list \<Rightarrow> ptr list" where
  "all_nodes node fs t gs \<equiv> node # lnodes fs @ inorder t @ rnodes gs"

definition splitting :: "sp_mem \<Rightarrow> ptr \<Rightarrow> link list \<Rightarrow> ptr tree \<Rightarrow> link list \<Rightarrow> ptr \<times> ptr \<Rightarrow> bool" where
  "splitting m node fs t gs lr \<longleftrightarrow>
     distinct (all_nodes node fs t gs) \<and> NULL \<notin> set (all_nodes node fs t gs) \<and>
     set (all_nodes node fs t gs) \<subseteq> dom m \<and> stree (lf m) (rf m) t \<and>
     lchain (lf m) (rf m) node fs (fst lr) \<and> rchain (lf m) (rf m) node gs (snd lr)"

lemma splittingD:
  assumes "splitting m node fs t gs (lft, rgt)"
  shows "lft \<in> insert node (set (lnodes fs))" "rgt \<in> insert node (set (rnodes gs))"
    "lft \<in> dom m" "rgt \<in> dom m" "lft \<noteq> NULL" "rgt \<noteq> NULL" "lft \<notin> set_tree t" "rgt \<notin> set_tree t"
    "lft \<notin> set (rnodes gs)" "rgt \<notin> set (lnodes fs)"
proof -
  show l: "lft \<in> insert node (set (lnodes fs))" and r: "rgt \<in> insert node (set (rnodes gs))"
    using assms chain_end(1) [of _ _ node fs lft] chain_end(2) [of _ _ node gs rgt]
    by (auto simp: splitting_def)
  show "lft \<in> dom m" "rgt \<in> dom m" "lft \<noteq> NULL" "rgt \<noteq> NULL" "lft \<notin> set_tree t" "rgt \<notin> set_tree t"
    "lft \<notin> set (rnodes gs)" "rgt \<notin> set (lnodes fs)"
    using assms l r unfolding splitting_def by (auto simp del: domIff)
qed

lemma same_outside_set:
  "a \<in> A \<Longrightarrow> a \<in> dom m \<Longrightarrow> same_outside A m (setL a v m)"
  "a \<in> A \<Longrightarrow> a \<in> dom m \<Longrightarrow> same_outside A m (setR a v m)"
  by (auto simp: same_outside_def setL_def setR_def)

lemma link_left:
  assumes "splitting m node fs (Node l b r) gs (lft, rgt)" "l \<noteq> Leaf"
  shows "\<exists>m'. SPLAY_LINKLEFT rgt (m, b) = Some (b, m', sroot l) \<and>
    splitting m' node fs l (gs @ [(r, b)]) (lft, b) \<and> same_outside (set (all_nodes node fs (Node l b r) gs)) m m'"
proof -
  note s = assms(1) [unfolded splitting_def, simplified] splittingD [OF assms(1)]
  have "rchain ((lf m)(rgt := b)) (rf m) node gs rgt" by (rule rchain_upd(3)) (use s in auto)
  moreover have "lchain ((lf m)(rgt := b)) (rf m) node fs lft" by (rule lchain_upd(1)) (use s in auto)
  ultimately have "splitting (setL rgt b m) node fs l (gs @ [(r, b)]) (lft, b)"
    using s by (auto simp: splitting_def rchain_snoc)
  moreover have "SPLAY_LINKLEFT rgt (m, b) = Some (b, setL rgt b m, sroot l)"
    using s by (auto simp: SPLAY_LINKLEFT_def)
  ultimately show ?thesis using s same_outside_set by auto
qed

lemma link_right:
  assumes "splitting m node fs (Node l b r) gs (lft, rgt)" "r \<noteq> Leaf"
  shows "\<exists>m'. SPLAY_LINKRIGHT lft (m, b) = Some (b, m', sroot r) \<and>
    splitting m' node (fs @ [(l, b)]) r gs (b, rgt) \<and> same_outside (set (all_nodes node fs (Node l b r) gs)) m m'"
proof -
  note s = assms(1) [unfolded splitting_def, simplified] splittingD [OF assms(1)]
  have "lchain (lf m) ((rf m)(lft := b)) node fs lft" by (rule lchain_upd(3)) (use s in auto)
  moreover have "rchain (lf m) ((rf m)(lft := b)) node gs rgt" by (rule rchain_upd(1)) (use s in auto)
  ultimately have "splitting (setR lft b m) node (fs @ [(l, b)]) r gs (b, rgt)"
    using s by (auto simp: splitting_def lchain_snoc)
  moreover have "SPLAY_LINKRIGHT lft (m, b) = Some (b, setR lft b m, sroot r)"
    using s by (auto simp: SPLAY_LINKRIGHT_def)
  ultimately show ?thesis using s same_outside_set by auto
qed

lemma rotate_right:
  assumes "splitting m node fs (Node (Node ll a lr) b r) gs (lft, rgt)"
  shows "\<exists>m'. SPLAY_ROTATE_RIGHT a (m, b) = Some (m', a) \<and>
    splitting m' node fs (Node ll a (Node lr b r)) gs (lft, rgt) \<and>
    same_outside (set (all_nodes node fs (Node (Node ll a lr) b r) gs)) m m'"
proof -
  note s = assms(1) [unfolded splitting_def, simplified]
  let ?L = "(lf m)(b := sroot lr)" and ?R = "(rf m)(a := b)"
  let ?m = "setR a b (setL b (sroot lr) m)"
  have "lchain ?L ?R node fs lft" by (intro lchain_upd) (use s in auto)
  moreover have "rchain ?L ?R node gs rgt" by (intro rchain_upd) (use s in auto)
  ultimately have "splitting ?m node fs (Node ll a (Node lr b r)) gs (lft, rgt)"
    using s by (auto simp: splitting_def)
  moreover have "SPLAY_ROTATE_RIGHT a (m, b) = Some (?m, a)"
    using s by (auto simp: SPLAY_ROTATE_RIGHT_def)
  ultimately show ?thesis using s by (auto simp: same_outside_def setL_def setR_def)
qed

lemma rotate_left:
  assumes "splitting m node fs (Node l b (Node rl a rr)) gs (lft, rgt)"
  shows "\<exists>m'. SPLAY_ROTATE_LEFT a (m, b) = Some (m', a) \<and>
    splitting m' node fs (Node (Node l b rl) a rr) gs (lft, rgt) \<and>
    same_outside (set (all_nodes node fs (Node l b (Node rl a rr)) gs)) m m'"
proof -
  note s = assms(1) [unfolded splitting_def, simplified]
  let ?L = "(lf m)(a := b)" and ?R = "(rf m)(b := sroot rl)"
  let ?m = "setL a b (setR b (sroot rl) m)"
  have "lchain ?L ?R node fs lft" by (intro lchain_upd) (use s in auto)
  moreover have "rchain ?L ?R node gs rgt" by (intro rchain_upd) (use s in auto)
  ultimately have "splitting ?m node fs (Node (Node l b rl) a rr) gs (lft, rgt)"
    using s by (auto simp: splitting_def)
  moreover have "SPLAY_ROTATE_LEFT a (m, b) = Some (?m, a)"
    using s by (auto simp: SPLAY_ROTATE_LEFT_def)
  ultimately show ?thesis using s by (auto simp: same_outside_def setL_def setR_def)
qed

lemma assemble:
  assumes "splitting m node fs (Node l b r) gs (lft, rgt)"
  shows "\<exists>m'. SPLAY_ASSEMBLE node (lft, rgt) (m, b) = Some (m', b) \<and>
    stree (lf m') (rf m') (Node (lplug fs l) b (rplug gs r)) \<and>
    same_outside (set (all_nodes node fs (Node l b r) gs)) m m'"
proof -
  note s = assms(1) [unfolded splitting_def, simplified] splittingD [OF assms(1)]
  let ?L = "(lf m)(rgt := sroot r)" and ?R = "(rf m)(lft := sroot l)"
  let ?m1 = "setL rgt (sroot r) (setR lft (sroot l) m)"
  let ?m = "setR b (sroot (rplug gs r)) (setL b (sroot (lplug fs l)) ?m1)"
  have chains: "lchain ?L ?R node fs lft" "rchain ?L ?R node gs rgt"
    by (intro lchain_upd rchain_upd; use s in auto)+
  have left: "?R node = sroot (lplug fs l) \<and> stree ?L ?R (lplug fs l)"
    by (rule lchain_stree [OF chains(1)]) (use s in auto)
  have right: "?L node = sroot (rplug gs r) \<and> stree ?L ?R (rplug gs r)"
    by (rule rchain_stree [OF chains(2)]) (use s in auto)
  have "SPLAY_ASSEMBLE node (lft, rgt) (m, b) = Some (?m, b)"
    using s left right by (auto simp: SPLAY_ASSEMBLE_def)
  moreover have "stree (lf ?m) (rf ?m) (Node (lplug fs l) b (rplug gs r))"
    using s left right by (auto simp flip: set_inorder)
  moreover have "same_outside (set (all_nodes node fs (Node l b r) gs)) m ?m"
    using s by (auto simp: same_outside_def setL_def setR_def)
  ultimately show ?thesis by blast
qed

subsection \<open>The loop\<close>

lemma splitting_root:
  assumes "splitting m node fs (Node l b r) gs lr"
  shows "b \<in> dom m" "b \<noteq> NULL" "lf m b = sroot l" "rf m b = sroot r" "sroot l = NULL \<longleftrightarrow> l = Leaf"
    "sroot r = NULL \<longleftrightarrow> r = Leaf"
  using assms by (auto simp: splitting_def sroot_NULL simp del: domIff)

lemma turn_stop:
  assumes "splitting m node fs (Node l b r) gs lr" "cmp elm b = Some (c b)"
    and "\<not> (c b < 0 \<and> l \<noteq> Leaf)" "\<not> (c b > 0 \<and> r \<noteq> Leaf)"
  shows "SPLAY_turn cmp elm lr (m, b) = Some (Inr (lr, m, b))"
  using splitting_root [OF assms(1)] assms(2-4)
  by (cases lr) (auto simp: SPLAY_turn_def splay_go_left_def splay_go_right_def)

lemma turn_end_left:
  assumes "splitting m node fs (Node (Node Leaf a lr) b r) gs (lft, rgt)"
    and "cmp elm b = Some (c b)" "cmp elm a = Some (c a)" "c b < 0" "c a < 0"
  shows "\<exists>m'. SPLAY_turn cmp elm (lft, rgt) (m, b) = Some (Inr ((lft, rgt), m', a)) \<and>
    splitting m' node fs (Node Leaf a (Node lr b r)) gs (lft, rgt) \<and>
    same_outside (set (all_nodes node fs (Node (Node Leaf a lr) b r) gs)) m m'"
proof -
  obtain m' where m': "SPLAY_ROTATE_RIGHT a (m, b) = Some (m', a)"
    "splitting m' node fs (Node Leaf a (Node lr b r)) gs (lft, rgt)"
    "same_outside (set (all_nodes node fs (Node (Node Leaf a lr) b r) gs)) m m'"
    using rotate_right [OF assms(1)] by blast
  with splitting_root [OF assms(1)] splitting_root [OF m'(2)] assms(2-5) show ?thesis
    by (auto simp: SPLAY_turn_def splay_go_left_def)
qed

lemma turn_end_right:
  assumes "splitting m node fs (Node l b (Node rl a Leaf)) gs (lft, rgt)"
    and "cmp elm b = Some (c b)" "cmp elm a = Some (c a)" "c b > 0" "c a > 0"
  shows "\<exists>m'. SPLAY_turn cmp elm (lft, rgt) (m, b) = Some (Inr ((lft, rgt), m', a)) \<and>
    splitting m' node fs (Node (Node l b rl) a Leaf) gs (lft, rgt) \<and>
    same_outside (set (all_nodes node fs (Node l b (Node rl a Leaf)) gs)) m m'"
proof -
  obtain m' where m': "SPLAY_ROTATE_LEFT a (m, b) = Some (m', a)"
    "splitting m' node fs (Node (Node l b rl) a Leaf) gs (lft, rgt)"
    "same_outside (set (all_nodes node fs (Node l b (Node rl a Leaf)) gs)) m m'"
    using rotate_left [OF assms(1)] by blast
  with splitting_root [OF assms(1)] splitting_root [OF m'(2)] assms(2-5) show ?thesis
    by (auto simp: SPLAY_turn_def splay_go_right_def)
qed

lemma turn_left_left:
  assumes "splitting m node fs (Node (Node ll a lr) b r) gs (lft, rgt)" "ll \<noteq> Leaf"
    and "cmp elm b = Some (c b)" "cmp elm a = Some (c a)" "c b < 0" "c a < 0"
  shows "\<exists>m'. SPLAY_turn cmp elm (lft, rgt) (m, b) = Some (Inl ((lft, a), m', sroot ll)) \<and>
    splitting m' node fs ll (gs @ [(Node lr b r, a)]) (lft, a) \<and>
    same_outside (set (all_nodes node fs (Node (Node ll a lr) b r) gs)) m m'"
proof -
  obtain m1 where m1: "SPLAY_ROTATE_RIGHT a (m, b) = Some (m1, a)"
    "splitting m1 node fs (Node ll a (Node lr b r)) gs (lft, rgt)"
    "same_outside (set (all_nodes node fs (Node (Node ll a lr) b r) gs)) m m1"
    using rotate_right [OF assms(1)] by blast
  obtain m' where m': "SPLAY_LINKLEFT rgt (m1, a) = Some (a, m', sroot ll)"
    "splitting m' node fs ll (gs @ [(Node lr b r, a)]) (lft, a)"
    "same_outside (set (all_nodes node fs (Node ll a (Node lr b r)) gs)) m1 m'"
    using link_left [OF m1(2) assms(2)] by blast
  have "same_outside (set (all_nodes node fs (Node (Node ll a lr) b r) gs)) m m'"
    using same_outside_trans [OF m1(3)] m'(3) by (simp add: insert_commute Un_commute Un_left_commute)
  with splitting_root [OF assms(1)] splitting_root [OF m1(2)] assms(2-6) m1(1) m'(1,2) show ?thesis
    by (auto simp: SPLAY_turn_def splay_go_left_def)
qed

lemma turn_right_right:
  assumes "splitting m node fs (Node l b (Node rl a rr)) gs (lft, rgt)" "rr \<noteq> Leaf"
    and "cmp elm b = Some (c b)" "cmp elm a = Some (c a)" "c b > 0" "c a > 0"
  shows "\<exists>m'. SPLAY_turn cmp elm (lft, rgt) (m, b) = Some (Inl ((a, rgt), m', sroot rr)) \<and>
    splitting m' node (fs @ [(Node l b rl, a)]) rr gs (a, rgt) \<and>
    same_outside (set (all_nodes node fs (Node l b (Node rl a rr)) gs)) m m'"
proof -
  obtain m1 where m1: "SPLAY_ROTATE_LEFT a (m, b) = Some (m1, a)"
    "splitting m1 node fs (Node (Node l b rl) a rr) gs (lft, rgt)"
    "same_outside (set (all_nodes node fs (Node l b (Node rl a rr)) gs)) m m1"
    using rotate_left [OF assms(1)] by blast
  obtain m' where m': "SPLAY_LINKRIGHT lft (m1, a) = Some (a, m', sroot rr)"
    "splitting m' node (fs @ [(Node l b rl, a)]) rr gs (a, rgt)"
    "same_outside (set (all_nodes node fs (Node (Node l b rl) a rr) gs)) m1 m'"
    using link_right [OF m1(2) assms(2)] by blast
  have "same_outside (set (all_nodes node fs (Node l b (Node rl a rr)) gs)) m m'"
    using same_outside_trans [OF m1(3)] m'(3) by (simp add: insert_commute Un_commute Un_left_commute)
  with splitting_root [OF assms(1)] splitting_root [OF m1(2)] assms(2-6) m1(1) m'(1,2) show ?thesis
    by (auto simp: SPLAY_turn_def splay_go_right_def)
qed

lemma turn_left:
  assumes "splitting m node fs (Node l b r) gs (lft, rgt)" "l = Node ll a lr"
    and "cmp elm b = Some (c b)" "cmp elm a = Some (c a)" "c b < 0" "\<not> c a < 0"
  shows "\<exists>m'. SPLAY_turn cmp elm (lft, rgt) (m, b) = Some (Inl ((lft, b), m', sroot l)) \<and>
    splitting m' node fs l (gs @ [(r, b)]) (lft, b) \<and>
    same_outside (set (all_nodes node fs (Node l b r) gs)) m m'"
  using splitting_root [OF assms(1)] link_left [OF assms(1)] assms(2-6)
  by (auto simp: SPLAY_turn_def splay_go_left_def)

lemma turn_right:
  assumes "splitting m node fs (Node l b r) gs (lft, rgt)" "r = Node rl a rr"
    and "cmp elm b = Some (c b)" "cmp elm a = Some (c a)" "c b > 0" "\<not> c a > 0"
  shows "\<exists>m'. SPLAY_turn cmp elm (lft, rgt) (m, b) = Some (Inl ((b, rgt), m', sroot r)) \<and>
    splitting m' node (fs @ [(l, b)]) r gs (b, rgt) \<and>
    same_outside (set (all_nodes node fs (Node l b r) gs)) m m'"
  using splitting_root [OF assms(1)] link_right [OF assms(1)] assms(2-6)
  by (auto simp: SPLAY_turn_def splay_go_right_def)

text \<open>The rest of a call: the loop from some state on, and the assembly of the parts.\<close>

abbreviation splay_rest :: "sp_cmp \<Rightarrow> ptr \<Rightarrow> ptr \<Rightarrow> ptr \<times> ptr \<Rightarrow> sp_head \<Rightarrow> sp_head option" where
  "splay_rest cmp elm node lr h \<equiv>
     do { (lr, h) \<leftarrow> SPLAY_loop cmp elm lr h; SPLAY_ASSEMBLE node lr h }"

lemma splay_rest_turn:
  "SPLAY_turn cmp elm lr h = Some (Inr (lr', h')) \<Longrightarrow>
   splay_rest cmp elm node lr h = SPLAY_ASSEMBLE node lr' h'"
  "SPLAY_turn cmp elm lr h = Some (Inl (lr', h')) \<Longrightarrow>
   splay_rest cmp elm node lr h = splay_rest cmp elm node lr' h'"
  by (simp_all add: SPLAY_loop_def splay_while.simps [of "SPLAY_turn cmp elm" lr h])

definition splayed ::
  "sp_cmp \<Rightarrow> ptr \<Rightarrow> ptr \<Rightarrow> ptr \<times> ptr \<Rightarrow> sp_mem \<Rightarrow> link list \<Rightarrow> ptr tree \<Rightarrow> link list \<Rightarrow> ptr tree \<Rightarrow> bool" where
  "splayed cmp elm node lr m fs t gs t' \<longleftrightarrow>
     (\<exists>m' x d y. t' = Node x d y \<and> splay_rest cmp elm node lr (m, sroot t) = Some (m', d) \<and>
        stree (lf m') (rf m') (Node (lplug fs x) d (rplug gs y)) \<and>
        same_outside (set (all_nodes node fs t gs)) m m')"

lemma splayed_stop:
  assumes "SPLAY_turn cmp elm (lft, rgt) (m, sroot t) = Some (Inr ((lft, rgt), m1, b))"
    "splitting m1 node fs (Node x b y) gs (lft, rgt)"
    "same_outside (set (all_nodes node fs t gs)) m m1" "set_tree (Node x b y) = set_tree t"
  shows "splayed cmp elm node (lft, rgt) m fs t gs (Node x b y)"
proof -
  obtain m' where m': "SPLAY_ASSEMBLE node (lft, rgt) (m1, b) = Some (m', b)"
    "stree (lf m') (rf m') (Node (lplug fs x) b (rplug gs y))"
    "same_outside (set (all_nodes node fs (Node x b y) gs)) m1 m'"
    using assemble [OF assms(2)] by blast
  have "set (all_nodes node fs (Node x b y) gs) = set (all_nodes node fs t gs)"
    using assms(4) by (simp del: inorder.simps)
  with m'(3) same_outside_trans [OF assms(3)] have "same_outside (set (all_nodes node fs t gs)) m m'"
    by metis
  with m'(1,2) splay_rest_turn(1) [OF assms(1)] show ?thesis by (auto simp: splayed_def)
qed

lemma splayed_step:
  assumes "SPLAY_turn cmp elm (lft, rgt) (m, sroot t) = Some (Inl ((lft1, rgt1), m1, sroot t1))"
    "splayed cmp elm node (lft1, rgt1) m1 fs1 t1 gs1 (Node x d y)"
    "same_outside (set (all_nodes node fs t gs)) m m1"
    "set (all_nodes node fs1 t1 gs1) = set (all_nodes node fs t gs)"
    "lplug fs1 x = lplug fs x'" "rplug gs1 y = rplug gs y'"
  shows "splayed cmp elm node (lft, rgt) m fs t gs (Node x' d y')"
proof -
  obtain m' where m': "splay_rest cmp elm node (lft1, rgt1) (m1, sroot t1) = Some (m', d)"
    "stree (lf m') (rf m') (Node (lplug fs1 x) d (rplug gs1 y))"
    "same_outside (set (all_nodes node fs1 t1 gs1)) m1 m'"
    using assms(2) by (auto simp: splayed_def)
  have "same_outside (set (all_nodes node fs t gs)) m m'"
    using same_outside_trans [OF assms(3)] m'(3) assms(4) by metis
  with m'(1,2) splay_rest_turn(2) [OF assms(1)] assms(5,6) show ?thesis by (auto simp: splayed_def)
qed

text \<open>The loop computes the function \<open>splay_tree\<close>.\<close>

lemma splay_at:
  assumes "splitting m node fs t gs (lft, rgt)" "t \<noteq> Leaf" "\<forall>a \<in> set_tree t. cmp elm a = Some (c a)"
  shows "splayed cmp elm node (lft, rgt) m fs t gs (splay_tree c t)"
  using assms
proof (induction t arbitrary: m fs gs lft rgt rule: splay_induct [where c = c])
  case (Stop l b r)
  then show ?case
    using splayed_stop [of cmp elm lft rgt m "Node l b r" m b node fs l r gs] turn_stop [OF Stop(3), of cmp elm c]
    by (simp add: splay_tree_stop)
next
  case (EndL a lr b r)
  from turn_end_left [OF EndL(3), of cmp elm c] EndL show ?case
    by (auto simp: splay_tree_end intro!: splayed_stop)
next
  case (LL ll a lr b r)
  obtain x d y where s: "splay_tree c ll = Node x d y" using splay_tree_Node LL(3) .
  obtain m1 where m1: "SPLAY_turn cmp elm (lft, rgt) (m, b) = Some (Inl ((lft, a), m1, sroot ll))"
    "splitting m1 node fs ll (gs @ [(Node lr b r, a)]) (lft, a)"
    "same_outside (set (all_nodes node fs (Node (Node ll a lr) b r) gs)) m m1"
    using turn_left_left [OF LL(5) LL(3), of cmp elm c] LL by auto
  have ih: "splayed cmp elm node (lft, a) m1 fs ll (gs @ [(Node lr b r, a)]) (Node x d y)"
    using LL.IH [OF m1(2) LL(3)] LL(7) s by simp
  have "splayed cmp elm node (lft, rgt) m fs (Node (Node ll a lr) b r) gs (Node x d (Node y a (Node lr b r)))"
    by (rule splayed_step [OF _ ih m1(3)]) (use m1(1) in auto)
  then show ?case using splay_tree_left(1) [of c b a ll, OF LL(1-3) s] by simp
next
  case (L ll a lr b r)
  obtain x d y where s: "splay_tree c (Node ll a lr) = Node x d y" using splay_tree_Node tree.simps(3) .
  obtain m1 where m1: "SPLAY_turn cmp elm (lft, rgt) (m, b) = Some (Inl ((lft, b), m1, sroot (Node ll a lr)))"
    "splitting m1 node fs (Node ll a lr) (gs @ [(r, b)]) (lft, b)"
    "same_outside (set (all_nodes node fs (Node (Node ll a lr) b r) gs)) m m1"
    using turn_left [OF L(4) refl, of cmp elm c] L by auto
  have ih: "splayed cmp elm node (lft, b) m1 fs (Node ll a lr) (gs @ [(r, b)]) (Node x d y)"
    using L.IH [OF m1(2)] L(6) s by simp
  have "splayed cmp elm node (lft, rgt) m fs (Node (Node ll a lr) b r) gs (Node x d (Node y b r))"
    by (rule splayed_step [OF _ ih m1(3)]) (use m1(1) in auto)
  then show ?case using splay_tree_left(2) [of c b a ll, OF L(1-2) s] by simp
next
  case (EndR l b rl a)
  from turn_end_right [OF EndR(3), of cmp elm c] EndR show ?case
    by (auto simp: splay_tree_end intro!: splayed_stop)
next
  case (RR l b rl a rr)
  obtain x d y where s: "splay_tree c rr = Node x d y" using splay_tree_Node RR(3) .
  obtain m1 where m1: "SPLAY_turn cmp elm (lft, rgt) (m, b) = Some (Inl ((a, rgt), m1, sroot rr))"
    "splitting m1 node (fs @ [(Node l b rl, a)]) rr gs (a, rgt)"
    "same_outside (set (all_nodes node fs (Node l b (Node rl a rr)) gs)) m m1"
    using turn_right_right [OF RR(5) RR(3), of cmp elm c] RR by auto
  have ih: "splayed cmp elm node (a, rgt) m1 (fs @ [(Node l b rl, a)]) rr gs (Node x d y)"
    using RR.IH [OF m1(2) RR(3)] RR(7) s by simp
  have "splayed cmp elm node (lft, rgt) m fs (Node l b (Node rl a rr)) gs (Node (Node (Node l b rl) a x) d y)"
    by (rule splayed_step [OF _ ih m1(3)]) (use m1(1) in auto)
  then show ?case using splay_tree_right(1) [of c b a rr, OF RR(1-3) s] by simp
next
  case (R l b rl a rr)
  obtain x d y where s: "splay_tree c (Node rl a rr) = Node x d y" using splay_tree_Node tree.simps(3) .
  obtain m1 where m1: "SPLAY_turn cmp elm (lft, rgt) (m, b) = Some (Inl ((b, rgt), m1, sroot (Node rl a rr)))"
    "splitting m1 node (fs @ [(l, b)]) (Node rl a rr) gs (b, rgt)"
    "same_outside (set (all_nodes node fs (Node l b (Node rl a rr)) gs)) m m1"
    using turn_right [OF R(4) refl, of cmp elm c] R by auto
  have ih: "splayed cmp elm node (b, rgt) m1 (fs @ [(l, b)]) (Node rl a rr) gs (Node x d y)"
    using R.IH [OF m1(2)] R(6) s by simp
  have "splayed cmp elm node (lft, rgt) m fs (Node l b (Node rl a rr)) gs (Node (Node l b x) d y)"
    by (rule splayed_step [OF _ ih m1(3)]) (use m1(1) in auto)
  then show ?case using splay_tree_right(2) [of c b a rl, OF R(1-2) s] by simp
qed simp

end
