(* ===== verification/Ut_Splay_Ops.thy ===== *)
theory Ut_Splay_Ops
  imports Ut_Splay
begin

text \<open>
  The operations of the splay tree against the sequence of its nodes in key order, and the
  interpretation of the contract \<open>ordered_index\<close>.
\<close>

subsection \<open>Represented trees\<close>

definition sptree :: "sp_mem \<Rightarrow> ptr \<Rightarrow> ptr tree \<Rightarrow> bool" where
  "sptree m root t \<longleftrightarrow> root = sroot t \<and> distinct (inorder t) \<and> NULL \<notin> set_tree t \<and>
     set_tree t \<subseteq> dom m \<and> stree (lf m) (rf m) t"

text \<open>An address that a call can use for its local structure.\<close>

definition free_slot :: "sp_mem \<Rightarrow> ptr \<Rightarrow> bool" where
  "free_slot m node \<longleftrightarrow> node \<noteq> NULL \<and> m node = None"

lemma free_slot_same: "same_outside A m m' \<Longrightarrow> free_slot m' = free_slot m"
  unfolding fun_eq_iff free_slot_def same_outside_def by (metis domIff)

lemma fields_cong: "m' a = m a \<Longrightarrow> lf m' a = lf m a \<and> rf m' a = rf m a"
  by (simp add: lf_def rf_def)

lemma sptree_cong:
  assumes "sptree m root t" "\<And>x. x \<in> set_tree t \<Longrightarrow> m' x = m x"
  shows "sptree m' root t"
proof -
  have "stree (lf m') (rf m') t = stree (lf m) (rf m) t"
    by (rule stree_cong, rule fields_cong) (simp add: assms(2))
  moreover have "set_tree t \<subseteq> dom m'"
  proof
    fix x assume x: "x \<in> set_tree t"
    then have "x \<in> dom m" using assms(1) by (auto simp: sptree_def)
    then show "x \<in> dom m'" using assms(2) [OF x] by (metis domIff)
  qed
  ultimately show ?thesis using assms(1) by (simp add: sptree_def)
qed

lemma sptree_start:
  assumes "sptree m root t" "free_slot m node"
  shows "splitting (m(node \<mapsto> e)) node [] t [] (node, node)"
proof -
  have n: "node \<notin> set_tree t" "node \<noteq> NULL" using assms by (auto simp: sptree_def free_slot_def)
  have "sptree (m(node \<mapsto> e)) root t" by (rule sptree_cong [OF assms(1)]) (use n(1) in auto)
  with n show ?thesis by (simp add: splitting_def sptree_def subset_insertI2)
qed

text \<open>A finished loop gives a represented tree, and the local structure is gone.\<close>

lemma sptree_finish:
  assumes "splayed cmp elm node (node, node) (m(node \<mapsto> e)) [] t [] t'" "sptree m root t" "free_slot m node"
    "inorder t' = inorder t"
  shows "\<exists>m'. splay_rest cmp elm node (node, node) (m(node \<mapsto> e), root) = Some (m', sroot t') \<and>
    sptree (m'(node := None)) (sroot t') t' \<and> same_outside (set_tree t) m (m'(node := None))"
proof -
  have nt: "node \<notin> set_tree t" using assms(2,3) by (auto simp: sptree_def free_slot_def)
  obtain m' where m': "splay_rest cmp elm node (node, node) (m(node \<mapsto> e), root) = Some (m', sroot t')"
    "stree (lf m') (rf m') t'" "same_outside (insert node (set_tree t)) (m(node \<mapsto> e)) m'"
    using assms(1,2) by (auto simp: splayed_def sptree_def)
  have set: "set_tree t' = set_tree t" using assms(4) by (metis set_inorder)
  have out: "same_outside (set_tree t) m (m'(node := None))"
    using m'(3) assms(3) unfolding same_outside_def free_slot_def
    by (auto simp: set_eq_iff dom_def)
  have "dom m' = insert node (dom m)" using m'(3) by (simp add: same_outside_def)
  then have "sptree m' (sroot t') t'"
    using m'(2) assms(2,4) set by (auto simp: sptree_def)
  then have "sptree (m'(node := None)) (sroot t') t'"
    by (rule sptree_cong) (use nt set in auto)
  with m'(1) out show ?thesis by blast
qed

lemma SPLAY_at:
  assumes "sptree m root t" "t \<noteq> Leaf" "free_slot m node" "\<forall>a \<in> set_tree t. cmp elm a = Some (c a)"
  shows "\<exists>m'. SPLAY node cmp elm (m, root) = Some (m', sroot (splay_tree c t)) \<and>
    sptree m' (sroot (splay_tree c t)) (splay_tree c t) \<and> same_outside (set_tree t) m m'"
proof -
  let ?e = "\<lparr>spe_left = NULL, spe_right = NULL\<rparr>"
  have "splayed cmp elm node (node, node) (m(node \<mapsto> ?e)) [] t [] (splay_tree c t)"
    by (rule splay_at [OF sptree_start [OF assms(1,3)] assms(2)]) (rule assms(4))
  from sptree_finish [OF this assms(1,3)] obtain m' where
    "splay_rest cmp elm node (node, node) (m(node \<mapsto> ?e), root) = Some (m', sroot (splay_tree c t))"
    "sptree (m'(node := None)) (sroot (splay_tree c t)) (splay_tree c t)"
    "same_outside (set_tree t) m (m'(node := None))"
    by auto
  then show ?thesis by (auto simp: SPLAY_def split: bind_splits)
qed

text \<open>
  \<^verbatim>\<open>SPLAY_MINMAX\<close> is \<^verbatim>\<open>SPLAY\<close> with a comparison that always goes the same way; with the argument 0 its loop
  does not end.
\<close>

lemma MINMAX_loop:
  assumes "k \<noteq> 0"
  shows "SPLAY_MINMAX_loop k = SPLAY_loop (\<lambda>_ _. Some k) elm"
proof -
  have "SPLAY_MINMAX_turn k = SPLAY_turn (\<lambda>_ _. Some k) elm"
    using assms by (auto simp: fun_eq_iff SPLAY_MINMAX_turn_def SPLAY_turn_def)
  then show ?thesis by (simp add: SPLAY_MINMAX_loop_def SPLAY_loop_def)
qed

lemma splay_while_idle: "splay_while (\<lambda>lr h. Some (Inl (lr, h))) lr h = None" (is "splay_while ?t lr h = None")
proof (rule ccontr)
  assume "splay_while ?t lr h \<noteq> None"
  then obtain s where "splay_while ?t lr h = Some s" by blast
  then have "?t \<noteq> ?t"
  proof (rule splay_while.raw_induct [where P = "\<lambda>t lr h s. t \<noteq> ?t", rotated])
    fix f t and lr :: "ptr \<times> ptr" and h :: sp_head and s
    assume ih: "\<And>t lr h s. f t lr h = Some s \<Longrightarrow> t \<noteq> ?t"
      and body: "(case t lr h of None \<Rightarrow> None | Some (Inl (lr', h')) \<Rightarrow> f t lr' h' | Some (Inr s) \<Rightarrow> Some s) = Some s"
    show "t \<noteq> ?t"
    proof
      assume "t = ?t"
      moreover from this have "f t lr h = Some s" using body by simp
      ultimately show False using ih by blast
    qed
  qed
  then show False by simp
qed

lemma SPLAY_MINMAX_at:
  assumes "sptree m root t" "t \<noteq> Leaf" "free_slot m node" "k \<noteq> 0"
  shows "\<exists>m'. SPLAY_MINMAX node k (m, root) = Some (m', sroot (splay_tree (\<lambda>_. k) t)) \<and>
    sptree m' (sroot (splay_tree (\<lambda>_. k) t)) (splay_tree (\<lambda>_. k) t) \<and> same_outside (set_tree t) m m'"
proof -
  have "SPLAY_MINMAX node k (m, root) = SPLAY node (\<lambda>_ _. Some k) node (m, root)"
    by (simp add: SPLAY_MINMAX_def SPLAY_def MINMAX_loop [OF assms(4), of node])
  with SPLAY_at [OF assms(1-3), of "\<lambda>_ _. Some k" node "\<lambda>_. k"] show ?thesis by simp
qed

lemma SPLAY_MINMAX_zero: "SPLAY_MINMAX node 0 h = None"
proof -
  have "SPLAY_MINMAX_turn 0 = (\<lambda>lr h. Some (Inl (lr, h)))" by (simp add: fun_eq_iff SPLAY_MINMAX_turn_def)
  then show ?thesis by (cases h) (simp add: SPLAY_MINMAX_def SPLAY_MINMAX_loop_def splay_while_idle)
qed

subsection \<open>Trees in key order\<close>

definition splaytree :: "ptr \<Rightarrow> (ptr \<Rightarrow> 'k::linorder) \<Rightarrow> sp_mem \<Rightarrow> ptr \<Rightarrow> ptr list \<Rightarrow> bool" where
  "splaytree node key m root xs \<longleftrightarrow>
     free_slot m node \<and> (\<exists>t. sptree m root t \<and> inorder t = xs) \<and> sorted_by key xs"

definition sp_slot :: "sp_mem \<Rightarrow> ptr \<Rightarrow> bool" where
  "sp_slot m a \<longleftrightarrow> a \<noteq> NULL \<and> a \<in> dom m"

lemma splaytree_step:
  assumes "splaytree node key m root xs" "same_outside A m m'" "sptree m' root' t" "inorder t = ys"
    "sorted_by key ys"
  shows "splaytree node key m' root' ys"
  using assms(1,3,4,5) free_slot_same [OF assms(2)] by (auto simp: splaytree_def)

lemma splaytree_empty: "free_slot m node \<Longrightarrow> splaytree node key m NULL []"
  unfolding splaytree_def by (auto intro!: exI [of _ Leaf] simp: sptree_def)

lemma splaytree_sorted: "splaytree node key m root xs \<Longrightarrow> sorted_by key xs"
  by (simp add: splaytree_def)

lemma splaytree_NULL: "splaytree node key m root xs \<Longrightarrow> NULL \<notin> set xs"
  by (auto simp: splaytree_def sptree_def)

lemma splaytree_root: "splaytree node key m root xs \<Longrightarrow> root = NULL \<longleftrightarrow> xs = []"
  using sroot_NULL by (auto simp: splaytree_def sptree_def)

lemma splaytree_slot: "splaytree node key m root xs \<Longrightarrow> a \<in> set xs \<Longrightarrow> sp_slot m a"
  using splaytree_NULL [of node key m root xs]
  by (cases "a = NULL") (auto simp: splaytree_def sptree_def sp_slot_def simp del: domIff)

lemma splaytree_frames:
  assumes "same_outside A m m'"
  shows "sp_slot m' = sp_slot m"
    "\<forall>key' q ys. splaytree node key' m q ys \<longrightarrow> set ys \<inter> A = {} \<longrightarrow> splaytree node key' m' q ys"
proof -
  show "sp_slot m' = sp_slot m" using assms by (simp add: same_outside_def sp_slot_def fun_eq_iff)
  show "\<forall>key' q ys. splaytree node key' m q ys \<longrightarrow> set ys \<inter> A = {} \<longrightarrow> splaytree node key' m' q ys"
  proof (intro allI impI)
    fix key' q ys
    assume "splaytree node key' m q ys" and dis: "set ys \<inter> A = {}"
    then obtain t where t: "sptree m q t" "inorder t = ys" "free_slot m node" "sorted_by key' ys"
      by (auto simp: splaytree_def)
    have "sptree m' q t"
      by (rule sptree_cong [OF t(1)]) (rule same_outsideD [OF assms], use t(2) dis in auto)
    with t free_slot_same [OF assms] show "splaytree node key' m' q ys" by (auto simp: splaytree_def)
  qed
qed

lemma cmp_agrees:
  assumes "sorted_by key xs" "cmp_by cmp key elm k (set xs)"
  shows "agrees (\<lambda>a. the (cmp elm a)) xs"
  unfolding agrees_def
proof (rule sorted_wrt_mono_rel [OF _ assms(1)])
  fix a b assume "a \<in> set xs" "b \<in> set xs" "key a < key b"
  then obtain v w where "cmp elm a = Some v" "0 < v \<longleftrightarrow> key a < k" "cmp elm b = Some w" "w < 0 \<longleftrightarrow> k < key b"
    using assms(2) unfolding cmp_by_def by blast
  with \<open>key a < key b\<close> show "0 < the (cmp elm a) \<or> the (cmp elm b) < 0" by auto
qed

text \<open>Splaying brings the key to the root, or one of its neighbours when it is not there.\<close>

lemma splay_split:
  assumes "splaytree node key m root xs" "xs \<noteq> []" "cmp_by cmp key elm k (set xs)"
  obtains m' x d y v where "SPLAY node cmp elm (m, root) = Some (m', d)" "sptree m' d (Node x d y)"
    "xs = inorder x @ d # inorder y" "\<forall>a \<in> set_tree x. key a < k" "\<forall>a \<in> set_tree y. k < key a"
    "same_outside (set xs) m m'" "cmp elm d = Some v" "v < 0 \<longleftrightarrow> k < key d" "0 < v \<longleftrightarrow> key d < k"
proof -
  let ?c = "\<lambda>a. the (cmp elm a)"
  obtain t where t: "sptree m root t" "inorder t = xs" "free_slot m node" "sorted_by key xs"
    using assms(1) by (auto simp: splaytree_def)
  have ne: "t \<noteq> Leaf" using t(2) assms(2) by auto
  have set: "set_tree t = set xs" using t(2) by auto
  have c: "\<forall>a \<in> set_tree t. cmp elm a = Some (?c a)"
    using assms(3) set by (fastforce simp: cmp_by_def)
  obtain x d y where s: "splay_tree ?c t = Node x d y" using splay_tree_Node ne .
  then have xs: "xs = inorder x @ d # inorder y" using inorder_splay_tree [of ?c t] t(2) by simp
  obtain m' where m': "SPLAY node cmp elm (m, root) = Some (m', d)" "sptree m' d (Node x d y)"
    "same_outside (set xs) m m'"
    using SPLAY_at [OF t(1) ne t(3), of cmp elm ?c] c s set by auto
  have "agrees ?c (inorder t)" using cmp_agrees [OF t(4) assms(3)] t(2) by simp
  from splay_tree_splits [OF this s]
  have sides: "\<forall>a \<in> set_tree x. 0 < ?c a" "\<forall>a \<in> set_tree y. ?c a < 0" by auto
  have cmp: "\<exists>v. cmp elm a = Some v \<and> (v < 0 \<longleftrightarrow> k < key a) \<and> (0 < v \<longleftrightarrow> key a < k)" if "a \<in> set xs" for a
    using assms(3) that by (simp add: cmp_by_def)
  have "\<forall>a \<in> set_tree x. key a < k" "\<forall>a \<in> set_tree y. k < key a"
    using sides cmp xs by fastforce+
  moreover obtain v where "cmp elm d = Some v" "v < 0 \<longleftrightarrow> k < key d" "0 < v \<longleftrightarrow> key d < k"
    using cmp [of d] xs by auto
  ultimately show thesis using that m' xs by blast
qed

lemma insort_middle:
  "\<forall>b \<in> set us. key b < key a \<Longrightarrow> \<forall>b \<in> set vs. key a < key b \<Longrightarrow>
   insort_key key a (us @ vs) = us @ a # vs"
proof (induction us)
  case Nil
  then show ?case by (cases vs) auto
next
  case (Cons u us)
  then show ?case by (auto simp: leD)
qed

subsection \<open>Insertion\<close>

lemma new_root_below:
  assumes "sptree m d (Node x d y)" "a \<notin> set_tree (Node x d y)" "sp_slot m a"
  shows "sptree (setL d NULL (setR a d (setL a (lf m d) m))) a (Node x a (Node Leaf d y))"
    "same_outside {a, d} m (setL d NULL (setR a d (setL a (lf m d) m)))"
proof -
  note s = assms [unfolded sptree_def sp_slot_def, simplified]
  show "sptree (setL d NULL (setR a d (setL a (lf m d) m))) a (Node x a (Node Leaf d y))"
    using s by (auto simp: sptree_def)
  show "same_outside {a, d} m (setL d NULL (setR a d (setL a (lf m d) m)))"
    using s by (auto simp: same_outside_def setL_def setR_def)
qed

lemma new_root_above:
  assumes "sptree m d (Node x d y)" "a \<notin> set_tree (Node x d y)" "sp_slot m a"
  shows "sptree (setR d NULL (setL a d (setR a (rf m d) m))) a (Node (Node x d Leaf) a y)"
    "same_outside {a, d} m (setR d NULL (setL a d (setR a (rf m d) m)))"
proof -
  note s = assms [unfolded sptree_def sp_slot_def, simplified]
  show "sptree (setR d NULL (setL a d (setR a (rf m d) m))) a (Node (Node x d Leaf) a y)"
    using s by (auto simp: sptree_def)
  show "same_outside {a, d} m (setR d NULL (setL a d (setR a (rf m d) m)))"
    using s by (auto simp: same_outside_def setL_def setR_def)
qed

lemma insert_into_empty:
  assumes "sp_slot m a"
  shows "SPLAY_INSERT node cmp a (m, NULL) = Some (NULL, setL a NULL (setR a NULL m), a)"
    "sptree (setL a NULL (setR a NULL m)) a (Node Leaf a Leaf)"
    "same_outside {a} m (setL a NULL (setR a NULL m))"
  using assms by (auto simp: SPLAY_INSERT_def SPLAY_EMPTY_def sp_slot_def sptree_def same_outside_def
      setL_def [of a _ "setR a NULL m"] setR_def lf_def rf_def)

lemma splay_insert:
  assumes "splaytree node key m root xs" "sp_slot m a" "cmp_by cmp key a (key a) (set xs)"
    and "\<forall>x \<in> set xs. key x \<noteq> key a"
  shows "\<exists>m'. SPLAY_INSERT node cmp a (m, root) = Some (NULL, m', a) \<and>
    splaytree node key m' a (insort_key key a xs) \<and> same_outside (insert a (set xs)) m m'"
proof (cases "xs = []")
  case True
  then have "root = NULL" using splaytree_root [OF assms(1)] by simp
  moreover have "splaytree node key (setL a NULL (setR a NULL m)) a [a]"
    using splaytree_step [OF assms(1) insert_into_empty(3) [OF assms(2)] insert_into_empty(2) [OF assms(2)]]
    by simp
  ultimately show ?thesis using True insert_into_empty(1,3) [OF assms(2)] by simp
next
  case False
  then have root: "\<not> SPLAY_EMPTY root" using splaytree_root [OF assms(1)] by (simp add: SPLAY_EMPTY_def)
  obtain m1 x d y v where m1: "SPLAY node cmp a (m, root) = Some (m1, d)" "sptree m1 d (Node x d y)"
    "xs = inorder x @ d # inorder y" "\<forall>b \<in> set_tree x. key b < key a" "\<forall>b \<in> set_tree y. key a < key b"
    "same_outside (set xs) m m1" "cmp a d = Some v" "v < 0 \<longleftrightarrow> key a < key d" "0 < v \<longleftrightarrow> key d < key a"
    using splay_split [OF assms(1) False assms(3)] .
  have a: "a \<notin> set_tree (Node x d y)" using assms(4) m1(3) by auto
  have slot: "sp_slot m1 a" using assms(2) splaytree_frames(1) [OF m1(6)] by simp
  have d: "d \<in> dom m1" "d \<noteq> NULL" "a \<noteq> d" using m1(2) a by (auto simp: sptree_def)
  have sub: "same_outside (insert a (set xs)) m m'" if "same_outside {a, d} m1 m'" for m'
    using same_outside_mono [OF m1(6), of "insert a (set xs)"] same_outside_mono [OF that, of "insert a (set xs)"]
      m1(3) same_outside_trans by fastforce
  have sorted: "sorted_by key (insort_key key a xs)"
    using sorted_by_insort [OF splaytree_sorted [OF assms(1)] assms(4)] .
  consider "v < 0" | "0 < v" using m1(3,8,9) assms(4) by (metis in_set_conv_decomp linorder_neqE)
  then show ?thesis
  proof cases
    case 1
    note new = new_root_below [OF m1(2) a slot]
    have ins: "inorder (Node x a (Node Leaf d y)) = insort_key key a xs"
      using insort_middle [of "inorder x" key a "d # inorder y"] m1(3,4,5,8) 1 by simp
    note sub [OF new(2)] splaytree_step [OF assms(1) sub [OF new(2)] new(1) ins sorted]
    with 1 root m1(1,7) d slot show ?thesis by (auto simp: SPLAY_INSERT_def sp_slot_def)
  next
    case 2
    note new = new_root_above [OF m1(2) a slot]
    have ins: "inorder (Node (Node x d Leaf) a y) = insort_key key a xs"
      using insort_middle [of "inorder x @ [d]" key a "inorder y"] m1(3,4,5,9) 2 by simp
    note sub [OF new(2)] splaytree_step [OF assms(1) sub [OF new(2)] new(1) ins sorted]
    with 2 root m1(1,7) d slot show ?thesis by (auto simp: SPLAY_INSERT_def sp_slot_def)
  qed
qed

lemma splay_insert_present:
  assumes "splaytree node key m root xs" "cmp_by cmp key a (key a) (set xs)" "b \<in> set xs" "key b = key a"
  shows "\<exists>m'. SPLAY_INSERT node cmp a (m, root) = Some (b, m', b) \<and>
    splaytree node key m' b xs \<and> same_outside (set xs) m m'"
proof -
  have ne: "xs \<noteq> []" using assms(3) by auto
  then have root: "\<not> SPLAY_EMPTY root" using splaytree_root [OF assms(1)] by (simp add: SPLAY_EMPTY_def)
  obtain m1 x d y v where m1: "SPLAY node cmp a (m, root) = Some (m1, d)" "sptree m1 d (Node x d y)"
    "xs = inorder x @ d # inorder y" "\<forall>b \<in> set_tree x. key b < key a" "\<forall>b \<in> set_tree y. key a < key b"
    "same_outside (set xs) m m1" "cmp a d = Some v" "v < 0 \<longleftrightarrow> key a < key d" "0 < v \<longleftrightarrow> key d < key a"
    using splay_split [OF assms(1) ne assms(2)] .
  have "b = d" using assms(3,4) m1(3-5) by auto
  moreover have "splaytree node key m1 d xs"
    using splaytree_step [OF assms(1) m1(6,2)] m1(3) splaytree_sorted [OF assms(1)] by simp
  ultimately show ?thesis using m1 root assms(4) by (auto simp: SPLAY_INSERT_def)
qed

subsection \<open>Removal\<close>

lemma sptree_subtrees:
  "sptree m d (Node x d y) \<Longrightarrow> sptree m (sroot x) x" "sptree m d (Node x d y) \<Longrightarrow> sptree m (sroot y) y"
  by (auto simp: sptree_def)

text \<open>A second splay of the left subtree for the same key brings its greatest node up.\<close>

lemma splay_again:
  assumes "splaytree node key m d xs" "sptree m d (Node x d y)" "xs = inorder x @ d # inorder y" "x \<noteq> Leaf"
    and "cmp_by cmp key elm k (set xs)" "\<forall>a \<in> set_tree x. key a < k"
  shows "\<exists>m' x' e. SPLAY node cmp elm (m, sroot x) = Some (m', e) \<and> e \<in> dom m' \<and> e \<noteq> NULL \<and>
    sptree (setR e (sroot y) m') e (Node x' e y) \<and> inorder x' @ [e] = inorder x \<and>
    same_outside (set xs) m (setR e (sroot y) m')"
proof -
  have sorted: "sorted_by key (inorder x)" using splaytree_sorted [OF assms(1)] assms(3) by (simp add: sorted_wrt_append)
  then have sub: "splaytree node key m (sroot x) (inorder x)"
    using splaytree_step [OF assms(1) same_outside_refl sptree_subtrees(1) [OF assms(2)]] by blast
  have "cmp_by cmp key elm k (set (inorder x))" using assms(3,5) by (auto simp: cmp_by_def)
  moreover have "inorder x \<noteq> []" using assms(4) by (cases x) auto
  ultimately obtain m' x' e y' where m': "SPLAY node cmp elm (m, sroot x) = Some (m', e)"
    "sptree m' e (Node x' e y')" "inorder x = inorder x' @ e # inorder y'" "\<forall>a \<in> set_tree y'. k < key a"
    "same_outside (set (inorder x)) m m'"
    using splay_split [OF sub] by metis
  have "set_tree y' \<subseteq> set_tree x" using m'(3) by (metis set_inorder set_append Un_upper2 subset_trans set_subset_Cons)
  then have y': "y' = Leaf" using assms(6) m'(4) by (cases y') force+
  have set: "set_tree x = insert e (set_tree x')" using m'(3) y' by (metis Un_insert_right inorder.simps(1) list.set(1)
      list.simps(15) set_append set_inorder sup_bot_right)
  have "distinct (inorder x @ d # inorder y)" using assms(2) by (simp add: sptree_def)
  then have dis: "set_tree x \<inter> set_tree y = {}" by auto
  have "sptree m' (sroot y) y"
    by (rule sptree_cong [OF sptree_subtrees(2) [OF assms(2)]], rule same_outsideD [OF m'(5)]) (use dis in auto)
  then have "sptree (setR e (sroot y) m') e (Node x' e y)"
    using m'(2) y' set dis by (auto simp: sptree_def)
  moreover have e: "e \<in> dom m'" "e \<noteq> NULL" using m'(2) by (auto simp: sptree_def)
  moreover have "same_outside (set xs) m (setR e (sroot y) m')"
  proof (rule same_outside_trans)
    show "same_outside (set xs) m m'" by (rule same_outside_mono [OF m'(5)]) (use assms(3) in auto)
    show "same_outside (set xs) m' (setR e (sroot y) m')"
      by (rule same_outside_set(2)) (use e assms(3) set in auto)
  qed
  ultimately show ?thesis using m'(1,3) y' by auto
qed

lemma splay_remove:
  assumes "splaytree node key m root xs" "cmp_by cmp key a k (set xs)" "b \<in> set xs" "key b = k"
  shows "\<exists>m' root'. SPLAY_REMOVE node cmp a (m, root) = Some (a, m', root') \<and>
    splaytree node key m' root' (remove1 b xs) \<and> same_outside (set xs) m m'"
proof -
  have ne: "xs \<noteq> []" using assms(3) by auto
  then have root: "\<not> SPLAY_EMPTY root" using splaytree_root [OF assms(1)] by (simp add: SPLAY_EMPTY_def)
  obtain m1 x d y v where m1: "SPLAY node cmp a (m, root) = Some (m1, d)" "sptree m1 d (Node x d y)"
    "xs = inorder x @ d # inorder y" "\<forall>b \<in> set_tree x. key b < k" "\<forall>b \<in> set_tree y. k < key b"
    "same_outside (set xs) m m1" "cmp a d = Some v" "v < 0 \<longleftrightarrow> k < key d" "0 < v \<longleftrightarrow> key d < k"
    using splay_split [OF assms(1) ne assms(2)] .
  have b: "b = d" using assms(3,4) m1(3-5) by auto
  then have v: "v = 0" using m1(8,9) assms(4) by auto
  have rest: "remove1 b xs = inorder x @ inorder y" using b assms(4) m1(3,4) by (auto simp: remove1_append)
  have sorted: "sorted_by key (remove1 b xs)" using sorted_by_remove1 [OF splaytree_sorted [OF assms(1)]] .
  have d: "d \<in> dom m1" "d \<noteq> NULL" "lf m1 d = sroot x" "rf m1 d = sroot y" "sroot x = NULL \<longleftrightarrow> x = Leaf"
    using m1(2) by (auto simp: sptree_def sroot_NULL)
  show ?thesis
  proof (cases "x = Leaf")
    case True
    with rest have "inorder y = remove1 b xs" by simp
    from splaytree_step [OF assms(1) m1(6) sptree_subtrees(2) [OF m1(2)] this sorted]
    show ?thesis using True root m1(1,6,7) v d by (auto simp: SPLAY_REMOVE_def simp del: domIff)
  next
    case False
    have "splaytree node key m1 d xs"
      using splaytree_step [OF assms(1) m1(6,2)] m1(3) splaytree_sorted [OF assms(1)] by simp
    from splay_again [OF this m1(2,3) False assms(2) m1(4)] obtain m2 x' e where
      m2: "SPLAY node cmp a (m1, sroot x) = Some (m2, e)" "e \<in> dom m2" "e \<noteq> NULL"
      "sptree (setR e (sroot y) m2) e (Node x' e y)" "inorder x' @ [e] = inorder x"
      "same_outside (set xs) m1 (setR e (sroot y) m2)"
      by blast
    have out: "same_outside (set xs) m (setR e (sroot y) m2)"
      using same_outside_trans m1(6) m2(6) by blast
    have "inorder (Node x' e y) = remove1 b xs" using rest m2(5) [symmetric] by simp
    from splaytree_step [OF assms(1) out m2(4) this sorted] show ?thesis
      using False root m1(1,7) m2(1-3) v d out by (auto simp: SPLAY_REMOVE_def simp del: domIff)
  qed
qed

lemma splay_find:
  assumes "splaytree node key m root xs" "cmp_by cmp key a k (set xs)"
  shows "\<exists>m' root'. SPLAY_FIND node cmp a (m, root) = Some (first_of (filter (\<lambda>x. key x = k) xs), m', root') \<and>
    splaytree node key m' root' xs \<and> same_outside (set xs) m m'"
    and "\<forall>x \<in> set xs. key x \<noteq> k \<Longrightarrow>
      \<exists>m' root'. SPLAY_REMOVE node cmp a (m, root) = Some (NULL, m', root') \<and>
        splaytree node key m' root' xs \<and> same_outside (set xs) m m'"
proof -
  have nil: "root = NULL" if "xs = []" using splaytree_root [OF assms(1)] that by simp
  {
    assume ne: "xs \<noteq> []"
    then have root: "\<not> SPLAY_EMPTY root" using splaytree_root [OF assms(1)] by (simp add: SPLAY_EMPTY_def)
    obtain m1 x d y v where m1: "SPLAY node cmp a (m, root) = Some (m1, d)" "sptree m1 d (Node x d y)"
      "xs = inorder x @ d # inorder y" "\<forall>b \<in> set_tree x. key b < k" "\<forall>b \<in> set_tree y. k < key b"
      "same_outside (set xs) m m1" "cmp a d = Some v" "v < 0 \<longleftrightarrow> k < key d" "0 < v \<longleftrightarrow> key d < k"
      using splay_split [OF assms(1) ne assms(2)] .
    have "splaytree node key m1 d xs"
      using splaytree_step [OF assms(1) m1(6,2)] m1(3) splaytree_sorted [OF assms(1)] by simp
    moreover have "filter (\<lambda>x. key x = k) (inorder x) = []" "filter (\<lambda>x. key x = k) (inorder y) = []"
      using m1(4,5) by (fastforce simp: filter_empty_conv)+
    then have "first_of (filter (\<lambda>x. key x = k) xs) = (if v = 0 then d else NULL)"
      using m1(3,8,9) by auto
    ultimately have "\<exists>m1 d v. SPLAY node cmp a (m, root) = Some (m1, d) \<and> cmp a d = Some v \<and>
        splaytree node key m1 d xs \<and> same_outside (set xs) m m1 \<and>
        first_of (filter (\<lambda>x. key x = k) xs) = (if v = 0 then d else NULL) \<and>
        (v = 0 \<longrightarrow> d \<in> set xs \<and> key d = k)"
      using m1 by (intro exI [of _ m1] exI [of _ d] exI [of _ v]) auto
    note root this
  }
  note nonempty = this
  show "\<exists>m' root'. SPLAY_FIND node cmp a (m, root) = Some (first_of (filter (\<lambda>x. key x = k) xs), m', root') \<and>
      splaytree node key m' root' xs \<and> same_outside (set xs) m m'"
    using assms(1) nil nonempty
    by (cases "xs = []") (auto simp: SPLAY_FIND_def SPLAY_EMPTY_def)
  show "\<exists>m' root'. SPLAY_REMOVE node cmp a (m, root) = Some (NULL, m', root') \<and>
      splaytree node key m' root' xs \<and> same_outside (set xs) m m'" if "\<forall>x \<in> set xs. key x \<noteq> k"
    using assms(1) nil nonempty that
    by (cases "xs = []") (fastforce simp: SPLAY_REMOVE_def SPLAY_EMPTY_def)+
qed

subsection \<open>The ends, and walking\<close>

lemma splay_ends:
  assumes "splaytree node key m root xs" "k \<noteq> 0" "xs \<noteq> []"
  shows "\<exists>m' r. SPLAY_MINMAX node k (m, root) = Some (m', r) \<and> splaytree node key m' r xs \<and>
    same_outside (set xs) m m' \<and> (k < 0 \<longrightarrow> r = hd xs) \<and> (0 < k \<longrightarrow> r = last xs)"
proof -
  let ?c = "\<lambda>_ :: ptr. k"
  obtain t where t: "sptree m root t" "inorder t = xs" "free_slot m node"
    using assms(1) by (auto simp: splaytree_def)
  have ne: "t \<noteq> Leaf" using t(2) assms(3) by auto
  obtain x d y where s: "splay_tree ?c t = Node x d y" using splay_tree_Node ne .
  then have xs: "xs = inorder x @ d # inorder y" using inorder_splay_tree [of ?c t] t(2) by simp
  have "agrees ?c (inorder t)" using assms(2) by (auto simp: agrees_def sorted_wrt_iff_nth_less)
  then have "(\<forall>a \<in> set_tree x. 0 < k) \<and> (\<forall>a \<in> set_tree y. k < 0)" by (rule splay_tree_splits [OF _ s])
  then have "0 < k \<or> x = Leaf" "k < 0 \<or> y = Leaf" by (cases x; cases y; auto)+
  moreover obtain m' where m': "SPLAY_MINMAX node k (m, root) = Some (m', d)" "sptree m' d (Node x d y)"
    "same_outside (set xs) m m'"
    using SPLAY_MINMAX_at [OF t(1) ne t(3) assms(2)] s t(2) by auto
  moreover have "splaytree node key m' d xs"
    using splaytree_step [OF assms(1) m'(3,2)] xs splaytree_sorted [OF assms(1)] by simp
  ultimately show ?thesis using xs by auto
qed

lemma splay_min_max:
  assumes "splaytree node key m root xs"
  shows "\<exists>m' root'. SPLAY_MIN node (m, root) = Some (first_of xs, m', root') \<and>
      splaytree node key m' root' xs \<and> same_outside (set xs) m m'"
    "\<exists>m' root'. SPLAY_MAX node (m, root) = Some (last_of xs, m', root') \<and>
      splaytree node key m' root' xs \<and> same_outside (set xs) m m'"
proof -
  have root: "SPLAY_EMPTY root \<longleftrightarrow> xs = []" using splaytree_root [OF assms] by (simp add: SPLAY_EMPTY_def)
  show "\<exists>m' root'. SPLAY_MIN node (m, root) = Some (first_of xs, m', root') \<and>
      splaytree node key m' root' xs \<and> same_outside (set xs) m m'"
    using splay_ends [OF assms, of "-1"] assms root
    by (cases xs) (auto simp: SPLAY_MIN_def SPLAY_MIN_MAX_def)
  show "\<exists>m' root'. SPLAY_MAX node (m, root) = Some (last_of xs, m', root') \<and>
      splaytree node key m' root' xs \<and> same_outside (set xs) m m'"
    using splay_ends [OF assms, of 1] assms root
    by (cases xs) (auto simp: SPLAY_MAX_def SPLAY_MIN_MAX_def last_of_def)
qed

lemma splay_leftmost_at:
  assumes "sptree m (sroot t) t" "t \<noteq> Leaf"
  shows "splay_leftmost m (sroot t) = Some (hd (inorder t))"
  using assms
proof (induction t)
  case (Node l a r)
  have l: "sptree m (sroot l) l" using sptree_subtrees(1) [of m a l r] Node.prems(1) by simp
  have a: "a \<in> dom m" "a \<noteq> NULL" "lf m a = sroot l" "sroot l = NULL \<longleftrightarrow> l = Leaf"
    using Node.prems(1) by (auto simp: sptree_def sroot_NULL)
  show ?case
  proof (cases "l = Leaf")
    case True
    with a show ?thesis by (simp add: splay_leftmost.simps [of m a])
  next
    case False
    then have "inorder l \<noteq> []" by (cases l) auto
    with False Node.IH(1) [OF l] a show ?thesis by (simp add: splay_leftmost.simps [of m a])
  qed
qed simp

lemma splay_next:
  assumes "splaytree node key m root (us @ a # vs)" "cmp_by cmp key a (key a) (set (us @ a # vs))"
  shows "\<exists>m' root'. SPLAY_NEXT node cmp a (m, root) = Some (first_of vs, m', root') \<and>
    splaytree node key m' root' (us @ a # vs) \<and> same_outside (set (us @ a # vs)) m m'"
proof -
  let ?xs = "us @ a # vs"
  obtain m1 x d y v where m1: "SPLAY node cmp a (m, root) = Some (m1, d)" "sptree m1 d (Node x d y)"
    "?xs = inorder x @ d # inorder y" "\<forall>b \<in> set_tree x. key b < key a" "\<forall>b \<in> set_tree y. key a < key b"
    "same_outside (set ?xs) m m1"
    using splay_split [OF assms(1) _ assms(2)] by (metis append_is_Nil_conv list.discI)
  have notin: "a \<notin> set_tree x" "a \<notin> set_tree y" using m1(4,5) by auto
  then have d: "d = a"
    using m1(3) by (metis Un_iff in_set_conv_decomp set_ConsD set_append set_inorder)
  then have "us = inorder x" "vs = inorder y"
    using append_Cons_eq_iff [of a "inorder x" "inorder y" us vs] m1(3) notin by auto
  moreover have "splaytree node key m1 d ?xs"
    using splaytree_step [OF assms(1) m1(6,2)] m1(3) splaytree_sorted [OF assms(1)] by simp
  moreover have "a \<in> dom m1" "a \<noteq> NULL" "rf m1 a = sroot y" "sroot y = NULL \<longleftrightarrow> y = Leaf"
    using m1(2) d by (auto simp: sptree_def sroot_NULL)
  moreover have "splay_leftmost m1 (sroot y) = Some (first_of (inorder y))" if "y \<noteq> Leaf"
    using splay_leftmost_at [OF sptree_subtrees(2) [OF m1(2)] that] that
    by (cases y; cases "inorder y") auto
  ultimately show ?thesis using m1(1,6) d
    by (cases "y = Leaf") (auto simp: SPLAY_NEXT_def simp del: domIff)
qed

lemma splay_foreach_loop:
  assumes "splaytree node key m root (us @ vs)" "\<forall>a \<in> set (us @ vs). cmp_by cmp key a (key a) (set (us @ vs))"
  shows "\<exists>h. SPLAY_FOREACH_loop node cmp (first_of vs) (m, root) = Some (vs, h) \<and>
    splaytree node key (fst h) (snd h) (us @ vs)"
  using assms
proof (induction vs arbitrary: us m root)
  case Nil
  then show ?case by (auto simp: SPLAY_FOREACH_loop.simps [of node cmp NULL])
next
  case (Cons a vs)
  have "a \<noteq> NULL" using splaytree_NULL [OF Cons.prems(1)] by auto
  moreover obtain m' root' where "SPLAY_NEXT node cmp a (m, root) = Some (first_of vs, m', root')"
    "splaytree node key m' root' (us @ a # vs)"
    using splay_next [OF Cons.prems(1), of cmp] Cons.prems(2) by auto
  ultimately show ?case using Cons.IH [of m' root' "us @ [a]"] Cons.prems(2)
    by (auto simp: SPLAY_FOREACH_loop.simps [of node cmp a])
qed

subsection \<open>The contract of an index\<close>

interpretation spi: ordered_index "splaytree node" sp_slot "SPLAY_INSERT node" "SPLAY_REMOVE node"
  "SPLAY_FIND node" "SPLAY_MIN node" for node
proof
  fix key :: "ptr \<Rightarrow> 'k::linorder" and m root xs a cmp
  assume "splaytree node key m root xs" "sp_slot m a" "cmp_by cmp key a (key a) (set xs)"
    "\<forall>x \<in> set xs. key x \<noteq> key a"
  from splay_insert [OF this] splaytree_frames
  show "\<exists>m' root'. SPLAY_INSERT node cmp a (m, root) = Some (NULL, m', root') \<and>
      splaytree node key m' root' (insort_key key a xs) \<and> sp_slot m' = sp_slot m \<and>
      (\<forall>key' q ys. splaytree node key' m q ys \<longrightarrow> set ys \<inter> insert a (set xs) = {} \<longrightarrow> splaytree node key' m' q ys)"
    by metis
next
  fix key :: "ptr \<Rightarrow> 'k::linorder" and m root xs a cmp b
  assume "splaytree node key m root xs" "cmp_by cmp key a (key a) (set xs)" "b \<in> set xs" "key b = key a"
  from splay_insert_present [OF this] splaytree_frames
  show "\<exists>m' root'. SPLAY_INSERT node cmp a (m, root) = Some (b, m', root') \<and>
      splaytree node key m' root' xs \<and> sp_slot m' = sp_slot m \<and>
      (\<forall>key' q ys. splaytree node key' m q ys \<longrightarrow> set ys \<inter> set xs = {} \<longrightarrow> splaytree node key' m' q ys)"
    by metis
next
  fix key :: "ptr \<Rightarrow> 'k::linorder" and m root xs a cmp
  assume "splaytree node key m root xs" "a \<in> set xs" "cmp_by cmp key a (key a) (set xs)"
  from splay_remove [OF this(1,3,2) refl] splaytree_frames
  show "\<exists>m' root'. SPLAY_REMOVE node cmp a (m, root) = Some (a, m', root') \<and>
      splaytree node key m' root' (remove1 a xs) \<and> sp_slot m' = sp_slot m \<and>
      (\<forall>key' q ys. splaytree node key' m q ys \<longrightarrow> set ys \<inter> set xs = {} \<longrightarrow> splaytree node key' m' q ys)"
    by metis
next
  fix key :: "ptr \<Rightarrow> 'k::linorder" and m root xs cmp and k :: 'k and a :: ptr
  assume "splaytree node key m root xs" "cmp_by cmp key a k (set xs)"
  from splay_find(1) [OF this] splaytree_frames
  show "\<exists>m' root'. SPLAY_FIND node cmp a (m, root) = Some (first_of (filter (\<lambda>x. key x = k) xs), m', root') \<and>
      splaytree node key m' root' xs \<and> sp_slot m' = sp_slot m \<and>
      (\<forall>key' q ys. splaytree node key' m q ys \<longrightarrow> set ys \<inter> set xs = {} \<longrightarrow> splaytree node key' m' q ys)"
    by metis
next
  fix key :: "ptr \<Rightarrow> 'k::linorder" and m root xs
  assume "splaytree node key m root xs"
  from splay_min_max(1) [OF this] splaytree_frames
  show "\<exists>m' root'. SPLAY_MIN node (m, root) = Some (first_of xs, m', root') \<and>
      splaytree node key m' root' xs \<and> sp_slot m' = sp_slot m \<and>
      (\<forall>key' q ys. splaytree node key' m q ys \<longrightarrow> set ys \<inter> set xs = {} \<longrightarrow> splaytree node key' m' q ys)"
    by metis
qed (fact splaytree_sorted splaytree_NULL)+

end
