(* ===== verification/Ut_Trees.thy ===== *)
theory Ut_Trees
  imports Ut_RB Ut_Splay_Ops
begin

text \<open>
  The properties of the splay tree, and of the two trees of \<^verbatim>\<open>tree.h\<close> side by side: a client that uses
  them through the operations of an index cannot tell them apart.
\<close>

subsection \<open>An example\<close>

text \<open>The node 3 with the left child 1, which has the right child 2; the nodes 4 and 5 are allocated.\<close>

definition sp_demo :: sp_mem where
  "sp_demo = [1 \<mapsto> \<lparr>spe_left = NULL, spe_right = 2\<rparr>, 2 \<mapsto> \<lparr>spe_left = NULL, spe_right = NULL\<rparr>,
     3 \<mapsto> \<lparr>spe_left = 1, spe_right = NULL\<rparr>, 4 \<mapsto> \<lparr>spe_left = NULL, spe_right = NULL\<rparr>,
     5 \<mapsto> \<lparr>spe_left = NULL, spe_right = NULL\<rparr>]"

lemma sp_demo_tree: "sptree sp_demo 3 (Node (Node Leaf 1 (Node Leaf 2 Leaf)) 3 Leaf)"
  by (simp add: sptree_def sp_demo_def lf_def rf_def)

lemma sp_demo_free: "free_slot sp_demo 9"
  by (simp add: free_slot_def sp_demo_def)

lemma sp_demo_splaytree: "splaytree 9 demo_key sp_demo 3 [1, 2, 3]"
  unfolding splaytree_def using sp_demo_tree sp_demo_free
  by (auto intro!: exI [of _ "Node (Node Leaf 1 (Node Leaf 2 Leaf)) 3 Leaf"])

lemma sp_demo_slot: "sp_slot sp_demo 4" "sp_slot sp_demo 5" "sp_slot sp_demo 1" "sp_slot sp_demo 2" "sp_slot sp_demo 3"
  by (simp_all add: sp_slot_def sp_demo_def)

subsection \<open>The properties of the splay tree\<close>

text \<open>
  C25: \<^verbatim>\<open>SPLAY\<close> with its temporary node, its rotations and its links computes the function \<open>splay_tree\<close> on the
  tree that the pointers represent, always ends, and leaves every other structure alone; when the
  comparison agrees with the order of the tree, the nodes left of the new root are below the key and
  those right of it are above.
\<close>

theorem SPLAY_refines:
  assumes "sptree m root t" "t \<noteq> Leaf" "free_slot m node" "\<forall>a \<in> set_tree t. cmp elm a = Some (c a)"
  shows "\<exists>m' x d y. SPLAY node cmp elm (m, root) = Some (m', d) \<and> splay_tree c t = Node x d y \<and>
    sptree m' d (Node x d y) \<and> inorder t = inorder x @ d # inorder y \<and> same_outside (set_tree t) m m' \<and>
    (agrees c (inorder t) \<longrightarrow> (\<forall>a \<in> set_tree x. c a > 0) \<and> (\<forall>a \<in> set_tree y. c a < 0))"
proof -
  obtain x d y where s: "splay_tree c t = Node x d y" using splay_tree_Node assms(2) .
  with SPLAY_at [OF assms(1-3), of cmp elm c] assms(4) splay_tree_splits [of c t x d y] inorder_splay_tree [of c t] show ?thesis
    by auto
qed

theorem SPLAY_refines_witness:
  "\<exists>m'. SPLAY 9 demo_cmp 2 (sp_demo, 3) = Some (m', 2) \<and> sptree m' 2 (Node (Node Leaf 1 Leaf) 2 (Node Leaf 3 Leaf))"
  using SPLAY_refines [OF sp_demo_tree _ sp_demo_free, of demo_cmp 2 "\<lambda>a. 2 - int a"]
  by (auto simp: demo_cmp_def splay_tree.simps)

text \<open>
  C26: \<^verbatim>\<open>SPLAY_INSERT\<close> of a new key returns \<^verbatim>\<open>NULL\<close> and leaves a tree that holds the old nodes and the new one
  in key order and has the new one at its root; with a key that is there it returns the node that
  has it, which is now the root, and keeps the nodes.  It always ends, and no entry outside the tree changes.
\<close>

theorem SPLAY_INSERT_inserts:
  assumes "splaytree node key m root xs" "sp_slot m a" "cmp_by cmp key a (key a) (set xs)"
  shows "\<exists>b m' root'. SPLAY_INSERT node cmp a (m, root) = Some (b, m', root') \<and>
    same_outside (insert a (set xs)) m m' \<and>
    (if \<exists>x \<in> set xs. key x = key a
     then b \<in> set xs \<and> key b = key a \<and> root' = b \<and> splaytree node key m' root' xs
     else b = NULL \<and> root' = a \<and> splaytree node key m' root' (insort_key key a xs))"
proof (cases "\<exists>x \<in> set xs. key x = key a")
  case True
  then obtain b where b: "b \<in> set xs" "key b = key a" by blast
  obtain m' where "SPLAY_INSERT node cmp a (m, root) = Some (b, m', b)"
    "splaytree node key m' b xs" "same_outside (set xs) m m'"
    using splay_insert_present [OF assms(1,3) b] by blast
  with True b same_outside_mono [of "set xs" m m' "insert a (set xs)"] show ?thesis by auto
next
  case False
  then obtain m' where "SPLAY_INSERT node cmp a (m, root) = Some (NULL, m', a)"
    "splaytree node key m' a (insort_key key a xs)" "same_outside (insert a (set xs)) m m'"
    using splay_insert [OF assms] by blast
  with False show ?thesis by auto
qed

theorem SPLAY_INSERT_inserts_witness:
  "\<exists>m'. SPLAY_INSERT 9 demo_cmp 4 (sp_demo, 3) = Some (NULL, m', 4) \<and>
    same_outside {1, 2, 3, 4} sp_demo m' \<and> splaytree 9 demo_key m' 4 [1, 2, 3, 4]"
  using SPLAY_INSERT_inserts [OF sp_demo_splaytree sp_demo_slot(1) demo_cmp_by]
  by (simp add: insert_commute)

text \<open>
  C27: \<^verbatim>\<open>SPLAY_REMOVE\<close> takes exactly the node with the key of its argument out of the tree and returns its
  argument; when no node has the key it returns \<^verbatim>\<open>NULL\<close> and keeps the nodes.  It always ends, and no entry
  outside the tree changes.
\<close>

theorem SPLAY_REMOVE_removes:
  assumes "splaytree node key m root xs" "cmp_by cmp key a k (set xs)"
  shows "\<exists>r m' root'. SPLAY_REMOVE node cmp a (m, root) = Some (r, m', root') \<and>
    same_outside (set xs) m m' \<and> splaytree node key m' root' (filter (\<lambda>x. key x \<noteq> k) xs) \<and>
    r = (if \<exists>x \<in> set xs. key x = k then a else NULL)"
proof (cases "\<exists>x \<in> set xs. key x = k")
  case True
  then obtain b where b: "b \<in> set xs" "key b = k" by blast
  have sorted: "sorted_by key xs" by (rule splaytree_sorted [OF assms(1)])
  have "filter (\<lambda>x. b \<noteq> x) xs = filter (\<lambda>x. key x \<noteq> k) xs"
    by (rule filter_cong [OF refl]) (metis sorted_by_inj [OF sorted _ b(1)] b(2))
  then have "remove1 b xs = filter (\<lambda>x. key x \<noteq> k) xs"
    using sorted_by_distinct [OF sorted] by (simp add: distinct_remove1_removeAll removeAll_filter_not_eq)
  with splay_remove [OF assms b] True show ?thesis by auto
next
  case False
  then have "filter (\<lambda>x. key x \<noteq> k) xs = xs" by (auto simp: filter_id_conv)
  with splay_find(2) [OF assms] False show ?thesis by auto
qed

theorem SPLAY_REMOVE_removes_witness:
  "\<exists>r m' root'. SPLAY_REMOVE 9 demo_cmp 2 (sp_demo, 3) = Some (r, m', root') \<and>
    same_outside {1, 2, 3} sp_demo m' \<and> splaytree 9 demo_key m' root' [1, 3] \<and> r = 2"
  using SPLAY_REMOVE_removes [OF sp_demo_splaytree demo_cmp_by, of 2] by simp

text \<open>
  C29: \<^verbatim>\<open>SPLAY_FOREACH\<close>, which splays at every step, visits all nodes once in key order and ends; \<^verbatim>\<open>SPLAY_MAX\<close>
  returns the last of them.  \<^verbatim>\<open>SPLAY_MINMAX\<close> with the argument 0 does not return.
\<close>

theorem SPLAY_walk:
  assumes "splaytree node key m root xs" "\<forall>a \<in> set xs. cmp_by cmp key a (key a) (set xs)"
  shows "(\<exists>h. SPLAY_FOREACH node cmp (m, root) = Some (xs, h) \<and> splaytree node key (fst h) (snd h) xs) \<and>
    (\<exists>h. SPLAY_MAX node (m, root) = Some (last_of xs, h) \<and> splaytree node key (fst h) (snd h) xs) \<and>
    SPLAY_MINMAX node 0 (m, root) = None"
proof -
  obtain m1 root1 where m1: "SPLAY_MIN node (m, root) = Some (first_of xs, m1, root1)"
    "splaytree node key m1 root1 xs"
    using splay_min_max(1) [OF assms(1)] by blast
  then have "\<exists>h. SPLAY_FOREACH node cmp (m, root) = Some (xs, h) \<and> splaytree node key (fst h) (snd h) xs"
    using splay_foreach_loop [of node key m1 root1 "[]" xs cmp] assms(2) by (simp add: SPLAY_FOREACH_def)
  moreover have "\<exists>h. SPLAY_MAX node (m, root) = Some (last_of xs, h) \<and> splaytree node key (fst h) (snd h) xs"
    using splay_min_max(2) [OF assms(1)] by auto
  ultimately show ?thesis using SPLAY_MINMAX_zero by blast
qed

theorem SPLAY_walk_witness:
  "(\<exists>h. SPLAY_FOREACH 9 demo_cmp (sp_demo, 3) = Some ([1, 2, 3], h)) \<and>
   (\<exists>h. SPLAY_MAX 9 (sp_demo, 3) = Some (3, h)) \<and> SPLAY_MINMAX 9 0 (sp_demo, 3) = None"
  using SPLAY_walk [OF sp_demo_splaytree, of demo_cmp] demo_cmp_by by (auto simp: last_of_def)

subsection \<open>The two trees side by side\<close>

text \<open>
  C24: Whatever sequence of insertions, removals of nodes that are in the tree, searches and requests for
  the least node a client makes, on an empty red-black tree and on an empty splay tree it gets the same
  answers, the answers of a sorted list.
\<close>

theorem trees_agree:
  assumes "run_ops (spec_op key) ops [] = Some (rs, xs)"
    and "\<forall>x \<in> set ops. op_args x \<subseteq> U" "\<forall>a \<in> U. rb_slot m a" "\<forall>a \<in> U. sp_slot n a" "free_slot n node"
    and "\<forall>a \<in> U. cmp_by cmp key a (key a) U"
  shows "\<exists>h h'. run_ops (apply_op (RB_INSERT cmp) RB_REMOVE (\<lambda>a. read_only (RB_FIND cmp a)) (read_only RB_MIN))
        ops (m, RB_INIT) = Some (rs, h) \<and> rbtree key (fst h) (snd h) xs \<and>
      run_ops (apply_op (SPLAY_INSERT node cmp) (SPLAY_REMOVE node cmp) (SPLAY_FIND node cmp) (SPLAY_MIN node))
        ops (n, SPLAY_INIT) = Some (rs, h') \<and> splaytree node key (fst h') (snd h') xs"
  using rbi.run_refines [OF rbtree_empty assms(3,6) _ assms(2,1)]
    spi.run_refines [OF splaytree_empty [OF assms(5)] assms(4,6) _ assms(2,1)]
  by (auto simp: RB_INIT_def SPLAY_INIT_def)

theorem trees_agree_witness:
  "\<exists>h h'. run_ops (apply_op (RB_INSERT demo_cmp) RB_REMOVE (\<lambda>a. read_only (RB_FIND demo_cmp a)) (read_only RB_MIN))
        [Ins 2, Ins 3, Ins 1, Del 2, Find 2, Least] (demo_mem, RB_INIT) = Some ([NULL, NULL, NULL, 2, NULL, 1], h) \<and>
      run_ops (apply_op (SPLAY_INSERT 9 demo_cmp) (SPLAY_REMOVE 9 demo_cmp) (SPLAY_FIND 9 demo_cmp) (SPLAY_MIN 9))
        [Ins 2, Ins 3, Ins 1, Del 2, Find 2, Least] (sp_demo, SPLAY_INIT) = Some ([NULL, NULL, NULL, 2, NULL, 1], h')"
proof -
  have spec: "run_ops (spec_op demo_key) [Ins 2, Ins 3, Ins 1, Del 2, Find 2, Least] [] =
      Some ([NULL, NULL, NULL, 2, NULL, 1], [1, 3])"
    by (simp add: Let_def)
  show ?thesis
    using trees_agree [OF spec, of "{1, 2, 3}" demo_mem sp_demo 9 demo_cmp] demo_slot sp_demo_slot sp_demo_free demo_cmp_by
    by (simp del: run_ops.simps One_nat_def) blast
qed

end
