(* ===== verification/Ut_Splay_Cost.thy ===== *)
theory Ut_Splay_Cost
  imports Complex_Main Ut_Trees
begin

text \<open>
  The cost of splaying.  The comment of \<^verbatim>\<open>tree.h\<close> promises that the amortised cost of an access is
  logarithmic.  The cost is the number of turns of the loop of \<^verbatim>\<open>SPLAY\<close>; the potential of a tree is the sum of
  the logarithms of the sizes of its subtrees.  The code splays top-down and, unlike the textbook
  version, links a zig-zag as two single steps; a single step is paid for by the step that follows.
\<close>

subsection \<open>The number of turns\<close>

partial_function (option) splay_count ::
  "(ptr \<times> ptr \<Rightarrow> sp_head \<Rightarrow> ((ptr \<times> ptr) \<times> sp_head + (ptr \<times> ptr) \<times> sp_head) option) \<Rightarrow>
   ptr \<times> ptr \<Rightarrow> sp_head \<Rightarrow> nat option" where
  "splay_count turn lr h =
     (case turn lr h of
        None \<Rightarrow> None
      | Some (Inr s) \<Rightarrow> Some 1
      | Some (Inl (lr', h')) \<Rightarrow> do { n \<leftarrow> splay_count turn lr' h'; Some (Suc n) })"

definition SPLAY_turns :: "ptr \<Rightarrow> sp_cmp \<Rightarrow> ptr \<Rightarrow> sp_head \<Rightarrow> nat option" where
  "SPLAY_turns node cmp elm h =
     splay_count (SPLAY_turn cmp elm) (node, node)
       ((fst h)(node \<mapsto> \<lparr>spe_left = NULL, spe_right = NULL\<rparr>), snd h)"

text \<open>A sequence of searches, with the number of turns of all of them.\<close>

fun find_all :: "ptr \<Rightarrow> sp_cmp \<Rightarrow> ptr list \<Rightarrow> sp_head \<Rightarrow> (nat \<times> ptr list \<times> sp_head) option" where
  "find_all node cmp [] h = Some (0, [], h)"
| "find_all node cmp (e # es) h = do {
     n \<leftarrow> SPLAY_turns node cmp e h;
     (a, h) \<leftarrow> SPLAY_FIND node cmp e h;
     (k, as, h) \<leftarrow> find_all node cmp es h;
     Some (n + k, a # as, h) }"

fun tree_turns :: "(ptr \<Rightarrow> int) \<Rightarrow> ptr tree \<Rightarrow> nat" where
  "tree_turns c Leaf = 0"
| "tree_turns c (Node l b r) =
     (if c b < 0 then
        (case l of
           Leaf \<Rightarrow> 1
         | Node ll a lr \<Rightarrow>
             if c a < 0 then (if ll = Leaf then 1 else Suc (tree_turns c ll)) else Suc (tree_turns c l))
      else if c b > 0 then
        (case r of
           Leaf \<Rightarrow> 1
         | Node rl a rr \<Rightarrow>
             if c a > 0 then (if rr = Leaf then 1 else Suc (tree_turns c rr)) else Suc (tree_turns c r))
      else 1)"

declare tree_turns.simps(2) [simp del]

lemma tree_turns_eqs:
  "\<not> (c b < 0 \<and> l \<noteq> Leaf) \<Longrightarrow> \<not> (c b > 0 \<and> r \<noteq> Leaf) \<Longrightarrow> tree_turns c (Node l b r) = 1"
  "c b < 0 \<Longrightarrow> c a < 0 \<Longrightarrow> tree_turns c (Node (Node Leaf a lr) b r) = 1"
  "c b < 0 \<Longrightarrow> c a < 0 \<Longrightarrow> ll \<noteq> Leaf \<Longrightarrow> tree_turns c (Node (Node ll a lr) b r) = Suc (tree_turns c ll)"
  "c b < 0 \<Longrightarrow> \<not> c a < 0 \<Longrightarrow> tree_turns c (Node (Node ll a lr) b r) = Suc (tree_turns c (Node ll a lr))"
  "c b > 0 \<Longrightarrow> c a > 0 \<Longrightarrow> tree_turns c (Node l b (Node rl a Leaf)) = 1"
  "c b > 0 \<Longrightarrow> c a > 0 \<Longrightarrow> rr \<noteq> Leaf \<Longrightarrow> tree_turns c (Node l b (Node rl a rr)) = Suc (tree_turns c rr)"
  "c b > 0 \<Longrightarrow> \<not> c a > 0 \<Longrightarrow> tree_turns c (Node l b (Node rl a rr)) = Suc (tree_turns c (Node rl a rr))"
  by (auto simp: tree_turns.simps(2) [of c _ b] split: tree.split)

lemma splay_count_turn:
  "turn lr h = Some (Inr s) \<Longrightarrow> splay_count turn lr h = Some 1"
  "turn lr h = Some (Inl (lr', h')) \<Longrightarrow> splay_count turn lr h = do { n \<leftarrow> splay_count turn lr' h'; Some (Suc n) }"
  by (simp_all add: splay_count.simps [of turn lr h])

lemma splay_count_at:
  assumes "splitting m node fs t gs (lft, rgt)" "t \<noteq> Leaf" "\<forall>a \<in> set_tree t. cmp elm a = Some (c a)"
  shows "splay_count (SPLAY_turn cmp elm) (lft, rgt) (m, sroot t) = Some (tree_turns c t)"
  using assms
proof (induction t arbitrary: m fs gs lft rgt rule: splay_induct [where c = c])
  case (Stop l b r)
  then show ?case using splay_count_turn(1) [of "SPLAY_turn cmp elm", OF turn_stop [OF Stop(3), of cmp elm c]] by (simp add: tree_turns_eqs)
next
  case (EndL a lr b r)
  then obtain m1 where "SPLAY_turn cmp elm (lft, rgt) (m, b) = Some (Inr ((lft, rgt), m1, a))"
    using turn_end_left [OF EndL(3), of cmp elm c] by auto
  from splay_count_turn(1) [of "SPLAY_turn cmp elm", OF this] EndL(1,2) show ?case by (simp add: tree_turns_eqs)
next
  case (LL ll a lr b r)
  then obtain m1 where m1: "SPLAY_turn cmp elm (lft, rgt) (m, b) = Some (Inl ((lft, a), m1, sroot ll))"
    "splitting m1 node fs ll (gs @ [(Node lr b r, a)]) (lft, a)"
    using turn_left_left [OF LL(5) LL(3), of cmp elm c] by auto
  from splay_count_turn(2) [of "SPLAY_turn cmp elm", OF m1(1)] LL.IH [OF m1(2)] LL show ?case
    by (simp add: tree_turns_eqs)
next
  case (L ll a lr b r)
  then obtain m1 where m1: "SPLAY_turn cmp elm (lft, rgt) (m, b) = Some (Inl ((lft, b), m1, sroot (Node ll a lr)))"
    "splitting m1 node fs (Node ll a lr) (gs @ [(r, b)]) (lft, b)"
    using turn_left [OF L(4) refl, of cmp elm c] by auto
  from splay_count_turn(2) [of "SPLAY_turn cmp elm", OF m1(1)] L.IH [OF m1(2)] L show ?case
    by (simp add: tree_turns_eqs)
next
  case (EndR l b rl a)
  then obtain m1 where "SPLAY_turn cmp elm (lft, rgt) (m, b) = Some (Inr ((lft, rgt), m1, a))"
    using turn_end_right [OF EndR(3), of cmp elm c] by auto
  from splay_count_turn(1) [of "SPLAY_turn cmp elm", OF this] EndR(1,2) show ?case by (simp add: tree_turns_eqs)
next
  case (RR l b rl a rr)
  then obtain m1 where m1: "SPLAY_turn cmp elm (lft, rgt) (m, b) = Some (Inl ((a, rgt), m1, sroot rr))"
    "splitting m1 node (fs @ [(Node l b rl, a)]) rr gs (a, rgt)"
    using turn_right_right [OF RR(5) RR(3), of cmp elm c] by auto
  from splay_count_turn(2) [of "SPLAY_turn cmp elm", OF m1(1)] RR.IH [OF m1(2)] RR show ?case
    by (simp add: tree_turns_eqs)
next
  case (R l b rl a rr)
  then obtain m1 where m1: "SPLAY_turn cmp elm (lft, rgt) (m, b) = Some (Inl ((b, rgt), m1, sroot (Node rl a rr)))"
    "splitting m1 node (fs @ [(l, b)]) (Node rl a rr) gs (b, rgt)"
    using turn_right [OF R(4) refl, of cmp elm c] by auto
  from splay_count_turn(2) [of "SPLAY_turn cmp elm", OF m1(1)] R.IH [OF m1(2)] R show ?case
    by (simp add: tree_turns_eqs)
qed simp

subsection \<open>The potential\<close>

definition phi :: "'a tree \<Rightarrow> real" where
  "phi t = log 2 (size1 t)"

fun Phi :: "'a tree \<Rightarrow> real" where
  "Phi Leaf = 0"
| "Phi (Node l a r) = phi (Node l a r) + Phi l + Phi r"

lemma phi_mono: "size t \<le> size u \<Longrightarrow> phi t \<le> phi u"
  by (simp add: phi_def size1_size)

lemma phi_Node: "1 \<le> phi (Node l a r)"
proof -
  have "log 2 2 \<le> phi (Node l a r)" unfolding phi_def by (rule log_mono) (simp_all add: size1_size)
  then show ?thesis by simp
qed

lemma phi_nonneg: "0 \<le> phi t"
  by (simp add: phi_def size1_size)

lemma phi_sum:
  assumes "size1 t + size1 u \<le> size1 v"
  shows "phi t + phi u \<le> 2 * phi v - 2"
proof -
  let ?x = "real (size1 t)" and ?y = "real (size1 u)"
  have pos: "0 < ?x" "0 < ?y" by (simp_all add: size1_size)
  have "0 \<le> (?x - ?y)\<^sup>2" by simp
  then have "4 * (?x * ?y) \<le> (?x + ?y)\<^sup>2" by (simp add: power2_eq_square algebra_simps)
  also have "\<dots> \<le> (real (size1 v))\<^sup>2" using assms pos by (intro power_mono) auto
  finally have "log 2 (4 * (?x * ?y)) \<le> log 2 ((real (size1 v))\<^sup>2)" using pos by (intro log_mono) auto
  moreover have "log 2 (4 * (?x * ?y)) = log 2 4 + (log 2 ?x + log 2 ?y)" using pos by (simp add: log_mult)
  moreover have "log 2 4 = (2 :: real)" using log_nat_power [of 2 2 2] by simp
  moreover have "log 2 ((real (size1 v))\<^sup>2) = 2 * log 2 (size1 v)" by (simp add: log_nat_power size1_size)
  ultimately show ?thesis by (simp add: phi_def)
qed

text \<open>The amortised cost of splaying.\<close>

definition amortised :: "(ptr \<Rightarrow> int) \<Rightarrow> ptr tree \<Rightarrow> real" where
  "amortised c t = tree_turns c t + Phi (splay_tree c t) - Phi t"

lemma Phi_splay:
  assumes "splay_tree c t = Node x d y"
  shows "Phi x + Phi y = Phi (splay_tree c t) - phi t" "size t = size x + size y + 1"
proof -
  show "size t = size x + size y + 1"
    using inorder_splay_tree [of c t] assms by (metis One_nat_def length_inorder tree.size(4))
  then show "Phi x + Phi y = Phi (splay_tree c t) - phi t"
    using assms by (simp add: phi_def size1_size)
qed

lemma amortised_stop:
  "\<not> (c b < 0 \<and> l \<noteq> Leaf) \<Longrightarrow> \<not> (c b > 0 \<and> r \<noteq> Leaf) \<Longrightarrow> amortised c (Node l b r) = 1"
  by (simp add: amortised_def tree_turns_eqs splay_tree_stop)

lemma amortised_end:
  "c b < 0 \<Longrightarrow> c a < 0 \<Longrightarrow> amortised c (Node (Node Leaf a lr) b r) \<le> phi (Node (Node Leaf a lr) b r)"
  "c b > 0 \<Longrightarrow> c a > 0 \<Longrightarrow> amortised c (Node l b (Node rl a Leaf)) \<le> phi (Node l b (Node rl a Leaf))"
proof -
  have "phi (Node lr b r) \<le> phi (Node (Node Leaf a lr) b r)" by (simp add: phi_mono)
  moreover have "phi (Node Leaf a (Node lr b r)) = phi (Node (Node Leaf a lr) b r)"
    by (simp add: phi_def size1_size)
  moreover note phi_Node [of Leaf a lr]
  moreover assume "c b < 0" "c a < 0"
  ultimately show "amortised c (Node (Node Leaf a lr) b r) \<le> phi (Node (Node Leaf a lr) b r)"
    by (simp add: amortised_def tree_turns_eqs splay_tree_end)
next
  have "phi (Node l b rl) \<le> phi (Node l b (Node rl a Leaf))" by (simp add: phi_mono)
  moreover have "phi (Node (Node l b rl) a Leaf) = phi (Node l b (Node rl a Leaf))"
    by (simp add: phi_def size1_size)
  moreover note phi_Node [of rl a Leaf]
  moreover assume "c b > 0" "c a > 0"
  ultimately show "amortised c (Node l b (Node rl a Leaf)) \<le> phi (Node l b (Node rl a Leaf))"
    by (simp add: amortised_def tree_turns_eqs splay_tree_end)
qed

text \<open>Two steps in the same direction: a surplus of 1.\<close>

lemma amortised_left_left:
  assumes "c b < 0" "c a < 0" "ll \<noteq> Leaf"
  shows "amortised c (Node (Node ll a lr) b r) \<le>
    amortised c ll + 3 * (phi (Node (Node ll a lr) b r) - phi ll) - 1"
proof -
  let ?t = "Node (Node ll a lr) b r"
  obtain x d y where s: "splay_tree c ll = Node x d y" using splay_tree_Node assms(3) .
  note P = Phi_splay [OF s]
  have "splay_tree c ?t = Node x d (Node y a (Node lr b r))" using splay_tree_left(1) [OF assms s] .
  moreover have "phi (Node x d (Node y a (Node lr b r))) = phi ?t" using P(2) by (simp add: phi_def size1_size)
  moreover have "phi (Node y a (Node lr b r)) \<le> phi ?t" using P(2) by (simp add: phi_mono)
  moreover have "phi ll + phi (Node lr b r) \<le> 2 * phi ?t - 2" by (rule phi_sum) (simp add: size1_size)
  moreover have "phi ll \<le> phi (Node ll a lr)" by (simp add: phi_mono)
  ultimately show ?thesis using P(1) tree_turns_eqs(3) [of c b a ll lr r] assms
    by (simp add: amortised_def)
qed

lemma amortised_right_right:
  assumes "c b > 0" "c a > 0" "rr \<noteq> Leaf"
  shows "amortised c (Node l b (Node rl a rr)) \<le>
    amortised c rr + 3 * (phi (Node l b (Node rl a rr)) - phi rr) - 1"
proof -
  let ?t = "Node l b (Node rl a rr)"
  obtain x d y where s: "splay_tree c rr = Node x d y" using splay_tree_Node assms(3) .
  note P = Phi_splay [OF s]
  have "splay_tree c ?t = Node (Node (Node l b rl) a x) d y" using splay_tree_right(1) [OF assms s] .
  moreover have "phi (Node (Node (Node l b rl) a x) d y) = phi ?t" using P(2) by (simp add: phi_def size1_size)
  moreover have "phi (Node (Node l b rl) a x) \<le> phi ?t" using P(2) by (simp add: phi_mono)
  moreover have "phi rr + phi (Node l b rl) \<le> 2 * phi ?t - 2" by (rule phi_sum) (simp add: size1_size)
  moreover have "phi rr \<le> phi (Node rl a rr)" by (simp add: phi_mono)
  ultimately show ?thesis using P(1) tree_turns_eqs(6) [of c b a rr l rl] assms
    by (simp add: amortised_def)
qed

text \<open>A single step: a deficit of 1.\<close>

lemma amortised_left:
  assumes "c b < 0" "\<not> c a < 0"
  shows "amortised c (Node (Node ll a lr) b r) \<le>
    amortised c (Node ll a lr) + phi (Node (Node ll a lr) b r) - phi (Node ll a lr) + 1"
proof -
  let ?l = "Node ll a lr"
  obtain x d y where s: "splay_tree c ?l = Node x d y" using splay_tree_Node tree.simps(3) .
  note P = Phi_splay [OF s]
  have "splay_tree c (Node ?l b r) = Node x d (Node y b r)" using splay_tree_left(2) [OF assms s] .
  moreover have "phi (Node x d (Node y b r)) = phi (Node ?l b r)" using P(2) by (simp add: phi_def size1_size)
  moreover have "phi (Node y b r) \<le> phi (Node ?l b r)" using P(2) by (simp add: phi_mono)
  ultimately show ?thesis using P(1) tree_turns_eqs(4) [of c b a ll lr r] assms
    by (simp add: amortised_def)
qed

lemma amortised_right:
  assumes "c b > 0" "\<not> c a > 0"
  shows "amortised c (Node l b (Node rl a rr)) \<le>
    amortised c (Node rl a rr) + phi (Node l b (Node rl a rr)) - phi (Node rl a rr) + 1"
proof -
  let ?r = "Node rl a rr"
  obtain x d y where s: "splay_tree c ?r = Node x d y" using splay_tree_Node tree.simps(3) .
  note P = Phi_splay [OF s]
  have "splay_tree c (Node l b ?r) = Node (Node l b x) d y" using splay_tree_right(2) [OF assms s] .
  moreover have "phi (Node (Node l b x) d y) = phi (Node l b ?r)" using P(2) by (simp add: phi_def size1_size)
  moreover have "phi (Node l b x) \<le> phi (Node l b ?r)" using P(2) by (simp add: phi_mono)
  ultimately show ?thesis using P(1) tree_turns_eqs(7) [of c b a l rl rr] assms
    by (simp add: amortised_def)
qed

text \<open>A zig-zag, which the code makes as two single steps.\<close>

lemma amortised_left_right:
  assumes "c b < 0" "c a > 0" "\<not> c e > 0"
  shows "amortised c (Node (Node ll a (Node p e q)) b r) \<le>
    amortised c (Node p e q) + 2 * (phi (Node (Node ll a (Node p e q)) b r) - phi (Node p e q))"
proof -
  let ?u = "Node p e q" and ?t = "Node (Node ll a (Node p e q)) b r"
  obtain x d y where s: "splay_tree c ?u = Node x d y" using splay_tree_Node tree.simps(3) .
  note P = Phi_splay [OF s]
  have "splay_tree c ?t = Node (Node ll a x) d (Node y b r)"
    using splay_tree_left(2) [OF assms(1) _ splay_tree_right(2) [OF assms(2,3) s]] assms(2) by simp
  moreover have "phi (Node (Node ll a x) d (Node y b r)) = phi ?t" using P(2) by (simp add: phi_def size1_size)
  moreover have "phi (Node ll a x) + phi (Node y b r) \<le> 2 * phi ?t - 2"
    using P(2) by (intro phi_sum) (simp add: size1_size)
  moreover have "phi ?u \<le> phi (Node ll a ?u)" by (simp add: phi_mono)
  ultimately show ?thesis
    using P(1) tree_turns_eqs(4) [of c b a ll ?u r] tree_turns_eqs(7) [of c a e ll p q] assms
    by (simp add: amortised_def)
qed

lemma amortised_right_left:
  assumes "c b > 0" "c a < 0" "\<not> c e < 0"
  shows "amortised c (Node l b (Node (Node p e q) a rr)) \<le>
    amortised c (Node p e q) + 2 * (phi (Node l b (Node (Node p e q) a rr)) - phi (Node p e q))"
proof -
  let ?u = "Node p e q" and ?t = "Node l b (Node (Node p e q) a rr)"
  obtain x d y where s: "splay_tree c ?u = Node x d y" using splay_tree_Node tree.simps(3) .
  note P = Phi_splay [OF s]
  have "splay_tree c ?t = Node (Node l b x) d (Node y a rr)"
    using splay_tree_right(2) [OF assms(1) _ splay_tree_left(2) [OF assms(2,3) s]] assms(2) by simp
  moreover have "phi (Node (Node l b x) d (Node y a rr)) = phi ?t" using P(2) by (simp add: phi_def size1_size)
  moreover have "phi (Node l b x) + phi (Node y a rr) \<le> 2 * phi ?t - 2"
    using P(2) by (intro phi_sum) (simp add: size1_size)
  moreover have "phi ?u \<le> phi (Node ?u a rr)" by (simp add: phi_mono)
  ultimately show ?thesis
    using P(1) tree_turns_eqs(7) [of c b a l ?u rr] tree_turns_eqs(4) [of c a e p q rr] assms
    by (simp add: amortised_def)
qed

text \<open>A single step with what follows it.\<close>

lemma amortised_after_left:
  assumes "c b < 0" "\<not> c a < 0"
    and "\<And>u. size u < size (Node ll a lr) \<Longrightarrow> u \<noteq> Leaf \<Longrightarrow> amortised c u \<le> 3 * phi u - 1"
  shows "amortised c (Node (Node ll a lr) b r) \<le> 3 * phi (Node (Node ll a lr) b r) - 1"
proof -
  let ?l = "Node ll a lr" and ?t = "Node (Node ll a lr) b r"
  have le: "phi ?l \<le> phi ?t" "1 \<le> phi ?l" using phi_Node by (simp_all add: phi_mono)
  note step = amortised_left [OF assms(1,2), of ll lr r]
  consider "\<not> c a > 0 \<or> lr = Leaf" | p e q where "lr = Node p e q" "c a > 0" by (cases lr) auto
  then show ?thesis
  proof cases
    case 1
    then have "amortised c ?l = 1" using assms(2) by (auto simp: amortised_stop)
    with step le show ?thesis by simp
  next
    case (2 p e q)
    show ?thesis
    proof (cases "c e > 0")
      case True
      show ?thesis
      proof (cases "q = Leaf")
        case q: True
        have "amortised c ?l \<le> phi ?l" using amortised_end(2) [of c a e ll p] 2 True q by simp
        with step le show ?thesis by simp
      next
        case False
        have "amortised c q \<le> 3 * phi q - 1" by (rule assms(3)) (use 2 False in auto)
        with amortised_right_right [of c a e q ll p] step le 2 True False show ?thesis by simp
      qed
    next
      case False
      have "amortised c lr \<le> 3 * phi lr - 1" by (rule assms(3)) (use 2 in auto)
      moreover have "phi lr \<le> phi ?t" by (simp add: phi_mono)
      ultimately show ?thesis using amortised_left_right [OF assms(1) 2(2) False, of ll p q r] 2(1) by simp
    qed
  qed
qed

lemma amortised_after_right:
  assumes "c b > 0" "\<not> c a > 0"
    and "\<And>u. size u < size (Node rl a rr) \<Longrightarrow> u \<noteq> Leaf \<Longrightarrow> amortised c u \<le> 3 * phi u - 1"
  shows "amortised c (Node l b (Node rl a rr)) \<le> 3 * phi (Node l b (Node rl a rr)) - 1"
proof -
  let ?r = "Node rl a rr" and ?t = "Node l b (Node rl a rr)"
  have le: "phi ?r \<le> phi ?t" "1 \<le> phi ?r" using phi_Node by (simp_all add: phi_mono)
  note step = amortised_right [OF assms(1,2), of l rl rr]
  consider "\<not> c a < 0 \<or> rl = Leaf" | p e q where "rl = Node p e q" "c a < 0" by (cases rl) auto
  then show ?thesis
  proof cases
    case 1
    then have "amortised c ?r = 1" using assms(2) by (auto simp: amortised_stop)
    with step le show ?thesis by simp
  next
    case (2 p e q)
    show ?thesis
    proof (cases "c e < 0")
      case True
      show ?thesis
      proof (cases "p = Leaf")
        case p: True
        have "amortised c ?r \<le> phi ?r" using amortised_end(1) [of c a e q rr] 2 True p by simp
        with step le show ?thesis by simp
      next
        case False
        have "amortised c p \<le> 3 * phi p - 1" by (rule assms(3)) (use 2 False in auto)
        with amortised_left_left [of c a e p q rr] step le 2 True False show ?thesis by simp
      qed
    next
      case False
      have "amortised c rl \<le> 3 * phi rl - 1" by (rule assms(3)) (use 2 in auto)
      moreover have "phi rl \<le> phi ?t" by (simp add: phi_mono)
      ultimately show ?thesis using amortised_right_left [OF assms(1) 2(2) False, of l p q rr] 2(1) by simp
    qed
  qed
qed

lemma amortised_bound: "t \<noteq> Leaf \<Longrightarrow> amortised c t \<le> 3 * phi t - 1"
proof (induction t rule: measure_induct_rule [of size])
  case (less t)
  show ?case
  proof (cases rule: splay_tree_cases [where t = t and c = c])
    case (Stop l b r)
    with phi_Node [of l b r] show ?thesis by (simp add: amortised_stop)
  next
    case (EndL a lr b r)
    with phi_Node [of "Node Leaf a lr" b r] amortised_end(1) [of c b a lr r] show ?thesis by simp
  next
    case (LL ll a lr b r)
    with less.IH [of ll] amortised_left_left [of c b a ll lr r] show ?thesis by simp
  next
    case (L ll a lr b r)
    then show ?thesis using amortised_after_left [of c b a ll lr r] less.IH by simp
  next
    case (EndR l b rl a)
    with phi_Node [of l b "Node rl a Leaf"] amortised_end(2) [of c b a l rl] show ?thesis by simp
  next
    case (RR l b rl a rr)
    with less.IH [of rr] amortised_right_right [of c b a rr l rl] show ?thesis by simp
  next
    case (R l b rl a rr)
    then show ?thesis using amortised_after_right [of c b a rl rr l] less.IH by simp
  qed (use less.prems in auto)
qed

subsection \<open>Sequences of searches\<close>

lemma Phi_nonneg: "0 \<le> Phi t"
  using phi_nonneg by (induction t) (auto intro: add_nonneg_nonneg)

lemma Phi_bound: "Phi t \<le> size t * phi t"
proof (induction t)
  case (Node l a r)
  let ?p = "phi (Node l a r)"
  have "Phi l \<le> size l * ?p"
    using Node.IH(1) mult_left_mono [of "phi l" ?p "size l"] by (simp add: phi_mono)
  moreover have "Phi r \<le> size r * ?p"
    using Node.IH(2) mult_left_mono [of "phi r" ?p "size r"] by (simp add: phi_mono)
  ultimately show ?case by (simp add: algebra_simps)
qed simp

text \<open>One search, on the tree and with its cost.\<close>

lemma SPLAY_FIND_cost:
  assumes "sptree m q t" "t \<noteq> Leaf" "free_slot m node" "sorted_by key (inorder t)"
    and "cmp_by cmp key e k (set (inorder t))"
  shows "\<exists>n m' q' t'. SPLAY_turns node cmp e (m, q) = Some n \<and>
    SPLAY_FIND node cmp e (m, q) = Some (first_of (filter (\<lambda>x. key x = k) (inorder t)), m', q') \<and>
    sptree m' q' t' \<and> inorder t' = inorder t \<and> free_slot m' node \<and>
    n \<le> 3 * phi t - 1 + Phi t - Phi t'"
proof -
  let ?c = "\<lambda>a. the (cmp e a)" and ?e = "\<lparr>spe_left = NULL, spe_right = NULL\<rparr>"
  have c: "\<forall>a \<in> set_tree t. cmp e a = Some (?c a)" using assms(5) by (fastforce simp: cmp_by_def)
  have q: "q = sroot t" "q \<noteq> NULL" using assms(1,2) by (auto simp: sptree_def sroot_NULL)
  obtain m' where m': "SPLAY node cmp e (m, q) = Some (m', sroot (splay_tree ?c t))"
    "sptree m' (sroot (splay_tree ?c t)) (splay_tree ?c t)" "same_outside (set_tree t) m m'"
    using SPLAY_at [OF assms(1-3), of cmp e ?c] c by blast
  have turns: "SPLAY_turns node cmp e (m, q) = Some (tree_turns ?c t)"
    using splay_count_at [OF sptree_start [OF assms(1,3)] assms(2), of cmp e ?c] c q(1)
    by (simp add: SPLAY_turns_def)
  have "splaytree node key m q (inorder t)" using assms(1,3,4) by (auto simp: splaytree_def)
  from splay_find(1) [OF this assms(5)] obtain m2 q2 where
    find: "SPLAY_FIND node cmp e (m, q) = Some (first_of (filter (\<lambda>x. key x = k) (inorder t)), m2, q2)"
    by blast
  then have "m2 = m'" "q2 = sroot (splay_tree ?c t)"
    using m'(1) q(2) by (auto simp: SPLAY_FIND_def SPLAY_EMPTY_def split: bind_splits if_splits)
  moreover have "tree_turns ?c t \<le> 3 * phi t - 1 + Phi t - Phi (splay_tree ?c t)"
    using amortised_bound [OF assms(2), of ?c] by (simp add: amortised_def)
  moreover have "free_slot m' node" using assms(3) free_slot_same [OF m'(3)] by simp
  ultimately show ?thesis using turns find m'(2) inorder_splay_tree [of ?c t] by blast
qed

lemma find_all_cost:
  assumes "sptree m q t" "t \<noteq> Leaf" "free_slot m node" "sorted_by key (inorder t)"
    and "\<forall>e \<in> set es. cmp_by cmp key e (k e) (set (inorder t))"
  shows "\<exists>n m' q' t'. find_all node cmp es (m, q) =
      Some (n, map (\<lambda>e. first_of (filter (\<lambda>x. key x = k e) (inorder t))) es, m', q') \<and>
    sptree m' q' t' \<and> inorder t' = inorder t \<and> free_slot m' node \<and> n \<le> length es * (3 * phi t - 1) + Phi t - Phi t'"
  using assms
proof (induction es arbitrary: m q t)
  case Nil
  then show ?case by auto
next
  case (Cons e es)
  have "cmp_by cmp key e (k e) (set (inorder t))" using Cons.prems(5) by simp
  from SPLAY_FIND_cost [OF Cons.prems(1-4) this] obtain n1 m1 q1 t1 where
    1: "SPLAY_turns node cmp e (m, q) = Some n1"
      "SPLAY_FIND node cmp e (m, q) = Some (first_of (filter (\<lambda>x. key x = k e) (inorder t)), m1, q1)"
      "sptree m1 q1 t1" "inorder t1 = inorder t" "free_slot m1 node" "n1 \<le> 3 * phi t - 1 + Phi t - Phi t1"
    by blast
  have size: "size t1 = size t" using 1(4) by (metis length_inorder)
  then have "t1 \<noteq> Leaf" "phi t1 = phi t" using Cons.prems(2) by (cases t; auto simp: phi_def size1_size)+
  with Cons.IH [OF 1(3) _ 1(5)] 1(4) Cons.prems(4,5) obtain n2 m' q' t' where
    2: "find_all node cmp es (m1, q1) =
        Some (n2, map (\<lambda>e. first_of (filter (\<lambda>x. key x = k e) (inorder t))) es, m', q')"
      "sptree m' q' t'" "inorder t' = inorder t" "free_slot m' node" "n2 \<le> length es * (3 * phi t - 1) + Phi t1 - Phi t'"
    by auto
  then have "n1 + n2 \<le> length (e # es) * (3 * phi t - 1) + Phi t - Phi t'"
    using 1(6) by (simp add: algebra_simps)
  with 1(1,2) 2(1-4) show ?case by auto
qed

text \<open>
  C28: Any sequence of searches on a splay tree of \<open>n\<close> nodes takes at most \<open>(3 m + n) log2 (n + 1)\<close> turns of the
  loop of \<^verbatim>\<open>SPLAY\<close> in all, where \<open>m\<close> is the number of searches, and every search returns the right node; so the
  amortised cost of a search is logarithmic.
\<close>

theorem SPLAY_amortised:
  assumes "splaytree node key m q xs" "xs \<noteq> []" "\<forall>e \<in> set es. cmp_by cmp key e (k e) (set xs)"
  shows "\<exists>n h. find_all node cmp es (m, q) =
      Some (n, map (\<lambda>e. first_of (filter (\<lambda>x. key x = k e) xs)) es, h) \<and>
    splaytree node key (fst h) (snd h) xs \<and>
    n \<le> (3 * real (length es) + real (length xs)) * log 2 (real (length xs) + 1)"
proof -
  obtain t where t: "sptree m q t" "inorder t = xs" "free_slot m node" "sorted_by key xs"
    using assms(1) by (auto simp: splaytree_def)
  have phi: "phi t = log 2 (real (length xs) + 1)" using t(2) by (auto simp: phi_def size1_size algebra_simps)
  have "t \<noteq> Leaf" using t(2) assms(2) by auto
  from find_all_cost [OF t(1) this t(3)] t assms(3) obtain n m' q' t' where
    n: "find_all node cmp es (m, q) = Some (n, map (\<lambda>e. first_of (filter (\<lambda>x. key x = k e) xs)) es, m', q')"
      "sptree m' q' t'" "inorder t' = xs" "free_slot m' node" "n \<le> length es * (3 * phi t - 1) + Phi t - Phi t'"
    by blast
  have "Phi t \<le> length xs * phi t" using Phi_bound [of t] t(2) by auto
  with n(5) Phi_nonneg [of t'] have "n \<le> (3 * real (length es) + real (length xs)) * phi t"
    by (simp add: algebra_simps)
  then show ?thesis using n phi t(4) by (auto simp: splaytree_def)
qed

theorem SPLAY_amortised_witness:
  "\<exists>n h. find_all 9 demo_cmp [2, 4, 1] (sp_demo, 3) = Some (n, [2, NULL, 1], h) \<and>
    splaytree 9 demo_key (fst h) (snd h) [1, 2, 3] \<and> n \<le> (24 :: real)"
proof -
  have "log 2 4 = (2 :: real)" using log_nat_power [of 2 2 2] by simp
  then show ?thesis
    using SPLAY_amortised [OF sp_demo_splaytree _, of "[2, 4, 1]" demo_cmp "\<lambda>a. a"] demo_cmp_by
    by (auto simp: first_of_def)
qed

end
