(* ===== verification/Ut_RB_Foreach.thy ===== *)
theory Ut_RB_Foreach
  imports Ut_RB
begin

text \<open>
  The loops \<^verbatim>\<open>RB_FOREACH\<close> and their variants.  The body is an argument: a function of the node that
  works on a state of its own and on the tree.  The plain loops ask for the neighbour after the body has run,
  the \<^verbatim>\<open>_FROM\<close> and \<^verbatim>\<open>_SAFE\<close> loops before, so that their body may take the node out of the tree.
\<close>

subsection \<open>The loops\<close>

type_synonym 's foreach_body = "ptr \<Rightarrow> 's \<times> rb_head \<Rightarrow> ('s \<times> rb_head) option"

partial_function (option) foreach_loop ::
  "(rb_mem \<Rightarrow> ptr \<Rightarrow> ptr option) \<Rightarrow> 's foreach_body \<Rightarrow> ptr \<Rightarrow> 's \<times> rb_head \<Rightarrow> ('s \<times> rb_head) option" where
  "foreach_loop next body x s =
     (if x = NULL then Some s
      else do {
        s \<leftarrow> body x s;
        x \<leftarrow> next (fst (snd s)) x;
        foreach_loop next body x s })"

partial_function (option) foreach_from ::
  "(rb_mem \<Rightarrow> ptr \<Rightarrow> ptr option) \<Rightarrow> 's foreach_body \<Rightarrow> ptr \<Rightarrow> 's \<times> rb_head \<Rightarrow> ('s \<times> rb_head) option" where
  "foreach_from next body x s =
     (if x = NULL then Some s
      else do {
        y \<leftarrow> next (fst (snd s)) x;
        s \<leftarrow> body x s;
        foreach_from next body y s })"

definition RB_FOREACH :: "'s foreach_body \<Rightarrow> 's \<times> rb_head \<Rightarrow> ('s \<times> rb_head) option" where
  "RB_FOREACH body s = do { x \<leftarrow> RB_MIN (snd s); foreach_loop RB_NEXT body x s }"

definition RB_FOREACH_FROM :: "'s foreach_body \<Rightarrow> ptr \<Rightarrow> 's \<times> rb_head \<Rightarrow> ('s \<times> rb_head) option" where
  "RB_FOREACH_FROM = foreach_from RB_NEXT"

definition RB_FOREACH_SAFE :: "'s foreach_body \<Rightarrow> 's \<times> rb_head \<Rightarrow> ('s \<times> rb_head) option" where
  "RB_FOREACH_SAFE body s = do { x \<leftarrow> RB_MIN (snd s); foreach_from RB_NEXT body x s }"

definition RB_FOREACH_REVERSE :: "'s foreach_body \<Rightarrow> 's \<times> rb_head \<Rightarrow> ('s \<times> rb_head) option" where
  "RB_FOREACH_REVERSE body s = do { x \<leftarrow> RB_MAX (snd s); foreach_loop RB_PREV body x s }"

definition RB_FOREACH_REVERSE_FROM :: "'s foreach_body \<Rightarrow> ptr \<Rightarrow> 's \<times> rb_head \<Rightarrow> ('s \<times> rb_head) option" where
  "RB_FOREACH_REVERSE_FROM = foreach_from RB_PREV"

definition RB_FOREACH_REVERSE_SAFE :: "'s foreach_body \<Rightarrow> 's \<times> rb_head \<Rightarrow> ('s \<times> rb_head) option" where
  "RB_FOREACH_REVERSE_SAFE body s = do { x \<leftarrow> RB_MAX (snd s); foreach_from RB_PREV body x s }"

subsection \<open>Bodies\<close>

text \<open>
  A body that applies \<open>f\<close> to its own state and takes the node out of the tree if \<open>P\<close> says so.
\<close>

definition visit :: "(ptr \<Rightarrow> 's \<Rightarrow> 's) \<Rightarrow> (ptr \<Rightarrow> bool) \<Rightarrow> 's foreach_body" where
  "visit f P x s =
     (if P x then do { (_, h) \<leftarrow> RB_REMOVE x (snd s); Some (f x (fst s), h) } else Some (f x (fst s), snd s))"

lemma visit_at:
  assumes "rbtree key m root xs" "x \<in> set xs"
  shows "\<exists>m' root'. visit f P x (s, m, root) = Some (f x s, m', root') \<and>
    rbtree key m' root' (if P x then remove1 x xs else xs)"
  using assms rbtree_remove [OF assms] by (auto simp: visit_def)

lemma foreach_from_up:
  assumes "rbtree key m root (us @ vs)"
  shows "\<exists>m' root'. foreach_from RB_NEXT (visit f P) (first_of vs) (s, m, root) = Some (fold f vs s, m', root') \<and>
    rbtree key m' root' (us @ filter (\<lambda>x. \<not> P x) vs)"
  using assms
proof (induction vs arbitrary: us m root s)
  case Nil
  then show ?case by (simp add: foreach_from.simps [of _ _ NULL])
next
  case (Cons a vs)
  have a: "a \<noteq> NULL" "a \<notin> set us"
    using rbtree_NULL [OF Cons.prems] sorted_by_distinct [OF rbtree_sorted [OF Cons.prems]] by auto
  obtain m1 root1 where m1: "visit f P a (s, m, root) = Some (f a s, m1, root1)"
    "rbtree key m1 root1 (if P a then remove1 a (us @ a # vs) else us @ a # vs)"
    using visit_at [OF Cons.prems, of a f P s] by auto
  moreover have "(if P a then remove1 a (us @ a # vs) else us @ a # vs) = (us @ (if P a then [] else [a])) @ vs"
    using a(2) by (simp add: remove1_append)
  ultimately have "rbtree key m1 root1 ((us @ (if P a then [] else [a])) @ vs)" by simp
  from Cons.IH [OF this, of "f a s"] m1(1) a(1) rbtree_next_prev(1) [OF Cons.prems] show ?case
    by (auto simp: foreach_from.simps [of _ _ a])
qed

lemma foreach_from_down:
  assumes "rbtree key m root (us @ vs)"
  shows "\<exists>m' root'. foreach_from RB_PREV (visit f P) (last_of us) (s, m, root) = Some (fold f (rev us) s, m', root') \<and>
    rbtree key m' root' (filter (\<lambda>x. \<not> P x) us @ vs)"
  using assms
proof (induction us arbitrary: vs m root s rule: rev_induct)
  case Nil
  then show ?case by (simp add: foreach_from.simps [of _ _ NULL])
next
  case (snoc a us)
  have pre: "rbtree key m root (us @ a # vs)" using snoc.prems by simp
  have a: "a \<noteq> NULL" "a \<notin> set us"
    using rbtree_NULL [OF pre] sorted_by_distinct [OF rbtree_sorted [OF pre]] by auto
  obtain m1 root1 where m1: "visit f P a (s, m, root) = Some (f a s, m1, root1)"
    "rbtree key m1 root1 (if P a then remove1 a (us @ a # vs) else us @ a # vs)"
    using visit_at [OF pre, of a f P s] by auto
  moreover have "(if P a then remove1 a (us @ a # vs) else us @ a # vs) = us @ (if P a then [] else [a]) @ vs"
    using a(2) by (simp add: remove1_append)
  ultimately have "rbtree key m1 root1 (us @ (if P a then [] else [a]) @ vs)" by simp
  from snoc.IH [OF this, of "f a s"] m1(1) a(1) rbtree_next_prev(2) [OF pre] show ?case
    by (auto simp: foreach_from.simps [of _ _ a])
qed

text \<open>With a body that leaves the tree alone the plain loops do the same.\<close>

lemma foreach_loop_up:
  assumes "rbtree key m root (us @ vs)"
  shows "foreach_loop RB_NEXT (visit f (\<lambda>_. False)) (first_of vs) (s, m, root) = Some (fold f vs s, m, root)"
  using assms
proof (induction vs arbitrary: us s)
  case Nil
  then show ?case by (simp add: foreach_loop.simps [of _ _ NULL])
next
  case (Cons a vs)
  have "a \<noteq> NULL" using rbtree_NULL [OF Cons.prems] by auto
  with Cons.IH [of "us @ [a]" "f a s"] Cons.prems rbtree_next_prev(1) [OF Cons.prems] show ?case
    by (simp add: foreach_loop.simps [of _ _ a] visit_def)
qed

lemma foreach_loop_down:
  assumes "rbtree key m root (us @ vs)"
  shows "foreach_loop RB_PREV (visit f (\<lambda>_. False)) (last_of us) (s, m, root) = Some (fold f (rev us) s, m, root)"
  using assms
proof (induction us arbitrary: vs s rule: rev_induct)
  case Nil
  then show ?case by (simp add: foreach_loop.simps [of _ _ NULL])
next
  case (snoc a us)
  have pre: "rbtree key m root (us @ a # vs)" using snoc.prems by simp
  have "a \<noteq> NULL" using rbtree_NULL [OF pre] by auto
  with snoc.IH [of "a # vs" "f a s"] pre rbtree_next_prev(2) [OF pre] show ?case
    by (simp add: foreach_loop.simps [of _ _ a] visit_def)
qed

text \<open>
  C30: \<^verbatim>\<open>RB_FOREACH_SAFE\<close> and \<^verbatim>\<open>RB_FOREACH_REVERSE_SAFE\<close> visit every node once, in ascending and in descending
  order of the keys, although their body takes nodes out of the tree, and leave exactly the nodes that the
  body did not take out; the plain loops visit the nodes in the same order when the body
  leaves the tree alone.
\<close>

theorem RB_FOREACH_visits:
  assumes "rbtree key m root xs"
  shows "(\<exists>h. RB_FOREACH_SAFE (visit f P) (s, m, root) = Some (fold f xs s, h) \<and>
      rbtree key (fst h) (snd h) (filter (\<lambda>x. \<not> P x) xs)) \<and>
    (\<exists>h. RB_FOREACH_REVERSE_SAFE (visit f P) (s, m, root) = Some (fold f (rev xs) s, h) \<and>
      rbtree key (fst h) (snd h) (filter (\<lambda>x. \<not> P x) xs)) \<and>
    RB_FOREACH (visit f (\<lambda>_. False)) (s, m, root) = Some (fold f xs s, m, root) \<and>
    RB_FOREACH_REVERSE (visit f (\<lambda>_. False)) (s, m, root) = Some (fold f (rev xs) s, m, root)"
  using foreach_from_up [of key m root "[]" xs f P s] foreach_from_down [of key m root xs "[]" f P s]
    foreach_loop_up [of key m root "[]" xs f s] foreach_loop_down [of key m root xs "[]" f s]
    rbtree_min_max [OF assms] assms
  by (auto simp: RB_FOREACH_def RB_FOREACH_SAFE_def RB_FOREACH_REVERSE_def RB_FOREACH_REVERSE_SAFE_def)

theorem RB_FOREACH_visits_witness:
  "(\<exists>h. RB_FOREACH_SAFE (visit (\<lambda>x xs. xs @ [x]) (\<lambda>x. x = 1)) ([], demo_mem, 2) = Some ([1, 2], h) \<and>
      rbtree demo_key (fst h) (snd h) [2]) \<and>
    RB_FOREACH_REVERSE (visit (\<lambda>x xs. xs @ [x]) (\<lambda>_. False)) ([], demo_mem, 2) = Some ([2, 1], demo_mem, 2)"
  using RB_FOREACH_visits [OF demo_tree, of "\<lambda>x xs. xs @ [x]" "\<lambda>x. x = 1" "[]"] by simp

text \<open>
  \<^verbatim>\<open>RB_FOREACH_FROM\<close> visits the nodes from the given one on, \<^verbatim>\<open>RB_FOREACH_REVERSE_FROM\<close> those from the given
  one back.
\<close>

theorem RB_FOREACH_FROM_visits:
  assumes "rbtree key m root (us @ a # vs)"
  shows "(\<exists>h. RB_FOREACH_FROM (visit f P) a (s, m, root) = Some (fold f (a # vs) s, h) \<and>
      rbtree key (fst h) (snd h) (us @ filter (\<lambda>x. \<not> P x) (a # vs))) \<and>
    (\<exists>h. RB_FOREACH_REVERSE_FROM (visit f P) a (s, m, root) = Some (fold f (rev (us @ [a])) s, h) \<and>
      rbtree key (fst h) (snd h) (filter (\<lambda>x. \<not> P x) (us @ [a]) @ vs))"
  using foreach_from_up [OF assms, of f P s] foreach_from_down [of key m root "us @ [a]" vs f P s] assms
  by (auto simp: RB_FOREACH_FROM_def RB_FOREACH_REVERSE_FROM_def)

end
