(* ===== verification/Ut_Steady.thy ===== *)
theory Ut_Steady
  imports Ut_Program Ut_Events
begin

text \<open>
  Programs whose uthreads also wait for descriptors.  What such a uthread guarantees each time it switches to
  the scheduler, what it may rely on when it runs again, and the operations of the library that keep to
  it: it never accesses memory that it must not access and leaves the scheduler's data in
  order, whatever the system returns.  It may still be ended by an assertion.
\<close>

subsection \<open>Faults\<close>

text \<open>
  The crashes that are accesses to memory outside the objects of the program, or find a tree in disorder.  The
  others are failed assertions, a result that does not fit an \<^verbatim>\<open>int\<close>, an exhausted stack and
  exhausted fuel.
\<close>

definition memory_fault :: "crash \<Rightarrow> bool" where
  "memory_fault e \<longleftrightarrow> e \<in> {NullDeref, BadAccess, IndexRange, TreeCorrupt}"

abbreviation tolerable :: "crash \<Rightarrow> bool" where
  "tolerable e \<equiv> \<not> memory_fault e"

lemma tolerable_simps [simp]:
  "tolerable AssertFail" "tolerable SignedOverflow" "tolerable OutOfFuel" "tolerable StackOverflow"
  by (simp_all add: memory_fault_def)

subsection \<open>The contract of the system\<close>

text \<open>
  The setting of a program: the addresses that the allocator has handed out and the pairs of an epoll instance
  and a descriptor that it watches, as functions of the state of the system; the scheduler of the
  thread and its \<^verbatim>\<open>p\<close>.
\<close>

record 'k setting =
  allocated :: "'k \<Rightarrow> ptr set"
  watched :: "'k \<Rightarrow> (int \<times> int) set"
  the_sched :: ptr
  the_p :: ptr

text \<open>
  What is needed of the system: the allocator of \<open>alloc_ok\<close>; \<^verbatim>\<open>epoll_ctl\<close> accepts only descriptors, and none that
  the instance watches already, and \<^verbatim>\<open>EPOLL_CTL_DEL\<close> ends the watching of no other descriptor; \<^verbatim>\<open>epoll_wait\<close>
  returns -1 or the number of the events it has stored; no other call ends the watching of a
  descriptor.
\<close>

definition sys_ok :: "'k os \<Rightarrow> 'k setting \<Rightarrow> bool" where
  "sys_ok os E \<longleftrightarrow> alloc_ok os (allocated E) \<and>
     (\<forall>k x k'. os_gettimeofday os k = (x, k') \<longrightarrow>
        allocated E k \<subseteq> allocated E k' \<and> watched E k \<subseteq> watched E k') \<and>
     (\<forall>ep t k r evs e k'. os_epoll_wait os ep t k = ((r, evs, e), k') \<longrightarrow>
        (r = -1 \<or> r = int (length evs)) \<and> allocated E k \<subseteq> allocated E k' \<and> watched E k \<subseteq> watched E k') \<and>
     (\<forall>ep fd m k r k'. os_epoll_ctl os ep EPOLL_CTL_ADD fd m k = (r, k') \<longrightarrow> allocated E k \<subseteq> allocated E k' \<and>
        (r = 0 \<longrightarrow> 0 \<le> fd \<and> fd < 2 ^ 31 \<and> (ep, fd) \<notin> watched E k \<and> insert (ep, fd) (watched E k) \<subseteq> watched E k')) \<and>
     (\<forall>ep fd m k r k'. os_epoll_ctl os ep EPOLL_CTL_DEL fd m k = (r, k') \<longrightarrow> allocated E k \<subseteq> allocated E k' \<and>
        watched E k - {(ep, fd)} \<subseteq> watched E k') \<and>
     (\<forall>k x k'. os_malloc os k = (x, k') \<longrightarrow> watched E k \<subseteq> watched E k') \<and>
     (\<forall>k x k'. os_memalign os k = (x, k') \<longrightarrow> watched E k \<subseteq> watched E k') \<and>
     (\<forall>c k x k'. os_call os c k = (x, k') \<longrightarrow> watched E k \<subseteq> watched E k')"

lemma sys_okD:
  assumes "sys_ok os E"
  shows "alloc_ok os (allocated E)"
    "os_gettimeofday os k = (x, k') \<Longrightarrow> allocated E k \<subseteq> allocated E k' \<and> watched E k \<subseteq> watched E k'"
    "os_epoll_wait os ep t k = ((r, evs, e), k') \<Longrightarrow>
      (r = -1 \<or> r = int (length evs)) \<and> allocated E k \<subseteq> allocated E k' \<and> watched E k \<subseteq> watched E k'"
    "os_epoll_ctl os ep EPOLL_CTL_ADD fd m k = (r, k') \<Longrightarrow> allocated E k \<subseteq> allocated E k' \<and>
      (r = 0 \<longrightarrow> 0 \<le> fd \<and> fd < 2 ^ 31 \<and> (ep, fd) \<notin> watched E k \<and> insert (ep, fd) (watched E k) \<subseteq> watched E k')"
    "os_epoll_ctl os ep EPOLL_CTL_DEL fd m k = (r, k') \<Longrightarrow>
      allocated E k \<subseteq> allocated E k' \<and> watched E k - {(ep, fd)} \<subseteq> watched E k'"
    "os_malloc os k = (y, k') \<Longrightarrow> watched E k \<subseteq> watched E k'"
    "os_memalign os k = (z, k') \<Longrightarrow> watched E k \<subseteq> watched E k'"
    "os_call os c k = (z', k') \<Longrightarrow> watched E k \<subseteq> watched E k'"
proof -
  note a = assms [unfolded sys_ok_def]
  show "alloc_ok os (allocated E)"
    by (rule a [THEN conjunct1])
  show "os_gettimeofday os k = (x, k') \<Longrightarrow> allocated E k \<subseteq> allocated E k' \<and> watched E k \<subseteq> watched E k'"
    by (rule a [THEN conjunct2, THEN conjunct1, rule_format])
  show "os_epoll_wait os ep t k = ((r, evs, e), k') \<Longrightarrow>
      (r = -1 \<or> r = int (length evs)) \<and> allocated E k \<subseteq> allocated E k' \<and> watched E k \<subseteq> watched E k'"
    by (rule a [THEN conjunct2, THEN conjunct2, THEN conjunct1, rule_format])
  show "os_epoll_ctl os ep EPOLL_CTL_ADD fd m k = (r, k') \<Longrightarrow> allocated E k \<subseteq> allocated E k' \<and>
      (r = 0 \<longrightarrow> 0 \<le> fd \<and> fd < 2 ^ 31 \<and> (ep, fd) \<notin> watched E k \<and> insert (ep, fd) (watched E k) \<subseteq> watched E k')"
    by (rule a [THEN conjunct2, THEN conjunct2, THEN conjunct2, THEN conjunct1, rule_format])
  show "os_epoll_ctl os ep EPOLL_CTL_DEL fd m k = (r, k') \<Longrightarrow>
      allocated E k \<subseteq> allocated E k' \<and> watched E k - {(ep, fd)} \<subseteq> watched E k'"
    by (rule a [THEN conjunct2, THEN conjunct2, THEN conjunct2, THEN conjunct2, THEN conjunct1, rule_format])
  show "os_malloc os k = (y, k') \<Longrightarrow> watched E k \<subseteq> watched E k'"
    by (rule a [THEN conjunct2, THEN conjunct2, THEN conjunct2, THEN conjunct2, THEN conjunct2, THEN conjunct1, rule_format])
  show "os_memalign os k = (z, k') \<Longrightarrow> watched E k \<subseteq> watched E k'"
    by (rule a [THEN conjunct2, THEN conjunct2, THEN conjunct2, THEN conjunct2, THEN conjunct2, THEN conjunct2, THEN conjunct1, rule_format])
  show "os_call os c k = (z', k') \<Longrightarrow> watched E k \<subseteq> watched E k'"
    by (rule a [THEN conjunct2, THEN conjunct2, THEN conjunct2, THEN conjunct2, THEN conjunct2, THEN conjunct2, THEN conjunct2, rule_format])
qed

subsection \<open>The state\<close>

text \<open>
  Every sleeper waits for a descriptor, which the epoll instance of the \<^verbatim>\<open>p\<close> watches; no two wait for the
  same.
\<close>

definition waits_on :: "(ptr \<rightharpoonup> uthread) \<Rightarrow> ptr \<Rightarrow> int \<Rightarrow> bool" where
  "waits_on U a fd \<longleftrightarrow> (\<exists>u e. U a = Some u \<and> bit (status u) UT_ST_SLEEPING \<and> fd_wait u = FD_KEY fd e \<and>
     0 \<le> fd \<and> fd < 2 ^ 31 \<and> e < 2)"

definition watch_ok :: "'k setting \<Rightarrow> 'k world \<Rightarrow> bool" where
  "watch_ok E w \<longleftrightarrow> (\<exists>q. ps w (the_p E) = Some q \<and>
       (\<forall>a \<in> asleep (uts w). \<exists>fd. waits_on (uts w) a fd \<and> (poller_fd q, fd) \<in> watched E (kern w))) \<and>
     (\<forall>a b fd. waits_on (uts w) a fd \<and> waits_on (uts w) b fd \<longrightarrow> a = b)"

definition steady :: "'k setting \<Rightarrow> ptr set \<Rightarrow> 'k world \<Rightarrow> bool" where
  "steady E R w \<longleftrightarrow> orderly (allocated E) (the_sched E) (the_p E) R w \<and> watch_ok E w"

lemma steadyD:
  assumes "steady E R w"
  shows "orderly (allocated E) (the_sched E) (the_p E) R w" "watch_ok E w" "inv_at R w"
  using assms by (auto simp: steady_def dest: orderlyD(1))

lemma key_of_wait:
  assumes "waits_on U a fd" "U a = Some u"
  shows "FD_ONLY (fd_wait u) = fd" "0 \<le>s fd_wait u" "0 \<le> fd" "fd < 2 ^ 31" "bit (status u) UT_ST_SLEEPING"
  using assms FD_KEY_roundtrip(1) [of fd] wait_key_nonneg [of fd] unfolding waits_on_def by auto

lemma watch_waiters: "watch_ok E w \<Longrightarrow> waiters (uts w) = asleep (uts w)"
  using waiters_asleep [of "uts w"]
  by (auto simp: watch_ok_def asleep_def waiters_def dest!: key_of_wait(2) bspec)

text \<open>What the uthreads of a \<^verbatim>\<open>p\<close> do not touch: its events and its epoll instance.\<close>

definition io_of :: "ptr \<Rightarrow> 'k world \<Rightarrow> (int \<times> (int \<times> 32 word) list \<times> int) option" where
  "io_of p w = map_option (\<lambda>q. (num_new_events q, eventlist q, poller_fd q)) (ps w p)"

lemma io_trees: "trees_only p w w' \<Longrightarrow> io_of p' w' = io_of p' w"
  by (auto simp: trees_only_def io_of_def)

lemma watch_keep:
  assumes "watch_ok E w" "map_option poller_fd (ps w' (the_p E)) = map_option poller_fd (ps w (the_p E))"
    and "asleep (uts w') = asleep (uts w)" "\<And>a fd. waits_on (uts w') a fd = waits_on (uts w) a fd"
    and "watched E (kern w) \<subseteq> watched E (kern w')"
  shows "watch_ok E w'"
  using assms unfolding watch_ok_def by (cases "ps w' (the_p E)") (auto, blast)

lemma waits_awake:
  assumes "a \<notin> asleep U" "a \<notin> asleep (U(a := x))"
  shows "asleep (U(a := x)) = asleep U" "waits_on (U(a := x)) b fd = waits_on U b fd"
  using assms by (auto simp: asleep_def waits_on_def)

lemma watch_awake:
  assumes "watch_ok E w" "map_option poller_fd (ps w' (the_p E)) = map_option poller_fd (ps w (the_p E))"
    and "uts w' = (uts w)(a := x)" "a \<notin> asleep (uts w)" "a \<notin> asleep ((uts w)(a := x))"
    and "watched E (kern w) \<subseteq> watched E (kern w')"
  shows "watch_ok E w'"
  by (rule watch_keep [OF assms(1,2)]) (use waits_awake [OF assms(4,5)] assms(3,6) in simp_all)

lemma io_poller: "io_of p w' = io_of p w \<Longrightarrow> map_option poller_fd (ps w' p) = map_option poller_fd (ps w p)"
  by (cases "ps w p"; cases "ps w' p") (auto simp: io_of_def)

text \<open>A uthread is woken and its descriptor no longer watched.\<close>

lemma watch_woken:
  assumes w: "watch_ok E w" and q: "ps w (the_p E) = Some q" and u: "waits_on (uts w) a fd"
    and w': "uts w' = (uts w)(a \<mapsto> u')" "\<not> bit (status u') UT_ST_SLEEPING" "io_of (the_p E) w' = io_of (the_p E) w"
      "watched E (kern w) - {(poller_fd q, fd)} \<subseteq> watched E (kern w')"
  shows "watch_ok E w'"
proof -
  have on: "waits_on (uts w') b x \<longleftrightarrow> b \<noteq> a \<and> waits_on (uts w) b x" for b x
    unfolding w'(1) using w'(2) by (auto simp: waits_on_def)
  have sl: "asleep (uts w') = asleep (uts w) - {a}" unfolding w'(1) using w'(2) by (auto simp: asleep_def)
  obtain q' where q': "ps w' (the_p E) = Some q'" "poller_fd q' = poller_fd q"
    using io_poller [OF w'(3)] q by auto
  have "\<exists>x. waits_on (uts w') b x \<and> (poller_fd q, x) \<in> watched E (kern w')" if b: "b \<in> asleep (uts w')" for b
  proof -
    obtain x where x: "waits_on (uts w) b x" "(poller_fd q, x) \<in> watched E (kern w)" "b \<noteq> a"
      using w q b unfolding watch_ok_def sl by auto
    then have "x \<noteq> fd" using w u unfolding watch_ok_def by blast
    with x w'(4) on show ?thesis by blast
  qed
  moreover have "b = c" if "waits_on (uts w') b x" "waits_on (uts w') c x" for b c x
    using that w unfolding on watch_ok_def by blast
  ultimately show ?thesis using q' unfolding watch_ok_def by auto
qed

text \<open>A uthread begins to wait for a descriptor that was not watched.\<close>

lemma watch_parked:
  assumes w: "watch_ok E w" and q: "ps w (the_p E) = Some q" "(poller_fd q, fd) \<notin> watched E (kern w)"
    and u: "a \<notin> asleep (uts w)" "uts w' = (uts w)(a \<mapsto> u')" "bit (status u') UT_ST_SLEEPING" "fd_wait u' = FD_KEY fd e"
      "0 \<le> fd" "fd < 2 ^ 31" "e < 2"
    and w': "io_of (the_p E) w' = io_of (the_p E) w" "insert (poller_fd q, fd) (watched E (kern w)) \<subseteq> watched E (kern w')"
  shows "watch_ok E w'"
proof -
  have self: "waits_on (uts w') a x \<longleftrightarrow> x = fd" for x
  proof
    assume "waits_on (uts w') a x"
    from key_of_wait(1) [OF this] have "FD_ONLY (FD_KEY fd e) = x" using u(2,4) by simp
    then show "x = fd" using FD_KEY_roundtrip(1) [of fd e] u(5-7) by simp
  qed (use u in \<open>auto simp: waits_on_def\<close>)
  have other: "waits_on (uts w') b x \<longleftrightarrow> waits_on (uts w) b x" if "b \<noteq> a" for b x
    using that u(2) by (simp add: waits_on_def)
  have sl: "asleep (uts w') = insert a (asleep (uts w))" unfolding u(2) using u(3) by (auto simp: asleep_def)
  obtain q' where q': "ps w' (the_p E) = Some q'" "poller_fd q' = poller_fd q"
    using io_poller [OF w'(1)] q(1) by auto
  have free: "\<not> waits_on (uts w) b fd" for b
  proof
    assume b: "waits_on (uts w) b fd"
    then have "b \<in> asleep (uts w)" by (auto simp: waits_on_def asleep_def)
    then obtain x where "waits_on (uts w) b x" "(poller_fd q, x) \<in> watched E (kern w)"
      using w q(1) unfolding watch_ok_def by auto
    moreover have "x = fd" using b calculation(1) key_of_wait(1) unfolding waits_on_def by metis
    ultimately show False using q(2) by simp
  qed
  have "\<exists>x. waits_on (uts w') b x \<and> (poller_fd q, x) \<in> watched E (kern w')" if b: "b \<in> asleep (uts w')" for b
  proof (cases "b = a")
    case True
    then show ?thesis using self w'(2) by auto
  next
    case False
    then obtain x where "waits_on (uts w) b x" "(poller_fd q, x) \<in> watched E (kern w)"
      using w q(1) b unfolding watch_ok_def sl by auto
    with False other w'(2) show ?thesis by blast
  qed
  moreover have "b = c" if "waits_on (uts w') b x" "waits_on (uts w') c x" for b c x
    using that w free other self unfolding watch_ok_def by (cases "b = a"; cases "c = a") (auto, blast)
  ultimately show ?thesis using q' unfolding watch_ok_def by auto
qed

end
