(* ===== verification/Ut_Guard.thy ===== *)
theory Ut_Guard
  imports Ut_Steady Ut_Hook
begin

text \<open>
  Guarded code: code of a uthread that commits no memory fault and switches to the scheduler in a steady
  state only.  The operations of the library, and everything that is put together from them,
  are guarded.
\<close>

subsection \<open>Guarantees of a run\<close>

text \<open>The uthread runs; it has gone to sleep; what it may have changed since \<open>w0\<close>.\<close>

definition in_hand :: "'k setting \<Rightarrow> ptr \<Rightarrow> 'k world \<Rightarrow> bool" where
  "in_hand E ut w \<longleftrightarrow> steady E {ut} w \<and> current_is ut w \<and> (\<exists>u. uts w ut = Some u \<and> \<not> bit (status u) UT_ST_NEW)"

definition parked :: "'k setting \<Rightarrow> ptr \<Rightarrow> 'k world \<Rightarrow> bool" where
  "parked E ut w \<longleftrightarrow> steady E {} w \<and>
     (\<exists>u. uts w ut = Some u \<and> bit (status u) UT_ST_SLEEPING \<and> \<not> bit (status u) UT_ST_NEW)"

definition grows :: "ptr \<Rightarrow> 'k world \<Rightarrow> 'k world \<Rightarrow> bool" where
  "grows p w0 w \<longleftrightarrow> (\<forall>a u. uts w0 a = Some u \<longrightarrow> (\<exists>v. uts w a = Some v \<and> kept_code u v)) \<and>
     (\<forall>a v. uts w a = Some v \<and> uts w0 a = None \<longrightarrow> bit (status v) UT_ST_NEW) \<and> io_of p w = io_of p w0"

definition moves :: "'k setting \<Rightarrow> ptr \<Rightarrow> 'k world \<Rightarrow> 'k world \<Rightarrow> bool" where
  "moves E ut w0 w \<longleftrightarrow> (in_hand E ut w \<or> parked E ut w) \<and> grows (the_p E) w0 w"

definition active :: "'k setting \<Rightarrow> ptr \<Rightarrow> 'k world \<Rightarrow> bool" where
  "active E ut w \<longleftrightarrow> in_hand E ut w \<and> \<not> exited ut w"

abbreviation guards ::
  "'k setting \<Rightarrow> ptr \<Rightarrow> ('a \<Rightarrow> 'k world \<Rightarrow> bool) \<Rightarrow> ('k world, 'a) outcome \<Rightarrow> 'k world \<Rightarrow> bool" where
  "guards E ut \<equiv> coop tolerable ut (moves E ut) (active E ut) (exited ut)"

definition guarded :: "'k setting \<Rightarrow> ptr \<Rightarrow> ('k world, 'a) co \<Rightarrow> bool" where
  "guarded E ut c \<longleftrightarrow> (\<forall>w. active E ut w \<longrightarrow> guards E ut (\<lambda>_. active E ut) (c w) w)"

lemma grows_refl [simp]: "grows p w w"
  by (auto simp: grows_def kept_code_def)

lemma grows_trans:
  assumes "grows p w0 w1" "grows p w1 w2"
  shows "grows p w0 w2"
proof -
  have "\<exists>v. uts w2 a = Some v \<and> kept_code u v" if "uts w0 a = Some u" for a u
  proof -
    obtain v where v: "uts w1 a = Some v" "kept_code u v" using assms(1) \<open>uts w0 a = Some u\<close> unfolding grows_def by blast
    then obtain v' where "uts w2 a = Some v'" "kept_code v v'" using assms(2) unfolding grows_def by blast
    with v show ?thesis by (auto simp: kept_code_def)
  qed
  moreover have "bit (status v) UT_ST_NEW" if v: "uts w2 a = Some v" "uts w0 a = None" for a v
  proof (cases "uts w1 a")
    case None
    then show ?thesis using assms(2) v unfolding grows_def by blast
  next
    case (Some u)
    then have "bit (status u) UT_ST_NEW" using assms(1) v unfolding grows_def by blast
    moreover have "kept_code u v" using assms(2) Some v(1) unfolding grows_def by fastforce
    ultimately show ?thesis by (auto simp: kept_code_def)
  qed
  moreover have "io_of p w2 = io_of p w0" using assms by (simp add: grows_def)
  ultimately show ?thesis unfolding grows_def by blast
qed

lemma grows_upd:
  assumes "uts w a = Some u" "kept_code u u'" "uts w' = (uts w)(a \<mapsto> u')" "io_of p w' = io_of p w"
  shows "grows p w w'"
  using assms by (auto simp: grows_def kept_code_def)

lemma grows_io: "uts w' = uts w \<Longrightarrow> io_of p w' = io_of p w \<Longrightarrow> grows p w w'"
  by (auto simp: grows_def kept_code_def)

lemma moves_trans: "moves E ut w0 w1 \<Longrightarrow> moves E ut w1 w2 \<Longrightarrow> moves E ut w0 w2"
  unfolding moves_def using grows_trans by blast

lemma activeD:
  assumes "active E ut w"
  shows "steady E {ut} w" "current_is ut w" "in_hand E ut w" "ut \<noteq> NULL"
    "\<exists>u. uts w ut = Some u \<and> \<not> bit (status u) UT_ST_NEW \<and> \<not> bit (status u) UT_ST_EXITED \<and> \<not> bit (status u) UT_ST_SLEEPING"
proof -
  show s: "steady E {ut} w" "current_is ut w" "in_hand E ut w" using assms by (auto simp: active_def in_hand_def)
  then show "ut \<noteq> NULL" using current_isD(3) by blast
  have "ut \<notin> asleep (uts w)" using core_parts(6) [OF steadyD(3) [OF s(1), unfolded inv_at_def]] by auto
  then show "\<exists>u. uts w ut = Some u \<and> \<not> bit (status u) UT_ST_NEW \<and> \<not> bit (status u) UT_ST_EXITED \<and>
      \<not> bit (status u) UT_ST_SLEEPING"
    using assms unfolding active_def in_hand_def exited_def asleep_def by fastforce
qed

subsection \<open>Composition\<close>

named_theorems guard_intros \<open>rules for guarded code\<close>

lemma guarded_cbind [guard_intros]:
  assumes "guarded E ut m" "\<And>a. guarded E ut (f a)"
  shows "guarded E ut (cbind m f)"
  unfolding guarded_def
proof (intro allI impI)
  fix w
  assume w: "active E ut w"
  have "guards E ut (\<lambda>_. active E ut) (m w) w" using assms(1) w unfolding guarded_def by blast
  then have "guards E ut (\<lambda>a w1. guards E ut (\<lambda>_. active E ut) (f a w1) w1) (m w) w"
    by (rule coop_mono) (use assms(2) in \<open>auto simp: guarded_def\<close>)
  then show "guards E ut (\<lambda>_. active E ut) (cbind m f w) w"
    unfolding cbind_def by (rule coop_and_then [where G = "moves E ut", rotated]) (rule moves_trans)
qed

lemma guarded_cseq [guard_intros]: "guarded E ut m \<Longrightarrow> guarded E ut c \<Longrightarrow> guarded E ut (cseq m c)"
  unfolding cseq_def by (intro guarded_cbind)

lemma guarded_if [guard_intros]: "(b \<Longrightarrow> guarded E ut c) \<Longrightarrow> (\<not> b \<Longrightarrow> guarded E ut d) \<Longrightarrow> guarded E ut (if b then c else d)"
  by simp

lemma guarded_lift:
  assumes "\<And>w. active E ut w \<Longrightarrow>
    (case m w of Inl e \<Rightarrow> tolerable e | Inr (a, w') \<Rightarrow> active E ut w' \<and> grows (the_p E) w w')"
  shows "guarded E ut (lift m)"
  unfolding guarded_def
proof (intro allI impI)
  fix w
  assume "active E ut w"
  from assms [OF this] show "guards E ut (\<lambda>_. active E ut) (lift m w) w"
    by (auto simp: lift_def moves_def active_def split: sum.splits)
qed

lemma guarded_cret [guard_intros]: "guarded E ut (cret a)"
  by (simp add: guarded_def cret_def moves_def active_def)

lemma guarded_cfail [guard_intros]: "tolerable e \<Longrightarrow> guarded E ut (cfail e)"
  by (simp add: guarded_def cfail_def)

lemma guarded_get [guard_intros]: "guarded E ut (lift (oget f))"
  by (rule guarded_lift) (simp add: oget_def)

lemma guarded_oret [guard_intros]: "guarded E ut (lift (oret a))"
  by (rule guarded_lift) (simp add: oret_def)

lemma guarded_assert [guard_intros]: "guarded E ut (lift (oassert b))"
  by (rule guarded_lift) (simp add: oassert_def)

lemma guarded_ut_get [guard_intros]: "guarded E ut (lift (ut_get ut))"
proof (rule guarded_lift)
  fix w
  assume w: "active E ut w"
  then obtain u where "uts w ut = Some u" using activeD(5) by blast
  then have "ut_get ut w = Inr (u, w)" using activeD(4) [OF w] by (simp add: op_simps)
  with w show "case ut_get ut w of Inl e \<Rightarrow> tolerable e | Inr (a, w') \<Rightarrow> active E ut w' \<and> grows (the_p E) w w'" by simp
qed

lemma guarded_obind [guard_intros]:
  "guarded E ut (lift m) \<Longrightarrow> (\<And>a. guarded E ut (lift (f a))) \<Longrightarrow> guarded E ut (lift (obind m f))"
  unfolding lift_obind by (rule guarded_cbind)

lemma guarded_oseq [guard_intros]:
  "guarded E ut (lift m) \<Longrightarrow> guarded E ut (lift c) \<Longrightarrow> guarded E ut (lift (oseq m c))"
  unfolding oseq_def by (rule guarded_obind)

text \<open>The code asks which uthread runs.\<close>

lemma guarded_current:
  assumes "guarded E ut (f ut)"
  shows "guarded E ut (cbind (lift current_ut) f)"
  unfolding guarded_def
proof (intro allI impI)
  fix w
  assume w: "active E ut w"
  have "current_ut w = Inr (ut, w)" by (rule current_ut_run [OF activeD(2) [OF w]])
  then show "guards E ut (\<lambda>_. active E ut) (cbind (lift current_ut) f w) w"
    using assms w by (simp add: lift_run(1) [of current_ut] guarded_def)
qed

subsection \<open>Changes of the running uthread and of the system\<close>

lemma inv_self:
  assumes inv: "inv_at R w" and u: "uts w a = Some u" "a \<in> R" "ut_p u' = ut_p u" "wakeup_time_usec u' = wakeup_time_usec u"
    "\<not> bit (status u') UT_ST_SLEEPING"
  shows "inv_at R (w\<lparr>uts := (uts w)(a \<mapsto> u')\<rparr>)"
proof -
  have c: "core R (waiters (uts w)) w" using inv by (simp add: inv_at_def)
  have a: "a \<notin> asleep (uts w)" "a \<notin> waiters (uts w)" using core_parts(6) [OF c] u(2) waiters_asleep by auto
  have "core R (waiters (uts w)) (w\<lparr>uts := (uts w)(a \<mapsto> u')\<rparr>)"
    by (rule core_unkeyed [OF c u(1) a(2) u(3,4)]) (use a(1) u(1,5) in \<open>auto simp: asleep_def\<close>)
  moreover have "waiters ((uts w)(a \<mapsto> u')) = waiters (uts w)"
    using waiters_upd [where U = "uts w", OF u(1)] u(5) a(2) by simp
  ultimately show ?thesis by (simp add: inv_at_def)
qed

lemma steady_self:
  assumes s: "steady E {ut} w" and u: "uts w ut = Some u" "kin u u'" "wakeup_time_usec u' = wakeup_time_usec u"
    "\<not> bit (status u') UT_ST_SLEEPING"
  shows "steady E {ut} (w\<lparr>uts := (uts w)(ut \<mapsto> u')\<rparr>)"
proof -
  let ?w = "w\<lparr>uts := (uts w)(ut \<mapsto> u')\<rparr>"
  have inv: "inv_at {ut} ?w" by (rule inv_self [OF steadyD(3) [OF s] u(1)]) (use u in \<open>simp_all add: kin_def\<close>)
  note o = steadyD(1) [OF s]
  have "orderly (allocated E) (the_sched E) (the_p E) {ut} ?w"
  proof (rule orderly_keep [OF o inv])
    show "rel_option kin (uts w a) (uts ?w a)" for a using kin_upd [where U = "uts w", OF u(1,2)] by simp
    show "\<not> bit (status v) UT_ST_EXITED" if "uts ?w a = Some v" "a \<notin> {ut}" for a v
      using that orderlyD(10) [OF o] by auto
  qed (use orderlyD(5) [OF o] in simp_all)
  moreover have "ut \<notin> asleep (uts w)" using core_parts(6) [OF steadyD(3) [OF s, unfolded inv_at_def]] by auto
  then have "watch_ok E ?w"
    by (intro watch_awake [OF steadyD(2) [OF s], of ?w ut "Some u'"]) (use u(4) in \<open>auto simp: asleep_def\<close>)
  ultimately show ?thesis by (simp add: steady_def)
qed

lemma in_hand_self:
  assumes w: "in_hand E ut w" and u: "uts w ut = Some u" "kin u u'" "kept_code u u'"
    "wakeup_time_usec u' = wakeup_time_usec u" "\<not> bit (status u') UT_ST_SLEEPING"
  shows "in_hand E ut (w\<lparr>uts := (uts w)(ut \<mapsto> u')\<rparr>)" "grows (the_p E) w (w\<lparr>uts := (uts w)(ut \<mapsto> u')\<rparr>)"
proof -
  have "steady E {ut} (w\<lparr>uts := (uts w)(ut \<mapsto> u')\<rparr>)"
    by (rule steady_self [OF _ u(1,2,4,5)]) (use w in \<open>simp add: in_hand_def\<close>)
  then show "in_hand E ut (w\<lparr>uts := (uts w)(ut \<mapsto> u')\<rparr>)"
    using w u(1,3) by (auto simp: in_hand_def current_is_def kept_code_def)
  show "grows (the_p E) w (w\<lparr>uts := (uts w)(ut \<mapsto> u')\<rparr>)"
    by (rule grows_upd [OF u(1,3)]) (simp_all add: io_of_def)
qed

text \<open>The status bits that the library sets and clears on the running uthread.\<close>

lemma guarded_upd:
  assumes "\<And>u. \<not> bit (status u) UT_ST_SLEEPING \<Longrightarrow> \<not> bit (status u) UT_ST_NEW \<Longrightarrow> \<not> bit (status u) UT_ST_EXITED \<Longrightarrow>
    kin u (f u) \<and> kept_code u (f u) \<and> wakeup_time_usec (f u) = wakeup_time_usec u \<and>
    \<not> bit (status (f u)) UT_ST_SLEEPING \<and> \<not> bit (status (f u)) UT_ST_EXITED"
  shows "guarded E ut (lift (ut_upd ut f))"
proof (rule guarded_lift)
  fix w
  assume w: "active E ut w"
  obtain u where u: "uts w ut = Some u" "\<not> bit (status u) UT_ST_SLEEPING" "\<not> bit (status u) UT_ST_NEW" "\<not> bit (status u) UT_ST_EXITED"
    using activeD(5) [OF w] by blast
  note f = assms [OF u(2-4)]
  have "ut_upd ut f w = Inr ((), w\<lparr>uts := (uts w)(ut \<mapsto> f u)\<rparr>)" using u(1) activeD(4) [OF w] by (simp add: op_simps)
  moreover have "active E ut (w\<lparr>uts := (uts w)(ut \<mapsto> f u)\<rparr>)" "grows (the_p E) w (w\<lparr>uts := (uts w)(ut \<mapsto> f u)\<rparr>)"
    using in_hand_self [OF activeD(3) [OF w] u(1), of "f u"] f by (auto simp: active_def exited_def)
  ultimately show "case ut_upd ut f w of Inl e \<Rightarrow> tolerable e | Inr (a, w') \<Rightarrow> active E ut w' \<and> grows (the_p E) w w'" by simp
qed

lemma steady_kern:
  assumes s: "steady E R w" and "allocated E (kern w) \<subseteq> allocated E k" "watched E (kern w) \<subseteq> watched E k"
  shows "steady E R (w\<lparr>kern := k, errno := x\<rparr>)"
proof -
  let ?w = "w\<lparr>kern := k, errno := x\<rparr>"
  note o = steadyD(1) [OF s]
  have inv: "inv_at R ?w" by (rule inv_fields [OF steadyD(3) [OF s]]) simp_all
  have "orderly (allocated E) (the_sched E) (the_p E) R ?w"
    by (rule orderly_keep [OF o inv]) (use orderlyD(5,10) [OF o] assms(2) in \<open>auto simp: option.rel_refl\<close>)
  moreover have "watch_ok E ?w" by (rule watch_keep [OF steadyD(2) [OF s]]) (use assms(3) in simp_all)
  ultimately show ?thesis by (simp add: steady_def)
qed

lemma active_kern:
  assumes w: "active E ut w" and "allocated E (kern w) \<subseteq> allocated E k" "watched E (kern w) \<subseteq> watched E k"
  shows "active E ut (w\<lparr>kern := k, errno := x\<rparr>)" "grows (the_p E) w (w\<lparr>kern := k, errno := x\<rparr>)"
  using steady_kern [OF activeD(1) [OF w] assms(2,3)] w
  by (auto simp: active_def in_hand_def exited_def current_is_def intro!: grows_io simp: io_of_def)

lemma guarded_libc [guard_intros]:
  assumes os: "sys_ok os E"
  shows "guarded E ut (lift (libc os c))"
proof (rule guarded_lift)
  fix w
  assume w: "active E ut w"
  obtain x e k where x: "os_call os c (kern w) = ((x, e), k)" by (metis surj_pair)
  have "active E ut (w\<lparr>kern := k, errno := y\<rparr>)" "grows (the_p E) w (w\<lparr>kern := k, errno := y\<rparr>)" for y
    using active_kern [OF w alloc_okD(3) [OF sys_okD(1) [OF os] x] sys_okD(8) [OF os x]] by auto
  then show "case libc os c w of Inl e \<Rightarrow> tolerable e | Inr (a, w') \<Rightarrow> active E ut w' \<and> grows (the_p E) w w'"
    using libc_run [OF x] by simp
qed

lemma guarded_errno [guard_intros]: "guarded E ut (lift (oupd (\<lambda>w. w\<lparr>errno := x\<rparr>)))"
proof (rule guarded_lift)
  fix w
  assume w: "active E ut w"
  have "w\<lparr>kern := kern w, errno := x\<rparr> = w\<lparr>errno := x\<rparr>" by simp
  with active_kern [OF w subset_refl subset_refl, of x]
  show "case oupd (\<lambda>w. w\<lparr>errno := x\<rparr>) w of Inl e \<Rightarrow> tolerable e | Inr (a, w') \<Rightarrow> active E ut w' \<and> grows (the_p E) w w'"
    by (simp add: oupd_def)
qed

subsection \<open>Switches to the scheduler\<close>

lemma guards_yield:
  assumes w: "in_hand E ut w" and u: "uts w ut = Some u"
    and f: "exited ut w \<or> (\<forall>w'. active E ut w' \<longrightarrow> guards E ut Q (f w') w')"
  shows "guards E ut Q (cseq uthread_yield f w) w"
proof -
  let ?u = "u\<lparr>is_wating_yield_signal := 0\<rparr>" let ?w = "w\<lparr>uts := (uts w)(ut \<mapsto> ?u)\<rparr>"
  have ns: "\<not> bit (status u) UT_ST_SLEEPING"
  proof -
    have "inv_at {ut} w" using w steadyD(3) by (auto simp: in_hand_def)
    from core_parts(6) [OF this [unfolded inv_at_def]] u show ?thesis by (auto simp: asleep_def)
  qed
  have cur: "current_is ut w" using w by (simp add: in_hand_def)
  have "moves E ut w ?w"
    using in_hand_self [OF w u, of ?u] ns by (auto simp: moves_def kin_def kept_code_def)
  moreover have "exited ut ?w \<longleftrightarrow> exited ut w" using u by (simp add: exited_def)
  moreover have "cseq uthread_yield f w = Susp ut ?w f" by (rule cseq_Susp) (rule yield_suspends [OF cur u])
  ultimately show ?thesis using f by simp
qed

lemma guarded_yield [guard_intros]: "guarded E ut uthread_yield"
  unfolding guarded_def
proof (intro allI impI)
  fix w
  assume w: "active E ut w"
  then obtain u where u: "uts w ut = Some u" using activeD(5) by blast
  have "guards E ut (\<lambda>_. active E ut) (cseq uthread_yield (cret ()) w) w"
    by (rule guards_yield [OF activeD(3) [OF w] u]) (simp add: cret_def moves_def active_def)
  then show "guards E ut (\<lambda>_. active E ut) (uthread_yield w) w" by (simp add: yield_ret)
qed

text \<open>The end of a uthread: after the mark it does not run again.\<close>

lemma guards_end:
  assumes w: "active E ut w" and u: "uts w ut = Some u"
  shows "guards E ut Q (cseq uthread_yield f (w\<lparr>uts := (uts w)(ut \<mapsto> ended u)\<rparr>)) w"
proof -
  let ?w = "w\<lparr>uts := (uts w)(ut \<mapsto> ended u)\<rparr>"
  have "\<not> bit (status u) UT_ST_SLEEPING" using activeD(5) [OF w] u by auto
  then have h: "in_hand E ut ?w" "grows (the_p E) w ?w"
    using in_hand_self [OF activeD(3) [OF w] u, of "ended u"] by (auto simp: kin_def kept_code_def)
  have "guards E ut Q (cseq uthread_yield f ?w) ?w"
    by (rule guards_yield [where u = "ended u", OF h(1)]) (simp_all add: exited_def)
  then show ?thesis
    by (rule coop_base) (use h in \<open>auto simp: moves_def intro: moves_trans grows_trans\<close>)
qed

lemma guarded_exit [guard_intros]: "guarded E ut (uthread_exit rv)"
  unfolding guarded_def
proof (intro allI impI)
  fix w
  assume w: "active E ut w"
  then obtain u where u: "uts w ut = Some u" using activeD(5) by blast
  have "ut_joined u = NULL" by (rule orderlyD(8) [OF steadyD(1) [OF activeD(1) [OF w]] u])
  then have "exit_enter rv w = Inr ((), w\<lparr>uts := (uts w)(ut \<mapsto> ended u)\<rparr>)"
    using u activeD(4) [OF w] current_ut_run [OF activeD(2) [OF w]] by (simp add: exit_enter_def op_simps)
  then have e: "uthread_exit rv w = cseq uthread_yield (cret ()) (w\<lparr>uts := (uts w)(ut \<mapsto> ended u)\<rparr>)"
    unfolding uthread_exit_def yield_ret by (simp only: lift_run(2) [of "exit_enter rv"])
  show "guards E ut (\<lambda>_. active E ut) (uthread_exit rv w) w" unfolding e by (rule guards_end [OF w u])
qed

text \<open>Creation.\<close>

lemma guarded_create_ut:
  assumes os: "sys_ok os E" and s: "s = the_sched E"
  shows "guarded E ut (lift (create_ut os s f ar))"
proof (rule guarded_lift)
  fix w
  assume w: "active E ut w"
  note st = activeD(1) [OF w] and o = steadyD(1) [OF activeD(1) [OF w]]
  obtain a k1 stk q w' where w': "os_malloc os (kern w) = (a, k1)" "os_memalign os k1 = ((0, stk), kern w')"
    "create_ut os s f ar w = Inr ((0, a), w')" "orderly (allocated E) (the_sched E) (the_p E) {ut} w'" "uts w a = None"
    "uts w' = (uts w)(a \<mapsto> new_uthread (next_ut_id (glob w)) (the_p E) f ar stk)" "ps w (the_p E) = Some q"
    "ps w' = (ps w)(the_p E \<mapsto> q\<lparr>ready := ready q @ [a]\<rparr>)" "scheds w' = scheds w" "tsd w' = tsd w"
    using create_orderly [OF sys_okD(1) [OF os] o, of f ar] s by blast
  have io: "io_of (the_p E) w' = io_of (the_p E) w" using w'(7,8) by (simp add: io_of_def)
  have "watched E (kern w) \<subseteq> watched E (kern w')" using sys_okD(6) [OF os w'(1)] sys_okD(7) [OF os w'(2)] by blast
  then have "watch_ok E w'"
    by (rule watch_awake [OF steadyD(2) [OF st] io_poller [OF io] w'(6), rotated 2]) (use w'(5) in \<open>auto simp: asleep_def new_uthread_def\<close>)
  then have "steady E {ut} w'" using w'(4) by (simp add: steady_def)
  moreover have na: "ut \<noteq> a" using activeD(5) [OF w] w'(5) by auto
  ultimately have "active E ut w'" using w w'(6,9,10) by (auto simp: active_def in_hand_def current_is_def exited_def)
  moreover have "grows (the_p E) w w'" using w'(5,6) io by (auto simp: grows_def kept_code_def new_uthread_def split: if_splits)
  ultimately show "case create_ut os s f ar w of Inl e \<Rightarrow> tolerable e | Inr (x, w') \<Rightarrow> active E ut w' \<and> grows (the_p E) w w'"
    using w'(3) by simp
qed

lemma guarded_create [guard_intros]:
  assumes os: "sys_ok os E"
  shows "guarded E ut (uthread_create os f ar)"
  unfolding guarded_def
proof (intro allI impI)
  fix w
  assume w: "active E ut w"
  note o = steadyD(1) [OF activeD(1) [OF w]]
  have "uthread_create os f ar w = lift (create_ut os (the_sched E) f ar) w"
    using orderlyD(3,4) [OF o] by (simp add: uthread_create_def sched_get_def get_co)
  with guarded_create_ut [OF os refl, of ut f ar] w show "guards E ut (\<lambda>_. active E ut) (uthread_create os f ar w) w"
    unfolding guarded_def by simp
qed

subsection \<open>Waiting\<close>

lemma guarded_register_leave: "guarded E ut (register_leave ut e)"
  unfolding register_leave_def sleep_leave_def
  by (intro guard_intros guarded_upd) (auto simp: kin_def kept_code_def wait_status_def)

text \<open>No waiter has the key of a descriptor that is not watched.\<close>

lemma key_free:
  assumes w: "watch_ok E w" and q: "ps w (the_p E) = Some q" "(poller_fd q, fd) \<notin> watched E (kern w)"
    and fd: "0 \<le> fd" "fd < 2 ^ 31" "e < 2" and b: "b \<in> waiters (uts w)"
  shows "wkey (uts w) b \<noteq> sint (FD_KEY fd e)"
proof
  assume k: "wkey (uts w) b = sint (FD_KEY fd e)"
  have "b \<in> asleep (uts w)" using b waiters_asleep by blast
  then obtain x u where x: "waits_on (uts w) b x" "(poller_fd q, x) \<in> watched E (kern w)" "uts w b = Some u"
    using w q(1) unfolding watch_ok_def asleep_def by auto
  have "fd_wait u = FD_KEY fd e" using k x(3) by (intro iffD2 [OF word_eq_iff_signed]) (simp add: wkey_def)
  then have "x = fd" using key_of_wait(1) [OF x(1,3)] FD_KEY_roundtrip(1) [of fd e] fd by simp
  with x(2) q(2) show False by simp
qed

lemma parks_waiter:
  assumes w: "active E ut w" and u: "uts w ut = Some u" and q: "ps w (the_p E) = Some q"
    and fd: "(poller_fd q, fd) \<notin> watched E (kern w)" "0 \<le> fd" "fd < 2 ^ 31" "e < 2"
    and w': "inv_at {} w'" "uts w' = (uts w)(ut \<mapsto> slept t (registered fd e u))" "trees_only (ut_p u) w w'"
      "allocated E (kern w) \<subseteq> allocated E (kern w')" "insert (poller_fd q, fd) (watched E (kern w)) \<subseteq> watched E (kern w')"
  shows "parked E ut w'" "grows (the_p E) w w'"
proof -
  let ?u = "slept t (registered fd e u)"
  note st = activeD(1) [OF w] and o = steadyD(1) [OF activeD(1) [OF w]]
  have u': "\<not> bit (status u) UT_ST_NEW" "\<not> bit (status u) UT_ST_EXITED" "\<not> bit (status u) UT_ST_SLEEPING"
    using activeD(5) [OF w] u by auto
  have io: "io_of (the_p E) w' = io_of (the_p E) w" by (rule io_trees [OF w'(3)])
  have bits: "\<not> bit (status ?u) UT_ST_NEW" "\<not> bit (status ?u) UT_ST_EXITED" using u' by (simp_all add: wait_status_def)
  have "orderly (allocated E) (the_sched E) (the_p E) {} w'"
  proof (rule orderly_keep [OF o w'(1)])
    have "kin u ?u" by (simp add: kin_def slept_def registered_def)
    then show "rel_option kin (uts w a) (uts w' a)" for a unfolding w'(2) by (rule kin_upd [where U = "uts w", OF u])
    show "\<not> bit (status v) UT_ST_EXITED" if "uts w' a = Some v" "a \<notin> {}" for a v
      using that(1) orderlyD(10) [OF o] bits(2) unfolding w'(2) by (auto split: if_splits)
    show "the_p E \<in> dom (ps w')" using w'(3) orderlyD(5) [OF o] by (auto simp: trees_only_def)
  qed (use w'(3,4) in \<open>auto simp: trees_only_def\<close>)
  moreover have "ut \<notin> asleep (uts w)" using u u'(3) by (simp add: asleep_def)
  then have "watch_ok E w'"
    by (rule watch_parked [OF steadyD(2) [OF st] q fd(1) _ w'(2) _ _ fd(2-4) io w'(5)]) simp_all
  ultimately have "steady E {} w'" by (simp add: steady_def)
  then show "parked E ut w'" using w'(2) bits(1) by (simp add: parked_def)
  have "kept_code u ?u" using u'(1) bits(1) by (simp add: kept_code_def slept_def registered_def)
  then show "grows (the_p E) w w'" using io by (intro grows_upd [OF u _ w'(2)])
qed

lemma guarded_register [guard_intros]:
  assumes os: "sys_ok os E" and e: "e < 2"
  shows "guarded E ut (register_event os ut fd e ms)"
  unfolding guarded_def
proof (intro allI impI)
  fix w
  assume w: "active E ut w"
  note st = activeD(1) [OF w] and o = steadyD(1) [OF activeD(1) [OF w]] and inv = steadyD(3) [OF activeD(1) [OF w]]
  obtain u where u: "uts w ut = Some u" "\<not> bit (status u) UT_ST_SLEEPING" using activeD(5) [OF w] by blast
  have up: "ut_p u = the_p E" by (rule orderlyD(7) [OF o u(1)])
  obtain sc q where sq: "scheds w (tsd w) = Some sc" "sched_p sc = the_p E" "tsd w \<noteq> NULL" "ps w (the_p E) = Some q"
    using orderlyD(3-6) [OF o] by auto
  have c: "core {ut} (waiters (uts w)) w" using inv by (simp add: inv_at_def)
  have p0: "the_p E \<noteq> NULL" using core_parts(2) [OF c] sq(4) by (metis domI)
  obtain r k1 where ctl: "os_epoll_ctl os (poller_fd q) EPOLL_CTL_ADD fd (event_mask e) (kern w) = (r, k1)" by force
  show "guards E ut (\<lambda>_. active E ut) (register_event os ut fd e ms w) w"
  proof (cases "r = 0")
    case False
    then have "wait_enter os ut fd e w = Inl AssertFail"
      using wait_enter_refused [OF sq(1,3) _ _ _ False, of q os fd e k1 ut] ctl sq(2,4) p0 by simp
    then show ?thesis by (simp add: register_event_def lift_run(5) [of "wait_enter os ut fd e"])
  next
    case True
    note add = sys_okD(4) [OF os ctl]
    have fd: "0 \<le> fd" "fd < 2 ^ 31" "(poller_fd q, fd) \<notin> watched E (kern w)" using add True by auto
    have key: "\<forall>b \<in> of_p (uts w) (ut_p u) \<inter> waiters (uts w). wkey (uts w) b \<noteq> sint (FD_KEY fd e)"
      using key_free [OF steadyD(2) [OF st] sq(4) fd(3,1,2) e] by blast
    obtain now k2 where now: "os_gettimeofday os k1 = (now, k2)" by fastforce
    note clock = sys_okD(2) [OF os now]
    show ?thesis
    proof (cases "\<exists>b \<in> of_p (uts w) (ut_p u) \<inter> asleep (uts w). skey (uts w) b = wake_at now ms")
      case False
      then obtain w' where w': "register_event os ut fd e ms w = Susp ut w' (register_leave ut e)" "inv_at {} w'"
        "uts w' = (uts w)(ut \<mapsto> slept (wake_at now ms) (registered fd e u))" "kern w' = k2" "trees_only (ut_p u) w w'"
        using register_event_core [OF inv _ activeD(2) [OF w] u(1) sq(1) _ _ fd(1,2) e _ key now, of q ms] sq(2,4) p0 ctl True
        by auto
      have "parked E ut w'" "grows (the_p E) w w'"
        using parks_waiter [OF w u(1) sq(4) fd(3,1,2) e w'(2,3,5)] add clock True w'(4) by auto
      moreover have "\<forall>s'. active E ut s' \<longrightarrow> guards E ut (\<lambda>_. active E ut) (register_leave ut e s') s'"
        using guarded_register_leave unfolding guarded_def by blast
      ultimately show ?thesis using w'(1) by (simp add: moves_def)
    next
      case True
      then obtain b where b: "b \<in> of_p (uts w) (ut_p u) \<inter> asleep (uts w)" "skey (uts w) b = wake_at now ms" by blast
      have "ut \<notin> waiters (uts w)" using u by (simp add: waiters_def)
      then obtain q' wm root where e': "wait_enter os ut fd e w = Inr ((), w\<lparr>kern := k1, uts := (uts w)(ut \<mapsto> registered fd e u),
          wait_mem := wm, ps := (ps w)(ut_p u \<mapsto> q'\<lparr>waiting := root\<rparr>)\<rparr>)"
        "core {ut} (insert ut (waiters (uts w))) (w\<lparr>kern := k1, uts := (uts w)(ut \<mapsto> registered fd e u),
          wait_mem := wm, ps := (ps w)(ut_p u \<mapsto> q'\<lparr>waiting := root\<rparr>)\<rparr>)"
        using wait_enter_core [OF c u(1) _ sq(1,3) _ _ _ key, of q os k1] sq(2,4) p0 ctl \<open>r = 0\<close> by auto
      let ?w = "w\<lparr>kern := k1, uts := (uts w)(ut \<mapsto> registered fd e u), wait_mem := wm,
          ps := (ps w)(ut_p u \<mapsto> q'\<lparr>waiting := root\<rparr>)\<rparr>"
      have "b \<noteq> ut" using b u by (auto simp: asleep_def)
      then have "sleep_enter os ut ms ?w = Inl AssertFail"
        using sleep_enter_same_time [OF e'(2), of "registered fd e u" os now k2 b ms] now b u(1)
        by (auto simp: of_p_def asleep_def skey_def)
      then have "uthread_sched_sleep os ut ms ?w = Fail AssertFail"
        by (simp add: uthread_sched_sleep_def lift_run(5) [of "sleep_enter os ut ms"])
      then have "register_event os ut fd e ms w = Fail AssertFail"
        unfolding register_event_def lift_run(2) [of "wait_enter os ut fd e", OF e'(1)] by (simp add: cseq_def cbind_def)
      then show ?thesis by simp
    qed
  qed
qed

subsection \<open>The socket operations\<close>

text \<open>\<open>rd\<close>, \<open>wr\<close> and \<open>call\<close> are what the operations call under the names of the system calls.\<close>

lemma guarded_accept_loop: "sys_ok os E \<Longrightarrow> guarded E ut (accept_loop os ut fd n)"
proof (induction n)
  case (Suc n)
  then show ?case by (simp only: accept_loop.simps) (intro guard_intros; simp)
qed (simp add: guard_intros)

lemma guarded_connect_loop: "sys_ok os E \<Longrightarrow> guarded E ut (connect_loop os ut fd n)"
proof (induction n)
  case (Suc n)
  then show ?case by (simp only: connect_loop.simps) (intro guard_intros; simp)
qed (simp add: guard_intros)

lemma guarded_recv_loop: "sys_ok os E \<Longrightarrow> guarded E ut rd \<Longrightarrow> guarded E ut (recv_loop os rd t ut fd n)"
proof (induction n)
  case (Suc n)
  then show ?case by (simp only: recv_loop.simps) (intro guard_intros; simp)
qed (simp add: guard_intros)

lemma guarded_exact_loop:
  "sys_ok os E \<Longrightarrow> (\<And>off l. guarded E ut (rd off l)) \<Longrightarrow> guarded E ut (exact_loop os rd ut fd len recvd n)"
proof (induction n arbitrary: recvd)
  case (Suc n)
  then show ?case by (simp only: exact_loop.simps) (intro guard_intros; simp)
qed (simp add: guard_intros)

lemma guarded_send_loop:
  "sys_ok os E \<Longrightarrow> (\<And>off l. guarded E ut (wr off l)) \<Longrightarrow> guarded E ut (send_loop os wr ut fd len sent n)"
proof (induction n arbitrary: sent)
  case (Suc n)
  then show ?case by (simp only: send_loop.simps) (intro guard_intros; simp)
qed (simp add: guard_intros)

lemma guarded_sendmsg_loop: "sys_ok os E \<Longrightarrow> guarded E ut wr \<Longrightarrow> guarded E ut (sendmsg_loop os wr ut fd n)"
proof (induction n)
  case (Suc n)
  then show ?case by (simp only: sendmsg_loop.simps) (intro guard_intros; simp)
qed (simp add: guard_intros)

lemma guarded_writev_loop:
  "sys_ok os E \<Longrightarrow> (\<And>c. guarded E ut (call c)) \<Longrightarrow> guarded E ut (writev_loop os call ut fd iov tot n)"
proof (induction n arbitrary: iov tot)
  case (Suc n)
  then show ?case
    by (simp only: writev_loop.simps) (intro guard_intros; simp add: guard_intros split: prod.split)
qed (simp add: guard_intros)

lemmas guarded_loops = guarded_accept_loop guarded_connect_loop guarded_recv_loop guarded_exact_loop guarded_send_loop
  guarded_sendmsg_loop guarded_writev_loop

lemmas socket_defs = uthread_accept_def uthread_connect_def uthread_read_def uthread_recv_def uthread_recvmsg_def
  uthread_recvfrom_def uthread_recv_exact_def uthread_read_exact_def uthread_write_def uthread_send_def uthread_sendmsg_def
  uthread_sendto_def uthread_writev_def

lemma guarded_socket:
  assumes "sys_ok os E"
  shows "guarded E ut (lift (uthread_socket os domain type prot))" "guarded E ut (uthread_accept os n fd)"
    "guarded E ut (uthread_connect os n fd)" "guarded E ut (uthread_read os n fd buf l)"
    "guarded E ut (uthread_write os n fd buf len)"
  using assms unfolding uthread_socket_def socket_defs
  by (intro guard_intros guarded_current guarded_loops; assumption)+

lemma guarded_named:
  assumes "sys_ok os E" "\<And>c. guarded E ut (call c)"
  shows "guarded E ut (uthread_recv os call n fd buf l flags)" "guarded E ut (uthread_recvmsg os call n fd flags)"
    "guarded E ut (uthread_recvfrom os call n fd l flags)" "guarded E ut (uthread_recv_exact os call n fd buf len flags)"
    "guarded E ut (uthread_read_exact os call n fd buf len)" "guarded E ut (uthread_send os call n fd buf len flags)"
    "guarded E ut (uthread_sendmsg os call n fd flags)" "guarded E ut (uthread_sendto os call n fd l flags)"
    "guarded E ut (uthread_writev os call n fd iov)"
  unfolding socket_defs by (intro guarded_current guarded_loops assms)+

text \<open>All hooks are guarded, those that call themselves too: they run out of stack without touching anything.\<close>

lemma guarded_hook:
  assumes os: "sys_ok os E"
  shows "guarded E ut (hook os n d c)"
proof (induction d arbitrary: c)
  case (Suc d)
  show ?case using os Suc by (cases c) (simp_all add: guarded_socket guarded_named guarded_libc)
qed (simp add: guard_intros)

lemma guarded_threads:
  assumes "sys_ok os E"
  shows "guarded E ut (pthread_create os f a)" "guarded E ut (pthread_exit rv)" "guarded E ut (recv_exact os n d fd buf len flags)"
    "guarded E ut (read_exact os n d fd buf len)"
  using assms unfolding pthread_create_def pthread_exit_def recv_exact_def read_exact_def
  by (auto intro!: guard_intros guarded_named guarded_hook)

end
