(* ===== verification/Ut_Safe.thy ===== *)
theory Ut_Safe
  imports Ut_Guard
begin

text \<open>
  The scheduler running guarded uthreads: every turn of its loops leaves a sound machine or ends in a crash that is
  no memory fault, and so does the whole program.
\<close>

subsection \<open>Results\<close>

definition op_ok :: "('a \<Rightarrow> 's \<Rightarrow> bool) \<Rightarrow> ('a \<times> 's) res \<Rightarrow> bool" where
  "op_ok Q r \<longleftrightarrow> (case r of Inl e \<Rightarrow> tolerable e | Inr (a, s) \<Rightarrow> Q a s)"

definition loop_ok :: "('s \<Rightarrow> bool) \<Rightarrow> 's loop \<Rightarrow> bool" where
  "loop_ok Q r \<longleftrightarrow> (case r of None \<Rightarrow> True | Some (Inl e) \<Rightarrow> tolerable e | Some (Inr s) \<Rightarrow> Q s)"

lemma op_ok_simps [simp]: "op_ok Q (Inl e) = tolerable e" "op_ok Q (Inr (a, s)) = Q a s"
  by (simp_all add: op_ok_def)

lemma loop_ok_simps [simp]:
  "loop_ok Q None" "loop_ok Q (Some (Inl e)) = tolerable e" "loop_ok Q (Some (Inr s)) = Q s"
  by (simp_all add: loop_ok_def)

lemma op_ok_cases:
  assumes "op_ok Q r"
  obtains (crash) e where "r = Inl e" "tolerable e" | (result) a s where "r = Inr (a, s)" "Q a s"
  using assms by (cases r) (auto simp: op_ok_def)

lemma op_ok_mono: "op_ok P r \<Longrightarrow> (\<And>a s. P a s \<Longrightarrow> Q a s) \<Longrightarrow> op_ok Q r"
  by (auto simp: op_ok_def split: sum.splits)

lemma op_ok_obind: "op_ok (\<lambda>a s'. op_ok Q (f a s')) (m s) \<Longrightarrow> op_ok Q (obind m f s)"
  by (auto simp: op_ok_def obind_def split: sum.splits)

lemma op_ok_oseq: "op_ok (\<lambda>_ s'. op_ok Q (f s')) (m s) \<Longrightarrow> op_ok Q (oseq m f s)"
  unfolding oseq_def by (rule op_ok_obind)

lemma loop_ok_then: "loop_ok P r \<Longrightarrow> (\<And>s. P s \<Longrightarrow> loop_ok Q (f s)) \<Longrightarrow> loop_ok Q (then_op r f)"
  by (cases r rule: option.exhaust) (auto simp: then_op_def split: sum.splits)

lemma while_turn_ok:
  assumes turn: "\<And>s. I s \<Longrightarrow> op_ok (\<lambda>_. I) (turn s)" and s: "I s"
  shows "loop_ok I (while_turn turn s)"
proof (cases "while_turn turn s")
  case (Some r)
  have "turn = turn \<longrightarrow> I s \<longrightarrow> loop_ok I (Some r)"
  proof (rule while_turn.raw_induct [where P = "\<lambda>turn' s r. turn' = turn \<longrightarrow> I s \<longrightarrow> loop_ok I (Some r)", OF _ Some], intro impI)
    fix f turn' s r
    assume IH: "\<And>t s r. f t s = Some r \<Longrightarrow> t = turn \<longrightarrow> I s \<longrightarrow> loop_ok I (Some r)"
      and eq: "(case turn' s of Inl e \<Rightarrow> Some (Inl e) | Inr (again, s') \<Rightarrow> if again then f turn' s' else Some (Inr s')) = Some r"
      and "turn' = turn" "I s"
    from turn [OF \<open>I s\<close>] show "loop_ok I (Some r)"
    proof (cases rule: op_ok_cases)
      case (crash e)
      then show ?thesis using eq \<open>turn' = turn\<close> by auto
    next
      case (result again s')
      then show ?thesis using eq \<open>turn' = turn\<close> IH [of turn s' r] by (cases again) auto
    qed
  qed
  then show ?thesis using s Some by simp
qed simp

subsection \<open>The machine\<close>

definition secure :: "'k setting \<Rightarrow> ptr \<Rightarrow> ('k world, unit) co \<Rightarrow> bool" where
  "secure E ut c \<longleftrightarrow> (\<forall>w. active E ut w \<longrightarrow> guards E ut (\<lambda>_ _. False) (c w) w)"

text \<open>No uthread is in hand, the state is steady, and the rest of the code of every uthread is guarded.\<close>

definition sound :: "'k setting \<Rightarrow> (ptr \<Rightarrow> ptr \<Rightarrow> ('k world, unit) co) \<Rightarrow> 'k machine \<Rightarrow> bool" where
  "sound E prog m \<longleftrightarrow> steady E {} (fst m) \<and> coded prog (\<lambda>_. secure E) m"

text \<open>What is assumed of the program and the system.\<close>

definition guarded_prog :: "'k setting \<Rightarrow> (ptr \<Rightarrow> ptr \<Rightarrow> ('k world, 'a) co) \<Rightarrow> bool" where
  "guarded_prog E prog \<longleftrightarrow> (\<forall>f x ut. guarded E ut (prog f x))"

definition stale_ok :: "'k os \<Rightarrow> bool" where
  "stale_ok os \<longleftrightarrow> (\<forall>u. ut_id u < MAX_COUNT_UTHREAD \<longrightarrow> ut_id (after_free os u) < MAX_COUNT_UTHREAD)"

lemma secure_cbind:
  assumes "guarded E ut m" "\<And>a. secure E ut (f a)"
  shows "secure E ut (cbind m f)"
  unfolding secure_def
proof (intro allI impI)
  fix w
  assume w: "active E ut w"
  have "guards E ut (\<lambda>_. active E ut) (m w) w" using assms(1) w unfolding guarded_def by blast
  then have "guards E ut (\<lambda>a w1. guards E ut (\<lambda>_ _. False) (f a w1) w1) (m w) w"
    by (rule coop_mono) (use assms(2) in \<open>auto simp: secure_def\<close>)
  then show "guards E ut (\<lambda>_ _. False) (cbind m f w) w"
    unfolding cbind_def by (rule coop_and_then [where G = "moves E ut", rotated]) (rule moves_trans)
qed

lemma secure_end: "secure E ut (cseq (lift (ut_upd ut ended)) (cseq uthread_yield c))"
  unfolding secure_def
proof (intro allI impI)
  fix w
  assume w: "active E ut w"
  then obtain u where u: "uts w ut = Some u" using activeD(5) by blast
  have "ut_upd ut ended w = Inr ((), w\<lparr>uts := (uts w)(ut \<mapsto> ended u)\<rparr>)" using u activeD(4) [OF w] by (simp add: op_simps)
  then have "cseq (lift (ut_upd ut ended)) (cseq uthread_yield c) w = cseq uthread_yield c (w\<lparr>uts := (uts w)(ut \<mapsto> ended u)\<rparr>)"
    by (simp only: lift_run(2) [of "ut_upd ut ended"])
  then show "guards E ut (\<lambda>_ _. False) (cseq (lift (ut_upd ut ended)) (cseq uthread_yield c) w) w"
    using guards_end [OF w u] by simp
qed

lemma exec_secure: "guarded_prog E prog \<Longrightarrow> secure E ut (uthread_exec prog ut)"
  unfolding uthread_exec_def
  by (rule secure_cbind [OF guarded_ut_get], subst cseq_def, rule secure_cbind [OF _ secure_end])
    (simp add: guarded_prog_def)

subsection \<open>Resuming a uthread\<close>

lemma enter_safe:
  assumes os: "sys_ok os E" and s: "steady E {a} w" and u: "uts w a = Some u" "\<not> bit (status u) UT_ST_EXITED"
  shows "\<exists>w1. resume_enter os prog (the_sched E) a (w, k) =
      Inr ((), w1, if bit (status u) UT_ST_NEW then k(a \<mapsto> uthread_exec prog a) else k) \<and>
    active E a w1 \<and> uts w1 = (uts w)(a \<mapsto> started u) \<and> io_of (the_p E) w1 = io_of (the_p E) w"
proof -
  obtain w1 n where w1: "resume_enter os prog (the_sched E) a (w, k) =
      Inr ((), w1, if bit (status u) UT_ST_NEW then k(a \<mapsto> uthread_exec prog a) else k)"
    "orderly (allocated E) (the_sched E) (the_p E) {a} w1" "current_is a w1" "uts w1 = (uts w)(a \<mapsto> started u)" "ps w1 = ps w"
    "os_malloc os (kern w) = (n, kern w1)"
    using resume_enter_orderly [OF sys_okD(1) [OF os] steadyD(1) [OF s] u] by blast
  have a: "a \<notin> asleep (uts w)" using core_parts(6) [OF steadyD(3) [OF s, unfolded inv_at_def]] by auto
  then have st: "\<not> bit (status (started u)) UT_ST_SLEEPING" "\<not> bit (status (started u)) UT_ST_NEW"
    "\<not> bit (status (started u)) UT_ST_EXITED"
    using u by (auto simp: started_def asleep_def)
  have "watch_ok E w1"
    by (rule watch_awake [OF steadyD(2) [OF s] _ w1(4) a])
      (use st(1) w1(5) sys_okD(6) [OF os w1(6)] in \<open>auto simp: asleep_def\<close>)
  then have "active E a w1" using w1(2-4) st by (simp add: active_def in_hand_def steady_def exited_def)
  with w1 show ?thesis by (auto simp: io_of_def)
qed

lemma steady_ps:
  assumes s: "steady E R w" and inv: "inv_at R' (w\<lparr>ps := (ps w)(the_p E \<mapsto> q'), scheds := S\<rparr>)"
    and q: "ps w (the_p E) = Some q" "poller_fd q' = poller_fd q"
    and sc: "\<And>a. map_option (\<lambda>sc. (sched_p sc, sched_stack sc)) (S a) = map_option (\<lambda>sc. (sched_p sc, sched_stack sc)) (scheds w a)"
    and ex: "\<And>a u. uts w a = Some u \<Longrightarrow> a \<notin> R' \<Longrightarrow> \<not> bit (status u) UT_ST_EXITED"
  shows "steady E R' (w\<lparr>ps := (ps w)(the_p E \<mapsto> q'), scheds := S\<rparr>)"
proof -
  let ?w = "w\<lparr>ps := (ps w)(the_p E \<mapsto> q'), scheds := S\<rparr>"
  have "orderly (allocated E) (the_sched E) (the_p E) R' ?w"
    by (rule orderly_keep [OF steadyD(1) [OF s] inv]) (use sc ex in \<open>auto simp: option.rel_refl\<close>)
  moreover have "watch_ok E ?w" by (rule watch_keep [OF steadyD(2) [OF s]]) (use q in simp_all)
  ultimately show ?thesis by (simp add: steady_def)
qed

lemma leave_safe:
  assumes af: "stale_ok os" and w: "in_hand E a w \<or> parked E a w"
  shows "\<exists>w'. resume_leave os (the_sched E) a w = Inr (0, w') \<and> steady E {} w' \<and>
    uts w' = (if exited a w then (uts w)(a := None) else uts w) \<and> io_of (the_p E) w' = io_of (the_p E) w"
proof (cases "parked E a w")
  case True
  then obtain u where s: "steady E {} w" and u: "uts w a = Some u" "bit (status u) UT_ST_SLEEPING" by (auto simp: parked_def)
  note o = steadyD(1) [OF s]
  have ne: "\<not> bit (status u) UT_ST_EXITED" using orderlyD(10) [OF o u(1)] by simp
  obtain sc q where sc: "scheds w (the_sched E) = Some sc" "the_sched E \<noteq> NULL" "ps w (the_p E) = Some q" using orderlyD(3,5,6) [OF o] by auto
  have a0: "a \<noteq> NULL" using coreD(1) [OF steadyD(3) [OF s, unfolded inv_at_def] u(1)] .
  let ?S = "(scheds w)(the_sched E \<mapsto> sc\<lparr>cur_uthread := NULL\<rparr>)"
  have idem: "(ps w)(the_p E \<mapsto> q) = ps w" using sc(3) by (simp add: fun_upd_idem)
  have "resume_leave os (the_sched E) a w = Inr (0, w\<lparr>scheds := ?S\<rparr>)"
    using a0 u sc ne by (simp add: resume_leave_def op_simps)
  moreover have "inv_at {} (w\<lparr>scheds := ?S\<rparr>)" by (rule inv_fields [OF steadyD(3) [OF s]]) simp_all
  then have "steady E {} (w\<lparr>scheds := ?S\<rparr>)"
    using steady_ps [where R' = "{}" and q' = q and S = ?S and q = q, OF s] sc orderlyD(10) [OF o] unfolding idem by simp
  moreover have "\<not> exited a w" using u ne by (simp add: exited_def)
  ultimately show ?thesis by (intro exI [of _ "w\<lparr>scheds := ?S\<rparr>"]) (simp add: io_of_def)
next
  case False
  then have s: "steady E {a} w" using w by (simp add: in_hand_def)
  note o = steadyD(1) [OF s]
  obtain u where u: "uts w a = Some u" using w False by (auto simp: in_hand_def)
  have na: "a \<notin> asleep (uts w)" using core_parts(6) [OF steadyD(3) [OF s, unfolded inv_at_def]] by auto
  show ?thesis
  proof (cases "exited a w")
    case True
    then have "bit (status u) UT_ST_EXITED" using u by (simp add: exited_def)
    from resume_leave_freed [OF o u this] af obtain w' where w': "resume_leave os (the_sched E) a w = Inr (0, w')"
      "orderly (allocated E) (the_sched E) (the_p E) {} w'" "uts w' = (uts w)(a := None)" "ps w' = ps w" "kern w' = kern w"
      by (auto simp: stale_ok_def)
    have "watch_ok E w'"
      by (rule watch_awake [OF steadyD(2) [OF s] _ w'(3) na]) (use w'(4,5) in \<open>auto simp: asleep_def\<close>)
    with w' True show ?thesis by (auto simp: steady_def io_of_def)
  next
    case False
    then have ne: "\<not> bit (status u) UT_ST_EXITED" using u by (simp add: exited_def)
    obtain w' q where w': "resume_leave os (the_sched E) a w = Inr (0, w')"
      "orderly (allocated E) (the_sched E) (the_p E) {} w'" "uts w' = uts w" "kern w' = kern w" "ps w (the_p E) = Some q"
      "ps w' = (ps w)(the_p E \<mapsto> q\<lparr>ready := ready q @ [a]\<rparr>)"
      using resume_leave_kept [OF o u ne, of os] by blast
    have "watch_ok E w'" by (rule watch_keep [OF steadyD(2) [OF s]]) (use w'(3-6) in simp_all)
    with w' False show ?thesis by (auto simp: steady_def io_of_def)
  qed
qed

lemma resume_safe:
  assumes os: "sys_ok os E" "stale_ok os" "guarded_prog E prog"
    and s: "steady E {a} w" and ok: "coded prog (\<lambda>_. secure E) (w, k)"
    and u: "uts w a = Some u" "\<not> bit (status u) UT_ST_EXITED"
  shows "op_ok (\<lambda>_ m. sound E prog m \<and> io_of (the_p E) (fst m) = io_of (the_p E) w) (uthread_resume os prog a (w, k))"
proof -
  let ?k1 = "if bit (status u) UT_ST_NEW then k(a \<mapsto> uthread_exec prog a) else k"
  have tsd: "tsd w = the_sched E" using orderlyD(4) [OF steadyD(1) [OF s]] .
  obtain w1 where w1: "resume_enter os prog (the_sched E) a (w, k) = Inr ((), w1, ?k1)" "active E a w1"
    "uts w1 = (uts w)(a \<mapsto> started u)" "io_of (the_p E) w1 = io_of (the_p E) w"
    using enter_safe [OF os(1) s u] by blast
  obtain co where co: "code_of prog k a u = Some co" "secure E a co" using ok u(1) by (auto simp: coded_def)
  have k1: "?k1 a = Some co" using co(1) by (simp add: code_of_def split: if_splits)
  have g: "guards E a (\<lambda>_ _. False) (co w1) w1" using co(2) w1(2) unfolding secure_def by blast
  show ?thesis
  proof (cases "co w1")
    case (Fail e)
    then have "uthread_resume os prog a (w, k) = Inl e"
      using w1(1) k1 tsd by (simp add: uthread_resume_def op_simps switch_to_def)
    then show ?thesis using g Fail by simp
  next
    case (Susp x w2 c')
    then have sw: "x = a" "moves E a w1 w2" "exited a w2 \<or> secure E a c'" using g unfolding secure_def by auto
    then obtain w' where w': "resume_leave os (the_sched E) a w2 = Inr (0, w')" "steady E {} w'"
      "uts w' = (if exited a w2 then (uts w2)(a := None) else uts w2)" "io_of (the_p E) w' = io_of (the_p E) w2"
      using leave_safe [OF os(2)] unfolding moves_def by blast
    let ?k' = "?k1(a \<mapsto> c')"
    have run: "uthread_resume os prog a (w, k) = Inr (0, w', ?k')"
      using w1(1) k1 Susp sw(1) w'(1) tsd by (simp add: uthread_resume_def op_simps switch_to_def)
    have gr: "grows (the_p E) w1 w2" using sw(2) by (simp add: moves_def)
    have "coded prog (\<lambda>_. secure E) (w', ?k')"
    proof (rule coded_after [OF ok exec_secure [OF os(3)], where a = a])
      fix b v
      assume b: "uts w b = Some v" "b \<noteq> a"
      then have "uts w1 b = Some v" using w1(3) by simp
      then obtain v' where "uts w2 b = Some v'" "kept_code v v'" using gr unfolding grows_def by blast
      with b(2) w'(3) show "\<exists>v'. uts w' b = Some v' \<and> kept_code v v' \<and> ?k' b = k b" by auto
    next
      fix b v
      assume b: "uts w' b = Some v" "uts w b = None"
      then have "uts w2 b = Some v" "uts w1 b = None" using w'(3) w1(3) u(1) by (auto split: if_splits)
      then show "bit (status v) UT_ST_NEW" using gr unfolding grows_def by blast
    next
      fix v
      assume "uts w' a = Some v"
      then have "uts w2 a = Some v" "\<not> exited a w2" using w'(3) by (auto split: if_splits)
      then show "\<exists>c. code_of prog ?k' a v = Some c \<and> secure E a c"
        using sw(2,3) by (auto simp: moves_def in_hand_def parked_def code_of_def)
    qed
    then show ?thesis using run w'(2,4) w1(4) gr by (simp add: sound_def grows_def)
  qed (use g in simp)
qed

subsection \<open>The turns of the scheduler\<close>

text \<open>The scheduler of a sound machine, and its \<^verbatim>\<open>p\<close>.\<close>

lemma steady_sched:
  assumes "steady E R w"
  shows "\<exists>sc q. scheds w (the_sched E) = Some sc \<and> sched_p sc = the_p E \<and> the_sched E \<noteq> NULL \<and> tsd w = the_sched E \<and>
    ps w (the_p E) = Some q \<and> the_p E \<noteq> NULL"
proof -
  note o = steadyD(1) [OF assms]
  obtain sc q where sq: "scheds w (the_sched E) = Some sc" "sched_p sc = the_p E" "the_sched E \<noteq> NULL" "tsd w = the_sched E"
    "ps w (the_p E) = Some q" using orderlyD(3-6) [OF o] by auto
  moreover have "the_p E \<noteq> NULL"
    using core_parts(2) [OF steadyD(3) [OF assms, unfolded inv_at_def]] sq(5) by (metis domI)
  ultimately show ?thesis by blast
qed

lemma coded_upd:
  assumes "coded prog (\<lambda>_. L) (w, k)" "uts w a = Some u" "uts w' = (uts w)(a \<mapsto> u')" "kept_code u u'"
  shows "coded prog (\<lambda>_. L) (w', k)"
  using assms unfolding coded_def by (auto simp: code_of_def kept_code_def)

lemma ready_turn_safe:
  assumes os: "sys_ok os E" "stale_ok os" "guarded_prog E prog" and m: "sound E prog m"
  shows "op_ok (\<lambda>_. sound E prog) (ready_turn os prog (the_sched E) lr m)"
proof -
  obtain w k where w: "m = (w, k)" by fastforce
  have s: "steady E {} w" and ok: "coded prog (\<lambda>_. secure E) (w, k)" using m w by (simp_all add: sound_def)
  obtain sc q where sq: "scheds w (the_sched E) = Some sc" "sched_p sc = the_p E" "the_sched E \<noteq> NULL"
    "ps w (the_p E) = Some q" "the_p E \<noteq> NULL"
    using steady_sched [OF s] by blast
  show ?thesis
  proof (cases "ready q")
    case Nil
    then show ?thesis using sq m w by (simp add: ready_turn_def op_simps)
  next
    case (Cons a as)
    let ?q = "q\<lparr>ready := as\<rparr>" let ?w = "w\<lparr>ps := (ps w)(the_p E \<mapsto> ?q)\<rparr>"
    have c: "core {} (waiters (uts w)) w" using steadyD(3) [OF s] by (simp add: inv_at_def)
    have take: "inv_at {a} ?w" "\<exists>u. uts w a = Some u"
      using core_take [OF c sq(4), of a] Cons by (auto simp: inv_at_def)
    note ex = orderlyD(10) [OF steadyD(1) [OF s]]
    have "?w\<lparr>scheds := scheds w\<rparr> = ?w" by simp
    then have st: "steady E {a} ?w"
      using steady_ps [where R' = "{a}" and q' = ?q and S = "scheds w" and q = q, OF s] take(1) sq(4) ex by simp
    obtain u where u: "uts ?w a = Some u" "\<not> bit (status u) UT_ST_EXITED" using take(2) ex by auto
    have ok1: "coded prog (\<lambda>_. secure E) (?w, k)" using ok by (simp add: coded_def)
    have up: "p_upd (the_p E) (\<lambda>q. q\<lparr>ready := remove1 a (ready q)\<rparr>) w = Inr ((), ?w)"
      using sq(4,5) Cons by (simp add: op_simps)
    have run: "ready_turn os prog (the_sched E) lr m = oseq (uthread_resume os prog a)
        (obind (on_world (s_get (the_sched E))) (\<lambda>sc. oret (sched_p sc \<noteq> NULL \<and> a \<noteq> lr))) (?w, k)"
      using sq Cons up w by (simp add: ready_turn_def op_simps)
    show ?thesis unfolding run
    proof (rule op_ok_oseq, rule op_ok_mono [OF resume_safe [OF os st ok1 u]])
      fix x m'
      assume "sound E prog m' \<and> io_of (the_p E) (fst m') = io_of (the_p E) ?w"
      then obtain w' k' where m': "m' = (w', k')" "steady E {} w'" "sound E prog m'"
        by (cases m') (auto simp: sound_def)
      obtain sc' where "scheds w' (the_sched E) = Some sc'" using steady_sched [OF m'(2)] by blast
      with m' sq(3) show "op_ok (\<lambda>_. sound E prog)
          (obind (on_world (s_get (the_sched E))) (\<lambda>sc. oret (sched_p sc \<noteq> NULL \<and> a \<noteq> lr)) m')"
        by (simp add: op_simps)
    qed
  qed
qed

text \<open>A wait ends: the uthread is taken off the trees and its descriptor is no longer watched.\<close>

lemma woken_steady:
  assumes s: "steady E {} w" and u: "uts w a = Some u" "waits_on (uts w) a fd" and q: "ps w (the_p E) = Some q"
    and w': "inv_at {a} w'" "uts w' = (uts w)(a \<mapsto> v)" "kin u v" "\<not> bit (status v) UT_ST_SLEEPING" "trees_only (the_p E) w w'"
      "allocated E (kern w) \<subseteq> allocated E (kern w')" "watched E (kern w) - {(poller_fd q, fd)} \<subseteq> watched E (kern w')"
  shows "steady E {a} w'"
proof -
  note o = steadyD(1) [OF s]
  have "orderly (allocated E) (the_sched E) (the_p E) {a} w'"
  proof (rule orderly_keep [OF o w'(1)])
    show "rel_option kin (uts w b) (uts w' b)" for b unfolding w'(2) by (rule kin_upd [where U = "uts w", OF u(1) w'(3)])
    show "\<not> bit (status x) UT_ST_EXITED" if "uts w' b = Some x" "b \<notin> {a}" for b x
      using that orderlyD(10) [OF o] unfolding w'(2) by auto
    show "the_p E \<in> dom (ps w')" using w'(5) q by (auto simp: trees_only_def)
  qed (use w'(5,6) in \<open>auto simp: trees_only_def\<close>)
  moreover have "watch_ok E w'" by (rule watch_woken [OF steadyD(2) [OF s] q u(2) w'(2,4) io_trees [OF w'(5)] w'(7)])
  ultimately show ?thesis by (simp add: steady_def)
qed

lemma wake_simps [simp]:
  "func (woken u) = func u" "ut_joined (woken u) = ut_joined u" "ut_id (woken u) = ut_id u" "is_main (woken u) = is_main u"
  "stack (woken u) = stack u" "func (unwatched u) = func u"
  by (simp_all add: woken_def unwatched_def)

lemma eof_simps [simp]:
  "func (eof_marked b u) = func u" "ut_p (eof_marked b u) = ut_p u" "ut_joined (eof_marked b u) = ut_joined u"
  "ut_id (eof_marked b u) = ut_id u" "is_main (eof_marked b u) = is_main u" "stack (eof_marked b u) = stack u"
  "n \<noteq> UT_ST_FDEOF \<Longrightarrow> bit (status (eof_marked b u)) n = bit (status u) n"
  by (simp_all add: eof_marked_def)

lemma handle_event_safe:
  assumes os: "sys_ok os E" "stale_ok os" "guarded_prog E prog" and m: "sound E prog m"
  shows "op_ok (\<lambda>_ m'. sound E prog m' \<and> io_of (the_p E) (fst m') = io_of (the_p E) (fst m)) (handle_event os prog fd e eof m)"
proof -
  obtain w k where w: "m = (w, k)" by fastforce
  have s: "steady E {} w" and ok: "coded prog (\<lambda>_. secure E) (w, k)" using m w by (simp_all add: sound_def)
  note o = steadyD(1) [OF s] and inv = steadyD(3) [OF s]
  obtain sc q where sq: "scheds w (tsd w) = Some sc" "sched_p sc = the_p E" "tsd w \<noteq> NULL"
    "ps w (the_p E) = Some q" "the_p E \<noteq> NULL"
    using steady_sched [OF s] by auto
  have c: "core {} (waiters (uts w)) w" using inv by (simp add: inv_at_def)
  show ?thesis
  proof (cases "\<exists>a \<in> of_p (uts w) (the_p E) \<inter> waiters (uts w). wkey (uts w) a = sint (FD_KEY fd e)")
    case False
    then have "uthread_desched_event fd e w = Inr (NULL, w)"
      using desched_event_none [OF c sq(1,3), of q fd e] sq(2,4,5) by simp
    then show ?thesis using m unfolding w by (simp add: handle_event_def op_simps)
  next
    case True
    then obtain a u where a: "a \<in> waiters (uts w)" "uts w a = Some u" "sint (fd_wait u) = sint (FD_KEY fd e)"
      by (auto simp: waiters_def wkey_def)
    have key: "fd_wait u = FD_KEY fd e" using a(3) by (intro iffD2 [OF word_eq_iff_signed])
    have up: "ut_p u = the_p E" by (rule orderlyD(7) [OF o a(2)])
    obtain x where x: "waits_on (uts w) a x" using steadyD(2) [OF s] waiters_asleep [of "uts w"] a(1) unfolding watch_ok_def by blast
    note on = key_of_wait [OF x a(2)]
    obtain r k' where ctl: "os_epoll_ctl os (poller_fd q) EPOLL_CTL_DEL fd (unwatch_mask (woken u)) (kern w) = (r, k')" by force
    note del = sys_okD(5) [OF os(1) ctl]
    let ?v = "eof_marked eof (unwatched (woken u))"
    obtain w' where w': "handle_event os prog fd e eof (w, k) =
        (if fd = FD_ONLY (fd_wait u) \<and> r = 0 then obind (uthread_resume os prog a) (\<lambda>_. oret ()) (w', k) else Inl AssertFail)"
      "inv_at {a} w'" "uts w' = (uts w)(a \<mapsto> ?v)" "kern w' = k'" "trees_only (ut_p u) w w'"
      using handle_event_found [OF inv sq(1,3) _ a(2) _ a(1) key, of q os r k' prog eof k] sq(2,4) up ctl by auto
    show ?thesis
    proof (cases "fd = FD_ONLY (fd_wait u) \<and> r = 0")
      case False
      then show ?thesis unfolding w w'(1) by auto
    next
      case fd: True
      have kin: "kin u ?v" "kept_code u ?v" by (simp_all add: kin_def kept_code_def)
      have "steady E {a} w'"
        by (rule woken_steady [OF s a(2) x sq(4) w'(2,3) kin(1)]) (use fd on(1) up w'(4,5) del in auto)
      moreover have "coded prog (\<lambda>_. secure E) (w', k)" by (rule coded_upd [OF ok a(2) w'(3) kin(2)])
      moreover have "uts w' a = Some ?v" "\<not> bit (status ?v) UT_ST_EXITED"
        using w'(3) orderlyD(10) [OF o a(2)] by simp_all
      ultimately have "op_ok (\<lambda>_ m. sound E prog m \<and> io_of (the_p E) (fst m) = io_of (the_p E) w') (uthread_resume os prog a (w', k))"
        by (rule resume_safe [OF os])
      moreover have "io_of (the_p E) w' = io_of (the_p E) w" by (rule io_trees [OF w'(5)])
      ultimately have "op_ok (\<lambda>_ m. sound E prog m \<and> io_of (the_p E) (fst m) = io_of (the_p E) w)
          (obind (uthread_resume os prog a) (\<lambda>_. oret ()) (w', k))"
        by (intro op_ok_obind) (erule op_ok_mono, simp add: op_simps)
      then show ?thesis using w'(1) fd w by simp
    qed
  qed
qed

lemma expired_turn_safe:
  assumes os: "sys_ok os E" "stale_ok os" "guarded_prog E prog" and m: "sound E prog m"
  shows "op_ok (\<lambda>_. sound E prog) (expired_turn os prog (the_sched E) m)"
proof -
  obtain w k where w: "m = (w, k)" by fastforce
  have s: "steady E {} w" and ok: "coded prog (\<lambda>_. secure E) (w, k)" using m w by (simp_all add: sound_def)
  note o = steadyD(1) [OF s] and inv = steadyD(3) [OF s]
  obtain sc q where sq: "scheds w (the_sched E) = Some sc" "sched_p sc = the_p E" "the_sched E \<noteq> NULL" "tsd w = the_sched E"
    "ps w (the_p E) = Some q" "the_p E \<noteq> NULL"
    using steady_sched [OF s] by blast
  have c: "core {} (waiters (uts w)) w" using inv by (simp add: inv_at_def)
  from c sq(5) show ?thesis
  proof (cases rule: first_sleeper_cases)
    case none
    then show ?thesis using sq m w by (simp add: expired_turn_def op_simps of_tree_def)
  next
    case (least a)
    then obtain u where u: "uts w a = Some u" "a \<in> asleep (uts w)" by (auto simp: asleep_def)
    have up: "ut_p u = the_p E" by (rule orderlyD(7) [OF o u(1)])
    have wa: "a \<in> waiters (uts w)" using u(2) watch_waiters [OF steadyD(2) [OF s]] by simp
    obtain x e where x: "waits_on (uts w) a x" "fd_wait u = FD_KEY x e" "0 \<le> x" "x < 2 ^ 31" "e < 2"
      using steadyD(2) [OF s] u unfolding watch_ok_def waits_on_def by fastforce
    note on = key_of_wait [OF x(1) u(1)]
    obtain sec usec k1 where now: "os_gettimeofday os (kern w) = ((sec, usec), k1)" by (metis surj_pair)
    note clock = sys_okD(2) [OF os(1) now]
    let ?w = "w\<lparr>kern := k1\<rparr>"
    have "w\<lparr>kern := k1, errno := errno w\<rparr> = ?w" by simp
    then have s1: "steady E {} ?w" using steady_kern [OF s, of k1 "errno w"] clock by simp
    have ok1: "coded prog (\<lambda>_. secure E) (?w, k)" using ok by (simp add: coded_def)
    note look = expired_turn_look [OF c sq(3,1) _ least(1) u(1) now, of prog k]
    show ?thesis
    proof (cases "wakeup_time_usec u \<le> sec * 1000000 + usec")
      case False
      then show ?thesis using look sq(2,5) s1 ok1 w by (simp add: sound_def)
    next
      case True
      obtain r k2 where ctl: "os_epoll_ctl os (poller_fd q) EPOLL_CTL_DEL x (unwatch_mask u) k1 = (r, k2)" by force
      note del = sys_okD(5) [OF os(1) ctl]
      show ?thesis
      proof (cases "r = 0")
        case False
        have "core {} (waiters (uts w)) ?w" by (rule core_fields [OF c]) simp_all
        then have "uthread_cancel_event os a ?w = Inl AssertFail"
          by (rule cancel_event_refused [where u = u and q = q and k = k2, OF _ _ _ _ False]) (use u(1) up sq(5) on(1) ctl in simp_all)
        then show ?thesis using look True sq(2,5) w by (simp add: op_simps)
      next
        case r: True
        let ?v = "(woken (unwatched u))\<lparr>fd_wait := -1\<rparr>"
        let ?v' = "?v\<lparr>status := status ?v OR BIT UT_ST_EXPIRED\<rparr>"
        obtain w1 where w1: "uthread_cancel_event os a ?w = Inr ((), w1)" "inv_at {a} w1" "uts w1 = (uts w)(a \<mapsto> ?v)"
          "kern w1 = k2" "trees_only (ut_p u) ?w w1"
          using cancel_event_core [OF steadyD(3) [OF s1], of a u x e sc q os k2] u wa x sq up ctl r by auto
        have kin: "kin u ?v" by (simp add: kin_def)
        have s2: "steady E {a} w1"
          by (rule woken_steady [OF s1, of a u x q w1 ?v])
            (use u(1) x(1) sq(5) w1 kin up del in \<open>auto simp: trees_only_def\<close>)
        have v: "uts w1 a = Some ?v" using w1(3) by simp
        obtain w2 where w2: "oseq (uthread_desched_sleep a) (ut_upd a (\<lambda>u. u\<lparr>status := status u OR BIT UT_ST_EXPIRED\<rparr>)) w1 = Inr ((), w2)"
          "w2 = w1\<lparr>uts := (uts w1)(a \<mapsto> ?v')\<rparr>"
          using mark_expired_core [OF w1(2) v] by blast
        obtain w1' where w1': "uthread_desched_sleep a w1 = Inr ((), w1')"
          "ut_upd a (\<lambda>u. u\<lparr>status := status u OR BIT UT_ST_EXPIRED\<rparr>) w1' = Inr ((), w2)"
          using w2(1) by (auto simp: oseq_Inr_iff)
        have run: "expired_turn os prog (the_sched E) m = oseq (uthread_resume os prog a) (oret True) (w2, k)"
          using look True sq(2,5) w1(1) w1' w by (simp add: op_simps)
        have s3: "steady E {a} w2" unfolding w2(2) by (rule steady_self [OF s2 v]) (simp_all add: kin_def)
        have u2: "uts w2 = (uts w)(a \<mapsto> ?v')" using w2(2) w1(3) by simp
        have "kept_code u ?v'" by (simp add: kept_code_def)
        from coded_upd [OF ok u(1) u2 this] have "coded prog (\<lambda>_. secure E) (w2, k)" .
        from resume_safe [OF os s3 this] have "op_ok (\<lambda>_ m. sound E prog m) (uthread_resume os prog a (w2, k))"
          using u2 orderlyD(10) [OF o u(1)] by (auto elim: op_ok_mono)
        then show ?thesis unfolding run by (intro op_ok_oseq) (erule op_ok_mono, simp add: op_simps)
      qed
    qed
  qed
qed

text \<open>The number of new events never exceeds the length of the list.\<close>

definition events_ok :: "ptr \<Rightarrow> 'k world \<Rightarrow> bool" where
  "events_ok p w \<longleftrightarrow> (\<exists>n evs ep. io_of p w = Some (n, evs, ep) \<and> 0 \<le> n \<and> n \<le> int (length evs))"

lemma events_turn_safe:
  assumes os: "sys_ok os E" "stale_ok os" "guarded_prog E prog" and m: "sound E prog m \<and> events_ok (the_p E) (fst m)"
  shows "op_ok (\<lambda>_ m. sound E prog m \<and> events_ok (the_p E) (fst m)) (events_turn os prog (the_sched E) m)"
proof -
  obtain w k where w: "m = (w, k)" by fastforce
  have s: "steady E {} w" and ok: "coded prog (\<lambda>_. secure E) (w, k)" using m w by (simp_all add: sound_def)
  obtain sc q where sq: "scheds w (the_sched E) = Some sc" "sched_p sc = the_p E" "the_sched E \<noteq> NULL"
    "ps w (the_p E) = Some q" "the_p E \<noteq> NULL"
    using steady_sched [OF s] by blast
  let ?i = "num_new_events q - 1"
  have n: "0 \<le> num_new_events q" "num_new_events q \<le> int (length (eventlist q))"
    using m w sq(4) by (auto simp: events_ok_def io_of_def)
  show ?thesis
  proof (cases "num_new_events q = 0")
    case True
    then show ?thesis using sq m w by (simp add: events_turn_def op_simps)
  next
    case False
    obtain fd ev where ev: "eventlist q ! nat ?i = (fd, ev)" by fastforce
    let ?eof = "ev AND EPOLLHUP \<noteq> 0" and ?q = "q\<lparr>num_new_events := ?i\<rparr>"
    let ?w = "w\<lparr>ps := (ps w)(the_p E \<mapsto> ?q)\<rparr>" and ?x = "if ev AND EPOLLHUP \<noteq> 0 then ECONNRESET else errno w"
    have run: "events_turn os prog (the_sched E) m = oseq (handle_event os prog fd UT_EVENT_RD ?eof)
        (oseq (handle_event os prog fd UT_EVENT_WR ?eof) (oret True)) (?w\<lparr>errno := ?x\<rparr>, k)"
      using sq n False ev w by (simp add: events_turn_def op_simps owhen_def oupd_def oret_def)
    have "inv_at {} (?w\<lparr>scheds := scheds w\<rparr>)"
      using core_p_like [OF steadyD(3) [OF s, unfolded inv_at_def] sq(4), of ?q] by (simp add: inv_at_def)
    then have "steady E {} ?w"
      using steady_ps [where R' = "{}" and q' = ?q and S = "scheds w" and q = q, OF s] sq(4) orderlyD(10) [OF steadyD(1) [OF s]] by simp
    from steady_kern [OF this subset_refl subset_refl, of ?x] have "steady E {} (?w\<lparr>errno := ?x\<rparr>)" by simp
    then have s1: "sound E prog (?w\<lparr>errno := ?x\<rparr>, k)" using ok by (simp add: sound_def coded_def)
    let ?S = "\<lambda>m. sound E prog m \<and> io_of (the_p E) (fst m) = io_of (the_p E) ?w"
    have "op_ok (\<lambda>_. ?S) (handle_event os prog fd UT_EVENT_RD ?eof (?w\<lparr>errno := ?x\<rparr>, k))"
      by (rule op_ok_mono [OF handle_event_safe [OF os s1]]) (simp add: io_of_def)
    then have "op_ok (\<lambda>_. ?S) (events_turn os prog (the_sched E) m)"
      unfolding run
    proof (intro op_ok_oseq, elim op_ok_mono)
      fix m'
      assume m': "?S m'"
      show "op_ok (\<lambda>_. ?S) (oseq (handle_event os prog fd UT_EVENT_WR ?eof) (oret True) m')"
        by (rule op_ok_oseq, rule op_ok_mono [OF handle_event_safe [OF os conjunct1 [OF m']]]) (use m' in \<open>simp add: op_simps\<close>)
    qed
    then show ?thesis
    proof (rule op_ok_mono)
      fix m'
      assume "?S m'"
      then show "sound E prog m' \<and> events_ok (the_p E) (fst m')" using n False by (auto simp: events_ok_def io_of_def)
    qed
  qed
qed

subsection \<open>Polling\<close>

definition later :: "'k setting \<Rightarrow> 'k \<Rightarrow> 'k \<Rightarrow> bool" where
  "later E k k' \<longleftrightarrow> allocated E k \<subseteq> allocated E k' \<and> watched E k \<subseteq> watched E k'"

lemma later_trans: "later E a b \<Longrightarrow> later E b c \<Longrightarrow> later E a c"
  by (auto simp: later_def)

lemma now_later:
  assumes "sys_ok os E"
  shows "\<exists>t k. get_usec_now os w = Inr (t, w\<lparr>kern := k\<rparr>) \<and> later E (kern w) k"
proof -
  obtain sec usec k where now: "os_gettimeofday os (kern w) = ((sec, usec), k)" by (metis surj_pair)
  then show ?thesis using sys_okD(2) [OF assms now] by (auto simp: get_usec_now_def op_simps later_def)
qed

lemma min_timeout_later:
  assumes os: "sys_ok os E" and s: "steady E {} w"
  shows "\<exists>t k. uthread_min_timeout os (the_sched E) w = Inr (t, w\<lparr>kern := k\<rparr>) \<and> later E (kern w) k"
proof -
  obtain sc q where sq: "scheds w (the_sched E) = Some sc" "sched_p sc = the_p E" "the_sched E \<noteq> NULL"
    "ps w (the_p E) = Some q" "the_p E \<noteq> NULL"
    using steady_sched [OF s] by blast
  have c: "core {} (waiters (uts w)) w" using steadyD(3) [OF s] by (simp add: inv_at_def)
  from c sq(4) show ?thesis
  proof (cases rule: first_sleeper_cases)
    case none
    then have "uthread_min_timeout os (the_sched E) w = Inr (1000000, w\<lparr>kern := kern w\<rparr>)"
      using sq by (simp add: uthread_min_timeout_def op_simps of_tree_def)
    then show ?thesis by (intro exI [of _ 1000000] exI [of _ "kern w"]) (simp add: later_def)
  next
    case (least a)
    then obtain u where u: "uts w a = Some u" by (auto simp: asleep_def)
    have a0: "a \<noteq> NULL" by (rule coreD(1) [OF c u])
    obtain t k where t: "get_usec_now os w = Inr (t, w\<lparr>kern := k\<rparr>)" "later E (kern w) k" using now_later [OF os] by blast
    obtain t' k' where t': "get_usec_now os (w\<lparr>kern := k\<rparr>) = Inr (t', w\<lparr>kern := k'\<rparr>)" "later E k k'"
      using now_later [OF os, of "w\<lparr>kern := k\<rparr>"] by auto
    have "uthread_min_timeout os (the_sched E) w =
        (if t < wakeup_time_usec u then Inr (wakeup_time_usec u - t', w\<lparr>kern := k'\<rparr>) else Inr (0, w\<lparr>kern := k\<rparr>))"
      using sq least(1) u a0 t(1) t'(1) by (simp add: uthread_min_timeout_def op_simps)
    then show ?thesis using t(2) later_trans [OF t(2) t'(2)]
      by (cases "t < wakeup_time_usec u") (simp only: if_True if_False, blast)+
  qed
qed

lemma epoll_wait_ok:
  assumes os: "sys_ok os E" and ret: "epoll_wait_loop os fd t w = Some r"
  shows "case r of Inl e \<Rightarrow> e = AssertFail
    | Inr ((n, evs), w') \<Rightarrow> n = int (length evs) \<and> (\<exists>k x. w' = w\<lparr>kern := k, errno := x\<rparr> \<and> later E (kern w) k)"
proof -
  let ?Q = "\<lambda>w r. case r of Inl e \<Rightarrow> e = AssertFail
    | Inr ((n, evs), w') \<Rightarrow> n = int (length evs) \<and> (\<exists>k x. w' = w\<lparr>kern := k, errno := x\<rparr> \<and> later E (kern w) k)"
  have "os = os \<longrightarrow> ?Q w r"
  proof (rule epoll_wait_loop.raw_induct [where P = "\<lambda>os' fd t w r. os' = os \<longrightarrow> ?Q w r", OF _ ret], intro impI)
    fix f os' fd t w r
    assume IH: "\<And>o' fd t w r. f o' fd t w = Some r \<Longrightarrow> o' = os \<longrightarrow> ?Q w r" and "os' = os"
      and eq: "(case os_epoll_wait os' fd t (kern w) of ((ret, evs, e), k) \<Rightarrow>
          (let w = w\<lparr>kern := k, errno := (if ret = -1 then e else errno w)\<rparr> in
           if ret = -1 \<and> errno w = EINTR then f os' fd t w
           else if ret = -1 then Some (Inl AssertFail) else Some (Inr ((ret, evs), w)))) = Some r"
    obtain n evs e k where wait: "os_epoll_wait os fd t (kern w) = ((n, evs, e), k)" by (metis surj_pair)
    note c = sys_okD(3) [OF os wait]
    let ?w = "w\<lparr>kern := k, errno := (if n = -1 then e else errno w)\<rparr>"
    have l: "later E (kern w) k" using c by (simp add: later_def)
    show "?Q w r"
    proof (cases "n = -1 \<and> e = EINTR")
      case True
      then have "f os fd t ?w = Some r" using eq wait \<open>os' = os\<close> by (simp add: Let_def)
      with IH have again: "?Q ?w r" by blast
      show ?thesis
      proof (cases r)
        case (Inr y)
        then obtain n' evs' k' x where y: "y = ((n', evs'), ?w\<lparr>kern := k', errno := x\<rparr>)" "n' = int (length evs')" "later E k k'"
          using again by (cases y) auto
        then have "y = ((n', evs'), w\<lparr>kern := k', errno := x\<rparr>)" by simp
        then show ?thesis using Inr y(2) later_trans [OF l y(3)] by auto
      qed (use again in simp)
    next
      case False
      then have "r = (if n = -1 then Inl AssertFail else Inr ((n, evs), ?w))"
        using eq wait \<open>os' = os\<close> by (auto simp: Let_def split: if_splits)
      moreover have "\<exists>k' x. ?w = w\<lparr>kern := k', errno := x\<rparr> \<and> later E (kern w) k'" using l by blast
      ultimately show ?thesis using c by (cases "n = -1") simp_all
    qed
  qed
  then show ?thesis by simp
qed

lemma poll_safe:
  assumes os: "sys_ok os E" and m: "sound E prog (w, k)"
  shows "loop_ok (\<lambda>w'. sound E prog (w', k) \<and> events_ok (the_p E) w') (uthread_poll os w)"
proof -
  have s: "steady E {} w" and ok: "coded prog (\<lambda>_. secure E) (w, k)" using m by (simp_all add: sound_def)
  obtain sc q where sq: "scheds w (the_sched E) = Some sc" "sched_p sc = the_p E" "the_sched E \<noteq> NULL" "tsd w = the_sched E"
    "ps w (the_p E) = Some q" "the_p E \<noteq> NULL"
    using steady_sched [OF s] by blast
  have like: "sound E prog (w\<lparr>ps := (ps w)(the_p E \<mapsto> q'), kern := k', errno := x\<rparr>, k)"
    if q': "ready q' = ready q" "sleeping q' = sleeping q" "waiting q' = waiting q" "poller_fd q' = poller_fd q"
      and l: "later E (kern w) k'" for q' k' x
  proof -
    let ?w = "w\<lparr>ps := (ps w)(the_p E \<mapsto> q')\<rparr>"
    have "inv_at {} (?w\<lparr>scheds := scheds w\<rparr>)"
      using core_p_like [OF steadyD(3) [OF s, unfolded inv_at_def] sq(5) q'(1-3)] by (simp add: inv_at_def)
    then have "steady E {} ?w"
      using steady_ps [where R' = "{}" and q' = q' and S = "scheds w" and q = q, OF s] sq(5) q'(4) orderlyD(10) [OF steadyD(1) [OF s]] by simp
    from steady_kern [OF this, of k' x] l have "steady E {} (?w\<lparr>kern := k', errno := x\<rparr>)" by (simp add: later_def)
    then show ?thesis using ok by (simp add: sound_def coded_def)
  qed
  let ?q = "q\<lparr>num_new_events := 0\<rparr>" let ?w = "w\<lparr>ps := (ps w)(the_p E \<mapsto> ?q)\<rparr>"
  have "sound E prog (?w\<lparr>kern := kern w, errno := errno w\<rparr>, k)" using like [of ?q "kern w" "errno w"] by (simp add: later_def)
  then have "steady E {} ?w" by (simp add: sound_def)
  from min_timeout_later [OF os this] obtain t k1 where
    t: "uthread_min_timeout os (the_sched E) ?w = Inr (t, ?w\<lparr>kern := k1\<rparr>)" "later E (kern w) k1" by auto
  have pre: "obind sched_get (\<lambda>s. obind (s_get s) (\<lambda>sc. oseq (p_upd (sched_p sc) (\<lambda>q. q\<lparr>num_new_events := 0\<rparr>))
      (obind (uthread_min_timeout os s) (\<lambda>usecs. obind (p_get (sched_p sc)) (\<lambda>q. oret (sched_p sc, usecs, q)))))) w =
    Inr ((the_p E, t, ?q), ?w\<lparr>kern := k1\<rparr>)"
    using sq t(1) by (simp add: op_simps)
  have quiet: "sound E prog (?w\<lparr>kern := k1\<rparr>, k)" "events_ok (the_p E) (?w\<lparr>kern := k1\<rparr>)"
    using like [of ?q k1 "errno w"] t(2) by (simp_all add: events_ok_def io_of_def)
  show ?thesis
  proof (cases "t \<noteq> 0 \<and> ready q = []")
    case False
    then show ?thesis unfolding uthread_poll_def pre using quiet by auto
  next
    case True
    have po: "uthread_poll os w = (case poll_timeout t of Inl e \<Rightarrow> Some (Inl e) | Inr ms \<Rightarrow>
        (case epoll_wait_loop os (poller_fd ?q) ms (?w\<lparr>kern := k1\<rparr>) of None \<Rightarrow> None | Some (Inl e) \<Rightarrow> Some (Inl e)
         | Some (Inr ((ret, evs), w)) \<Rightarrow>
             (case p_upd (the_p E) (\<lambda>q. q\<lparr>eventlist := evs @ drop (length evs) (eventlist q), num_new_events := ret\<rparr>) w of
                Inl e \<Rightarrow> Some (Inl e) | Inr (_, w) \<Rightarrow> Some (Inr w))))"
      unfolding uthread_poll_def pre using True by simp
    show ?thesis
    proof (cases "poll_timeout t")
      case (Inl e)
      then have "e = SignedOverflow" by (auto simp: poll_timeout_def c_int_def Let_def split: if_splits)
      then show ?thesis unfolding po Inl by simp
    next
      case (Inr ms)
      show ?thesis
      proof (cases "epoll_wait_loop os (poller_fd ?q) ms (?w\<lparr>kern := k1\<rparr>)")
        case None
        then show ?thesis unfolding po Inr by simp
      next
        case (Some r)
        note ep = epoll_wait_ok [OF os Some]
        show ?thesis
        proof (cases r)
          case (Inl e)
          then show ?thesis unfolding po \<open>poll_timeout t = Inr ms\<close> using Some ep by simp
        next
          case res: (Inr y)
          then obtain evs k2 x where y: "y = ((int (length evs), evs), ?w\<lparr>kern := k1, kern := k2, errno := x\<rparr>)" "later E k1 k2"
            using ep by (cases y) auto
          let ?e = "?q\<lparr>eventlist := evs @ drop (length evs) (eventlist q), num_new_events := int (length evs)\<rparr>"
          have "uthread_poll os w = Some (Inr (w\<lparr>ps := (ps w)(the_p E \<mapsto> ?e), kern := k2, errno := x\<rparr>))"
            using Some sq(6) unfolding po Inr res y(1) by (simp add: op_simps)
          moreover have "sound E prog (w\<lparr>ps := (ps w)(the_p E \<mapsto> ?e), kern := k2, errno := x\<rparr>, k)"
            using like [of ?e k2 x] later_trans [OF t(2) y(2)] by simp
          ultimately show ?thesis by (simp add: events_ok_def io_of_def)
        qed
      qed
    qed
  qed
qed

subsection \<open>The scheduler loop\<close>

lemma round_safe:
  assumes os: "sys_ok os E" "stale_ok os" "guarded_prog E prog" and m: "sound E prog m"
  shows "loop_ok (sound E prog) (sched_round os prog (the_sched E) m)"
  unfolding sched_round_def
proof (rule loop_ok_then)
  show "loop_ok (sound E prog) (uthread_resume_expired os prog (the_sched E) m)"
    unfolding uthread_resume_expired_def by (rule while_turn_ok [OF expired_turn_safe [OF os] m])
next
  fix m1
  assume m1: "sound E prog m1"
  show "loop_ok (sound E prog) (then_op (run_ready os prog (the_sched E) m1) (\<lambda>m. case on_world (s_get (the_sched E)) m of
      Inl e \<Rightarrow> Some (Inl e)
    | Inr (sc, m) \<Rightarrow> if sched_p sc = NULL then Some (Inr m)
        else then_op (case uthread_poll os (fst m) of None \<Rightarrow> None | Some (Inl e) \<Rightarrow> Some (Inl e) | Some (Inr w) \<Rightarrow> Some (Inr (w, snd m)))
          (while_turn (events_turn os prog (the_sched E)))))"
  proof (rule loop_ok_then)
    obtain w k where w: "m1 = (w, k)" by fastforce
    obtain sc q where sq: "scheds w (the_sched E) = Some sc" "sched_p sc = the_p E" "the_sched E \<noteq> NULL"
      "ps w (the_p E) = Some q" "the_p E \<noteq> NULL"
      using steady_sched [of E "{}" w] m1 w by (auto simp: sound_def)
    have "run_ready os prog (the_sched E) m1 = while_turn (ready_turn os prog (the_sched E) (last_of (ready q))) m1"
      using sq unfolding w run_ready_def by (simp add: op_simps)
    then show "loop_ok (sound E prog) (run_ready os prog (the_sched E) m1)"
      using while_turn_ok [where I = "sound E prog", OF ready_turn_safe [OF os] m1] by simp
  next
    fix m2
    assume m2: "sound E prog m2"
    obtain w k where w: "m2 = (w, k)" by fastforce
    obtain sc where sq: "scheds w (the_sched E) = Some sc" "sched_p sc = the_p E" "the_sched E \<noteq> NULL" "the_p E \<noteq> NULL"
      using steady_sched [of E "{}" w] m2 w by (auto simp: sound_def)
    have "loop_ok (\<lambda>m. sound E prog m \<and> events_ok (the_p E) (fst m))
        (case uthread_poll os w of None \<Rightarrow> None | Some (Inl e) \<Rightarrow> Some (Inl e) | Some (Inr w) \<Rightarrow> Some (Inr (w, k)))"
      using poll_safe [OF os(1) m2 [unfolded w]] by (auto simp: loop_ok_def split: option.splits sum.splits)
    then have "loop_ok (\<lambda>m. sound E prog m \<and> events_ok (the_p E) (fst m))
        (then_op (case uthread_poll os w of None \<Rightarrow> None | Some (Inl e) \<Rightarrow> Some (Inl e) | Some (Inr w) \<Rightarrow> Some (Inr (w, k)))
          (while_turn (events_turn os prog (the_sched E))))"
      by (rule loop_ok_then)
        (rule while_turn_ok [where I = "\<lambda>m. sound E prog m \<and> events_ok (the_p E) (fst m)", OF events_turn_safe [OF os]])
    then have "loop_ok (sound E prog)
        (then_op (case uthread_poll os w of None \<Rightarrow> None | Some (Inl e) \<Rightarrow> Some (Inl e) | Some (Inr w) \<Rightarrow> Some (Inr (w, k)))
          (while_turn (events_turn os prog (the_sched E))))"
      by (auto simp: loop_ok_def split: option.splits sum.splits)
    then show "loop_ok (sound E prog) (case on_world (s_get (the_sched E)) m2 of
        Inl e \<Rightarrow> Some (Inl e)
      | Inr (sc, m) \<Rightarrow> if sched_p sc = NULL then Some (Inr m)
          else then_op (case uthread_poll os (fst m) of None \<Rightarrow> None | Some (Inl e) \<Rightarrow> Some (Inl e) | Some (Inr w) \<Rightarrow> Some (Inr (w, snd m)))
            (while_turn (events_turn os prog (the_sched E))))"
      using sq unfolding w by (simp add: op_simps) (unfold snd_conv)
  qed
qed

text \<open>Without work there is no uthread.\<close>

lemma no_work_empty:
  assumes s: "steady E {} w" and q: "ps w (the_p E) = Some q" and d: "sched_work_done q"
  shows "uts w = Map.empty"
proof -
  have c: "core {} (waiters (uts w)) w" using steadyD(3) [OF s] by (simp add: inv_at_def)
  have pq: "p_ok (uts w) {} (waiters (uts w)) (sleep_mem w) (wait_mem w) (the_p E) q" by (rule core_parts(9) [OF c q])
  obtain xs where xs: "rbtree (skey (uts w)) (sleep_mem w) (sleeping q) xs" "set xs = of_p (uts w) (the_p E) \<inter> asleep (uts w)"
    using pq by (auto simp: p_ok_def)
  have "sleeping q = NULL" using d by (simp add: sched_work_done_def RB_EMPTY_def)
  then have "xs = []" using rbtree_null xs(1) by metis
  moreover have "ready q = []" using d by (simp add: sched_work_done_def)
  ultimately have "of_p (uts w) (the_p E) = {}" using pq xs(2) by (auto simp: p_ok_def)
  moreover have "of_p (uts w) (the_p E) = dom (uts w)" using orderlyD(7) [OF steadyD(1) [OF s]] by (auto simp: of_p_def)
  ultimately show ?thesis by simp
qed

text \<open>The end of the process: the stacks of the schedulers are freed.\<close>

lemma free_source_safe:
  assumes o: "orderly owned s p {} w"
  shows "\<exists>w'. on_world free_source (w, k) = Inr ((), w', k) \<and> uts w' = uts w \<and> glob w' = glob w"
proof -
  have mem: "NULL \<notin> set (sched_with_stack (glob w))" "set (sched_with_stack (glob w)) \<subseteq> dom (scheds w)"
    "distinct (sched_stacks w)" "set (sched_stacks w) \<subseteq> dom (blocks w)"
    using orderlyD(2) [OF o] unfolding mem_ok_def by blast+
  obtain w' where "free_stacks (sched_with_stack (glob w)) w = Inr ((), w')" "uts w' = uts w" "glob w' = glob w"
    using free_stacks_ok [OF mem(1,2)] mem(3,4) by (auto simp: sched_stacks_def)
  then show ?thesis by (simp add: free_source_def op_simps)
qed

definition finished :: "'k machine \<Rightarrow> bool" where
  "finished m \<longleftrightarrow> uts (fst m) = Map.empty \<and> n_uthread (glob (fst m)) = 0"

lemma sched_loop_safe:
  assumes os: "sys_ok os E" "stale_ok os" "guarded_prog E prog" and m: "sound E prog m"
  shows "loop_ok finished (sched_loop os prog (the_sched E) m)"
proof (cases "sched_loop os prog (the_sched E) m")
  case (Some r)
  have "os = os \<longrightarrow> prog = prog \<longrightarrow> the_sched E = the_sched E \<longrightarrow> sound E prog m \<longrightarrow> loop_ok finished (Some r)"
  proof (rule sched_loop.raw_induct [where P = "\<lambda>os' prog' s m r. os' = os \<longrightarrow> prog' = prog \<longrightarrow> s = the_sched E \<longrightarrow>
        sound E prog m \<longrightarrow> loop_ok finished (Some r)", OF _ Some], intro impI)
    fix f os' prog' s m r
    assume IH: "\<And>os' prog' s m r. f os' prog' s m = Some r \<Longrightarrow>
        os' = os \<longrightarrow> prog' = prog \<longrightarrow> s = the_sched E \<longrightarrow> sound E prog m \<longrightarrow> loop_ok finished (Some r)"
      and eq: "(case has_work s m of Inl e \<Rightarrow> Some (Inl e)
        | Inr (work, m) \<Rightarrow> if work then (case sched_round os' prog' s m of None \<Rightarrow> None | Some (Inl e) \<Rightarrow> Some (Inl e)
              | Some (Inr m) \<Rightarrow> f os' prog' s m)
            else if n_uthread (glob (fst m)) = 0
              then (case on_world free_source m of Inl e \<Rightarrow> Some (Inl e) | Inr (_, m) \<Rightarrow> Some (Inr m))
              else f os' prog' s m) = Some r"
      and eqs: "os' = os" "prog' = prog" "s = the_sched E" and m: "sound E prog m"
    obtain w k where w: "m = (w, k)" by fastforce
    have st: "steady E {} w" using m w by (simp add: sound_def)
    obtain sc q where sq: "scheds w s = Some sc" "sched_p sc = the_p E" "s \<noteq> NULL" "ps w (the_p E) = Some q" "the_p E \<noteq> NULL"
      using steady_sched [OF st] eqs(3) by auto
    have work: "has_work s (w, k) = Inr (\<not> sched_work_done q, w, k)" using sq by (simp add: has_work_def op_simps)
    show "loop_ok finished (Some r)"
    proof (cases "sched_work_done q")
      case True
      have none: "uts w = Map.empty" by (rule no_work_empty [OF st sq(4) True])
      then have "n_uthread (glob w) = 0" using orderlyD(11) [OF steadyD(1) [OF st]] by simp
      then show ?thesis using free_source_safe [OF steadyD(1) [OF st], of k] none work True eq unfolding w by (auto simp: finished_def)
    next
      case False
      have "loop_ok (sound E prog) (sched_round os prog (the_sched E) m)" by (rule round_safe [OF os m])
      then show ?thesis using False work eq IH eqs unfolding w by (auto split: option.splits sum.splits)
    qed
  qed
  then show ?thesis using m Some by simp
qed simp

subsection \<open>The start of the program\<close>

lemma main_end_secure: "secure E ut main_end"
  unfolding secure_def
proof (intro allI impI)
  fix w
  assume w: "active E ut w"
  then obtain u where u: "uts w ut = Some u" using activeD(5) by blast
  have "obind current_ut (\<lambda>ut. ut_upd ut ended) w = Inr ((), w\<lparr>uts := (uts w)(ut \<mapsto> ended u)\<rparr>)"
    using u activeD(4) [OF w] current_ut_run [OF activeD(2) [OF w]] by (simp add: op_simps)
  then have "main_end w = cseq uthread_yield (cret ()) (w\<lparr>uts := (uts w)(ut \<mapsto> ended u)\<rparr>)"
    unfolding main_end_def yield_ret by (simp only: lift_run(2) [of "obind current_ut (\<lambda>ut. ut_upd ut ended)"])
  then show "guards E ut (\<lambda>_ _. False) (main_end w) w" using guards_end [OF w u] by simp
qed

lemma main_prog_sound:
  assumes os: "sys_ok os E" and E: "the_sched E = all_sched 0" "the_p E = all_p 0" and w: "unused (allocated E) w"
    and body: "\<And>x ut. guarded E ut (body x)"
  shows "\<exists>a w2 c. main_prog os f ar body w = Susp a w2 c \<and> tsd w2 = the_sched E \<and> sound E prog (w2, [a \<mapsto> c])"
proof -
  let ?s = "all_sched 0" and ?p = "all_p 0"
  let ?c = "cbind (cseq (cret (0 :: int)) (lift (create_ut os ?s f ar))) (\<lambda>x. cseq (body x) main_end)"
  obtain a w2 where w2: "uthread_create os f ar w = Susp a w2 (cseq (cret (0 :: int)) (lift (create_ut os ?s f ar)))"
    "calm (allocated E) ?s ?p {} w2" "uts w2 = [a \<mapsto> main_uthread ?p]"
    using boot_calm [OF sys_okD(1) [OF os] w] by blast
  have run: "main_prog os f ar body w = Susp a w2 ?c"
    unfolding main_prog_def cbind_def [of "uthread_create os f ar"] w2(1) by (simp add: cbind_def [abs_def])
  have none: "asleep (uts w2) = {}" by (rule calmD(2) [OF w2(2)])
  then have "\<not> waits_on (uts w2) b fd" for b fd by (auto simp: waits_on_def asleep_def)
  then have "watch_ok E w2" using none calmD(6) [OF w2(2)] E(2) by (auto simp: watch_ok_def)
  then have "steady E {} w2" using w2(2) E by (simp add: steady_def calm_def)
  moreover have "secure E a ?c" using E(1)
    by (intro secure_cbind guard_intros) (auto intro!: secure_cbind main_end_secure body guarded_create_ut os simp: cseq_def)
  then have "coded prog (\<lambda>_. secure E) (w2, [a \<mapsto> ?c])"
    using w2(3) by (auto simp: coded_def code_of_def main_uthread_def zero_uthread_def split: if_splits)
  ultimately show ?thesis using run calmD(5) [OF w2(2)] E(1) by (auto simp: sound_def)
qed

end
