(* ===== verification/Spec2Isabelle.thy ===== *)
theory Spec2Isabelle
  imports Ut_Switch Ut_Program Ut_Events Ut_Park Ut_Preempt Ut_IO Ut_Splay_Cost Ut_RB_Foreach Ut_Client
begin

text \<open>
  \<^bold>\<open>uthread\<close>, a library of user-level threads (coroutines) in C, with a scheduler per operating system
  thread, a hook library that puts the POSIX thread and socket functions on top of it, and
  preemption by a timing wheel.

  \<^bold>\<open>The program.\<close>  A \<^emph>\<open>uthread\<close> is a stack with saved registers (\<^verbatim>\<open>src/uthread_inner.h\<close>,
  \<^verbatim>\<open>struct uthread\<close>).  A \<^emph>\<open>scheduler\<close> (\<^verbatim>\<open>struct sched\<close>) is a thread of the system that switches to
  uthreads.  Between them stands the \<^emph>\<open>p\<close> (\<^verbatim>\<open>struct p\<close>), which owns the ready queue, the tree of the
  sleeping uthreads, the tree of the uthreads that wait for a descriptor, and an epoll
  instance; a scheduler runs the uthreads of the p it holds.  A uthread leaves the processor only
  by switching to its scheduler: by \<^verbatim>\<open>_uthread_yield\<close> (called by itself, or by the signal handler when
  the timing wheel finds that it has run for too long), by going to sleep, by waiting for a
  descriptor, by joining another uthread, or by exiting.  A disk operation blocks the thread; the
  uthread then gives its p to an idle scheduler, for which a new thread is started.

  \<^bold>\<open>The theories.\<close>

  \<^item> \<open>Ut_Prelude\<close>: pointers, the ways a C program can crash, the result type, lemmas on lists, options
    and words.
  \<^item> \<open>Ut_Timer\<close>: \<^verbatim>\<open>timer.h\<close> and \<^verbatim>\<open>timer.c\<close>, the wheel with its linked lists on a heap of nodes
    (\<^verbatim>\<open>add_timer\<close>, \<^verbatim>\<open>tick\<close>, \<^verbatim>\<open>create_timewheel\<close>).  The locale \<open>countdown_timer\<close> is the contract of a bag of
    count-down timers; it is interpreted on the wheel.
  \<^item> \<open>Ut_Index\<close>: the contract of an index of nodes by key, the locale \<open>ordered_index\<close> over lists in key order, with
    what follows from it for sequences of operations (\<open>run_ops\<close> against \<open>spec_op\<close>) and for sorting.  Both trees of
    \<^verbatim>\<open>tree.h\<close> interpret it.
  \<^item> \<open>Ut_RB_Mem\<close>, \<open>Ut_RB_Rep\<close>, \<open>Ut_RB_Inv\<close>, \<open>Ut_RB_Insert\<close>, \<open>Ut_RB_Remove\<close>, \<open>Ut_RB_Unlink\<close>, \<open>Ut_RB_Search\<close>, \<open>Ut_RB\<close>: the
    red-black tree macros of \<^verbatim>\<open>tree.h\<close> on a heap of entries with parent pointers, the trees they
    represent, and the contract \<open>rbtree\<close>, with the locale \<open>ordered_index\<close> interpreted on the macros; \<open>Ut_RB_Foreach\<close>: the
    loops \<^verbatim>\<open>RB_FOREACH\<close>, with the body as an argument.
  \<^item> \<open>Ut_Splay_Mem\<close>, \<open>Ut_Splay_Rep\<close>, \<open>Ut_Splay\<close>, \<open>Ut_Splay_Ops\<close>: the splay tree macros of \<^verbatim>\<open>tree.h\<close>, with the local
    structure \<^verbatim>\<open>__node\<close> of the splaying functions on the heap; the recursive function \<open>splay_tree\<close> that they
    compute; the second interpretation of \<open>ordered_index\<close>.  \<open>Ut_Trees\<close>: the properties of the splay tree, and that both
    trees give the same answers.  \<open>Ut_Splay_Cost\<close>: the turns of the loop, with the potential of a tree.
  \<^item> \<open>Ut_World\<close>: the structures and constants of \<^verbatim>\<open>uthread_inner.h\<close>, the state of the program (the record
    \<open>world\<close>), the system calls it makes (the record \<open>os\<close>), and operations on the state that can crash.
  \<^item> \<open>Ut_Co\<close>: code that runs on a uthread.  An \<open>outcome\<close> is a return, a crash, or a switch to the
    scheduler with the rest of the code as a function of the state at the switch back;
    \<^verbatim>\<open>_uthread_yield\<close>.
  \<^item> \<open>Ut_Sleep\<close>: the blocking operations of \<^verbatim>\<open>uthread_sched.c\<close> (\<^verbatim>\<open>_uthread_sched_sleep\<close>, \<^verbatim>\<open>_register_event\<close>,
    \<^verbatim>\<open>_uthread_desched_sleep\<close>, \<^verbatim>\<open>_uthread_desched_event\<close>, \<^verbatim>\<open>_uthread_cancel_event\<close>) and the comparison functions of the
    two trees.
  \<^item> \<open>Ut_Uthread\<close>: \<^verbatim>\<open>uthread.c\<close> (creation, start, \<^verbatim>\<open>_uthread_resume\<close>, exit, join, detach, the disk operations) and
    \<^verbatim>\<open>_runtime_init\<close>.  The registers of the suspended uthreads are the continuations in the second
    component of a \<open>machine\<close>.
  \<^item> \<open>Ut_Sched\<close>: the rest of \<^verbatim>\<open>uthread_sched.c\<close>: \<^verbatim>\<open>_uthread_resume_expired\<close>, \<^verbatim>\<open>_uthread_min_timeout\<close>, \<^verbatim>\<open>_uthread_poll\<close>,
    \<^verbatim>\<open>handle_event\<close>, \<^verbatim>\<open>_sched_run\<close>, \<^verbatim>\<open>_sched_create_another\<close>, and a whole program (\<open>run_program\<close>).
  \<^item> \<open>Ut_Socket\<close>: \<^verbatim>\<open>uthread_socket.c\<close>; the function that the code calls by its POSIX name is an argument
    where the name is hooked.
  \<^item> \<open>Ut_Hook\<close>: \<^verbatim>\<open>myhook.c\<close>; \<open>hook\<close> ties the recursive knot between the hooks and \<^verbatim>\<open>uthread_socket.c\<close>.
  \<^item> \<open>Ut_Switch\<close>: the two assembly versions of \<^verbatim>\<open>_switch\<close> and the first context of a uthread, on a machine of
    registers and memory.
  \<^item> \<open>Ut_Inv\<close>, \<open>Ut_Block\<close>, \<open>Ut_Place\<close>, \<open>Ut_Resume\<close>, \<open>Ut_Expire\<close>: the invariant of the scheduler's data and how each
    operation moves a uthread between its places.
  \<^item> \<open>Ut_Example\<close>: a concrete system and a concrete state, used by the witnesses.
  \<^item> \<open>Ut_Waiting\<close>, \<open>Ut_Life\<close>, \<open>Ut_Join\<close>, \<open>Ut_Boot\<close>, \<open>Ut_Poll\<close>, \<open>Ut_Events\<close>, \<open>Ut_Transfer\<close>, \<open>Ut_IO\<close>: the properties of
    the operations.
  \<^item> \<open>Ut_Park\<close>: the locale \<open>parking\<close>, the contract of an operation that blocks the running uthread, with what
    \<^verbatim>\<open>_uthread_resume\<close> makes of a uthread that calls one; interpreted on \<^verbatim>\<open>_uthread_sched_sleep\<close>,
    \<^verbatim>\<open>_register_event\<close> and \<^verbatim>\<open>uthread_join\<close>.
  \<^item> \<open>Ut_Preempt\<close>: the wheel and the scheduler together.
  \<^item> \<open>Ut_Coop\<close>, \<open>Ut_Complete\<close>, \<open>Ut_Program\<close>: cooperative programs.  \<open>coop\<close> is a rely-guarantee predicate on
    outcomes that excludes crashes; the library operations of the fragment satisfy it; \<open>weight\<close>, the
    multiset of the levels and the remaining codes of all uthreads, decreases with every
    resumption.
  \<^item> \<open>Ut_Steady\<close>, \<open>Ut_Guard\<close>, \<open>Ut_Safe\<close>, \<open>Ut_Client\<close>: programs whose uthreads also wait for descriptors.  \<open>sys_ok\<close> is the
    contract of the system; \<open>steady\<close> adds to the invariant that every sleeper waits for a descriptor that the
    epoll instance watches; \<open>guarded\<close> code commits no memory fault and switches to the scheduler in
    a steady state only, and every operation of the socket interface is guarded; every turn of the scheduler's
    loops then keeps \<open>sound\<close> machines sound.  A \<open>client\<close> is the tree of the calls of a program.

  \<^bold>\<open>What is shown.\<close>

  \<^item> \<^emph>\<open>The trees\<close> (\<open>Ut_RB\<close>): insertion and removal keep the red-black properties and the order, touch
    nothing but the nodes of the tree, are inverse to each other; searching and walking return what
    the order says, and a search compares with logarithmically many nodes; all loops end.  The \<^verbatim>\<open>_SAFE\<close> loops visit all nodes although
    their body removes some.
  \<^item> \<^emph>\<open>The splay tree\<close> (\<open>Ut_Trees\<close>, \<open>Ut_Splay_Cost\<close>): top-down splaying with pointers computes \<open>splay_tree\<close>; insertion,
    removal, search and walking behave as those of the red-black tree, on every sequence of operations; \<open>m\<close>
    searches among \<open>n\<close> nodes take at most \<open>(3 m + n) log2 (n + 1)\<close> turns.
  \<^item> \<^emph>\<open>The wheel\<close> (\<open>Ut_Timer\<close>): it refines a bag of count-down timers, and each timer fires once, at its
    tick.
  \<^item> \<^emph>\<open>The context switch\<close> (\<open>Ut_Switch\<close>): a switch away and back restores the callee-saved registers and the
    stack and returns to the caller; the first switch enters \<^verbatim>\<open>_uthread_exec\<close> with its argument.
  \<^item> \<^emph>\<open>The invariant\<close> \<open>inv_at\<close>: every uthread is in exactly one of the ready queue of its p, the sleeping
    tree of its p (if and only if its status says so; if it waits for a descriptor, in the
    waiting tree as well, under its key) and the hands of a scheduler.  It is established by
    \<^verbatim>\<open>_runtime_init\<close> and kept by creation, sleeping, waiting, waking, expiry, exit, join and
    \<^verbatim>\<open>_uthread_resume\<close>, in which a uthread runs any code that switches back in an orderly state.
  \<^item> \<^emph>\<open>Completion\<close> (\<open>Ut_Program\<close>): a program whose uthreads compute, make system calls, yield, create uthreads and
    end runs from its first \<^verbatim>\<open>uthread_create\<close> to the end of \<^verbatim>\<open>_sched_run\<close> without a crash, and every
    uthread has been freed then; each round resumes the uthreads that were ready at its start, in order.
  \<^item> \<^emph>\<open>Memory safety\<close> (\<open>Ut_Client\<close>): a program of any clients, which block in socket calls and are woken by
    events or timeouts, runs without a memory fault, and if it ends every uthread has been freed.
  \<^item> \<^emph>\<open>Preemption\<close> (\<open>Ut_Preempt\<close>): a uthread that runs for two ticks is signalled.
  \<^item> \<^emph>\<open>Functional behaviour\<close>, errors included, of creation, exit, join, the end of a wait, the computation of
    the poll timeout, the hand-over of a p.
  \<^item> \<^emph>\<open>Transfer\<close> (\<open>Ut_IO\<close>): \<^verbatim>\<open>uthread_write\<close> sends each byte once and in order whatever happens while it is suspended
    (the predicate \<open>safe\<close> quantifies over all that the other uthreads may do), and returns on a
    descriptor that does not block; the accounting of \<^verbatim>\<open>uthread_writev\<close>.
  \<^item> \<^emph>\<open>Defects\<close>: the hooked \<^verbatim>\<open>recv\<close>, \<^verbatim>\<open>send\<close> and their like call themselves until the stack overflows; a join
    that times out aborts the process; equal wake-up times abort the process; a disk operation
    without an idle scheduler, or a yield after a hand-over, dereferences a null pointer; the mark
    of a timeout is never removed, and a later join then writes to freed memory; a timer that
    outlives its uthread reads freed memory; the structure of an exited uthread is freed although it may
    still be joined; a failed creation leaves the count of uthreads raised; ids are reused while in use.

  \<^bold>\<open>Bounds.\<close>  The loops of the scheduler are partial functions whose value \<open>None\<close> means that they do not end.  The
  loops of the socket operations have a number of turns as an argument and crash with
  \<open>OutOfFuel\<close> beyond it; the theorems about results of suspended transfers hold for every number,
  and \<^verbatim>\<open>uthread_write\<close> needs one more turn than there are bytes.  \<open>hook\<close> has the depth of active hooks as an
  argument, as the stack of a uthread has a bounded size; that the recursion exhausts it holds for
  every depth.  Integers keep their width where the code depends on it (status words, times,
  keys, counters, lengths); the C type \<^verbatim>\<open>int\<close> is an integer with a range check where it can overflow.

  \<^bold>\<open>Not modelled.\<close>  The prototypes of
  \<^verbatim>\<open>uthread.h\<close> and of the tree macros; \<^verbatim>\<open>pthread_once\<close> and the signal masks.  An operation of the library is one atomic step: the interleaving of several system threads inside
  operations, and a preemption signal inside one, are not covered, and the mutex of the global data is this
  atomicity.  The contents of the buffers do not occur, only which part of a buffer a system call
  is given.  The system is the argument \<open>os\<close>; what a theorem needs of it is among its hypotheses.  The completion
  theorem takes an allocator that does not hand out an address twice, and leaves out sleeping,
  waiting and joining, whose progress depends on the clock and on the other end of a connection.  The safety
  theorem has the same allocator and includes waiting; it leaves out joins and disk operations, which can fault
  (\<open>Ut_Join\<close>, \<open>Ut_Poll\<close>), and the timer thread, which can read freed uthreads (\<open>Ut_Preempt\<close>); the reads of a
  freed uthread in \<^verbatim>\<open>_uthread_resume\<close> find what the argument \<open>after_free\<close> of the system says.
\<close>

end
